(* ===== verification/Prelude.thy ===== *)
theory Prelude
  imports Main "HOL-Library.Word"
begin

unbundle bit_operations_syntax

text \<open>
  Types, generic operations and lemmas shared by the components of the Capacitor development:
  Go's fixed-width integers, byte slices and strings, and the error and panic
  values of the program.
\<close>

section \<open>Integers, bytes and strings\<close>

text \<open>
  Go's \<^verbatim>\<open>int64\<close> and \<^verbatim>\<open>int32\<close> are two's complement words read by \<^const>\<open>sint\<close>; addition wraps. A Go
  string is a byte sequence, which \<^typ>\<open>string\<close> (a list of 8-bit characters) is too. Go's \<^verbatim>\<open>int\<close>,
  where the source uses it for lengths and counts, is HOL's \<^typ>\<open>int\<close> or \<^typ>\<open>nat\<close>.
\<close>

type_synonym byte = "8 word"
type_synonym bytes = "byte list"
type_synonym int64 = "64 word"
type_synonym int32 = "32 word"
type_synonym uint64 = "64 word"
type_synonym uint32 = "32 word"

definition max_int32 :: int32 where
  "max_int32 = 2147483647"

definition bytes_of_string :: "string \<Rightarrow> bytes" where
  "bytes_of_string s = map (\<lambda>c. of_char c) s"

definition string_of_bytes :: "bytes \<Rightarrow> string" where
  "string_of_bytes b = map (\<lambda>w. char_of (unat w)) b"

text \<open>Values the program returns instead of a result, and the run-time panics of Go.\<close>

datatype goerr =
    ErrClockSmash
  | ErrKeyNotFound string
  | ErrLib string

datatype gopanic =
    IndexOutOfRange
  | SliceBounds
  | DivideByZero
  | MakeSliceLen
  | CloseOfClosedChannel

section \<open>Signed arithmetic\<close>

named_theorems go_arith \<open>reading wrapped arithmetic as integer arithmetic when nothing overflows\<close>

lemma sint_range64:
  "- (2 ^ 63) \<le> sint (w :: 64 word)" "sint (w :: 64 word) < 2 ^ 63"
  using sint_range_size [of w] by (auto simp: word_size)

lemma sint_range32:
  "- (2 ^ 31) \<le> sint (w :: 32 word)" "sint (w :: 32 word) < 2 ^ 31"
  using sint_range_size [of w] by (auto simp: word_size)

lemma sint_of_int64 [go_arith]:
  "- (2 ^ 63) \<le> i \<Longrightarrow> i < 2 ^ 63 \<Longrightarrow> sint (of_int i :: 64 word) = i"
  by (simp add: signed_of_int signed_take_bit_int_eq_self)

lemma sint_of_int32 [go_arith]:
  "- (2 ^ 31) \<le> i \<Longrightarrow> i < 2 ^ 31 \<Longrightarrow> sint (of_int i :: 32 word) = i"
  by (simp add: signed_of_int signed_take_bit_int_eq_self)

lemma sint_add64 [go_arith]:
  assumes "- (2 ^ 63) \<le> sint a + sint b" "sint a + sint b < 2 ^ 63"
  shows "sint (a + b :: 64 word) = sint a + sint b"
proof -
  have "a + b = of_int (sint a + sint b)" by simp
  then show ?thesis using sint_of_int64 [OF assms] by simp
qed

lemma sint_diff64 [go_arith]:
  assumes "- (2 ^ 63) \<le> sint a - sint b" "sint a - sint b < 2 ^ 63"
  shows "sint (a - b :: 64 word) = sint a - sint b"
proof -
  have "a - b = of_int (sint a - sint b)" by simp
  then show ?thesis using sint_of_int64 [OF assms] by simp
qed

lemma sint_eq_iff [simp]: "sint a = sint b \<longleftrightarrow> a = b"
  by (auto intro: signed_word_eqI)

lemma sint_max_int32 [simp]: "sint max_int32 = 2 ^ 31 - 1"
  by (simp add: max_int32_def)

text \<open>A 32-bit counter that is not at its maximum is really incremented.\<close>

lemma sint_inc32 [go_arith]:
  assumes "l \<noteq> max_int32"
  shows "sint (l + 1 :: 32 word) = sint l + 1"
proof -
  have "sint l \<noteq> sint max_int32" using assms by (simp del: sint_max_int32)
  then have "sint l < 2 ^ 31 - 1" using sint_range32(2) [of l] by simp
  moreover have "l + 1 = of_int (sint l + 1)" by simp
  ultimately show ?thesis using sint_range32(1) [of l] sint_of_int32 [of "sint l + 1"] by simp
qed

end
