(* ===== verification/Go_Lib.thy ===== *)
theory Go_Lib
  imports Prelude
begin

text \<open>
  The functions of Go's standard library that the source calls: \<^verbatim>\<open>strings.Index\<close>,
  \<^verbatim>\<open>strings.HasPrefix\<close> and \<^verbatim>\<open>strings.Split\<close> (always with the separator \<^verbatim>\<open>":"\<close>),
  \<^verbatim>\<open>fmt.Sprintf\<close> with \<^verbatim>\<open>%d\<close>, \<^verbatim>\<open>strconv.ParseInt\<close> in base 10, and the big-endian 64-bit
  encodings of \<^verbatim>\<open>encoding/binary\<close>, with the round trips the store relies on.
\<close>

unbundle bit_operations_syntax

section \<open>Strings\<close>

definition colon :: char where
  "colon = CHR '':''"

text \<open>\<^verbatim>\<open>strings.Index(s, ":")\<close>; \<^const>\<open>None\<close> is Go's \<open>-1\<close>.\<close>

fun Index_colon :: "string \<Rightarrow> nat option" where
  "Index_colon [] = None"
| "Index_colon (c # s) = (if c = colon then Some 0 else map_option Suc (Index_colon s))"

definition HasPrefix :: "string \<Rightarrow> string \<Rightarrow> bool" where
  "HasPrefix s p \<longleftrightarrow> take (length p) s = p"

fun Split_colon :: "string \<Rightarrow> string list" where
  "Split_colon [] = [ [] ]"
| "Split_colon (c # s) =
     (if c = colon then [] # Split_colon s
      else (case Split_colon s of [] \<Rightarrow> [ [c] ] | p # ps \<Rightarrow> (c # p) # ps))"

lemma HasPrefix_append [simp]: "HasPrefix (p @ s) p"
  by (simp add: HasPrefix_def)

lemma Index_colon_None: "colon \<notin> set s \<Longrightarrow> Index_colon s = None"
  by (induction s) auto

lemma Index_colon_append [simp]:
  "colon \<notin> set s \<Longrightarrow> Index_colon (s @ colon # t) = Some (length s)"
  by (induction s) auto

lemma Split_colon_nonempty [simp]: "Split_colon s \<noteq> []"
  by (induction s) (auto split: list.splits)

lemma Split_colon_free: "colon \<notin> set s \<Longrightarrow> Split_colon s = [s]"
  by (induction s) auto

lemma Split_colon_append:
  "colon \<notin> set s \<Longrightarrow> Split_colon (s @ colon # t) = s # Split_colon t"
  by (induction s) auto

section \<open>Decimal numbers\<close>

fun fmt_nat :: "nat \<Rightarrow> string" where
  "fmt_nat n = (if n < 10 then [char_of (48 + n)] else fmt_nat (n div 10) @ [char_of (48 + n mod 10)])"

declare fmt_nat.simps [simp del]

text \<open>\<^verbatim>\<open>fmt.Sprintf("%d", i)\<close>.\<close>

definition fmt_int :: "int \<Rightarrow> string" where
  "fmt_int i = (if i < 0 then CHR ''-'' # fmt_nat (nat (- i)) else fmt_nat (nat i))"

definition digit_val :: "char \<Rightarrow> nat option" where
  "digit_val c = (let n = (of_char c :: nat) in if 48 \<le> n \<and> n \<le> 57 then Some (n - 48) else None)"

fun parse_digits :: "nat \<Rightarrow> string \<Rightarrow> nat option" where
  "parse_digits acc [] = Some acc"
| "parse_digits acc (c # s) =
     (case digit_val c of None \<Rightarrow> None | Some d \<Rightarrow> parse_digits (10 * acc + d) s)"

definition parse_nat :: "string \<Rightarrow> nat option" where
  "parse_nat s = (if s = [] then None else parse_digits 0 s)"

text \<open>
  \<^verbatim>\<open>strconv.ParseInt(s, 10, 64)\<close> with its error dropped, as the store calls it: 0 on a syntax
  error, the nearest bound on a range error.
\<close>

definition clamp_int64 :: "int \<Rightarrow> int64" where
  "clamp_int64 i = of_int (max (- (2 ^ 63)) (min (2 ^ 63 - 1) i))"

definition ParseInt :: "string \<Rightarrow> int64" where
  "ParseInt s =
     (case s of
        [] \<Rightarrow> 0
      | c # t \<Rightarrow>
          if c = CHR ''-'' then (case parse_nat t of None \<Rightarrow> 0 | Some n \<Rightarrow> clamp_int64 (- int n))
          else if c = CHR ''+'' then (case parse_nat t of None \<Rightarrow> 0 | Some n \<Rightarrow> clamp_int64 (int n))
          else (case parse_nat s of None \<Rightarrow> 0 | Some n \<Rightarrow> clamp_int64 (int n)))"

lemma digit_val_char_of [simp]: "d < 10 \<Longrightarrow> digit_val (char_of (48 + d)) = Some d"
  by (simp add: digit_val_def Let_def of_char_of)

lemma fmt_nat_not_Nil [simp]: "fmt_nat n \<noteq> []"
  by (subst fmt_nat.simps) simp

lemma parse_digits_append:
  "parse_digits acc (s @ t) = Option.bind (parse_digits acc s) (\<lambda>a. parse_digits a t)"
  by (induction acc s rule: parse_digits.induct) (auto split: option.splits)

lemma parse_digits_fmt_nat: "parse_digits 0 (fmt_nat n) = Some n"
proof (induction n rule: fmt_nat.induct)
  case (1 n)
  show ?case
  proof (cases "n < 10")
    case True
    then show ?thesis by (simp add: fmt_nat.simps [of n])
  next
    case False
    then have "parse_digits 0 (fmt_nat (n div 10)) = Some (n div 10)" by (rule 1)
    with False show ?thesis
      by (simp add: fmt_nat.simps [of n] parse_digits_append digit_val_char_of [of "n mod 10"])
  qed
qed

lemma parse_nat_fmt_nat [simp]: "parse_nat (fmt_nat n) = Some n"
  by (simp add: parse_nat_def parse_digits_fmt_nat)

lemma fmt_nat_digits: "c \<in> set (fmt_nat n) \<Longrightarrow> \<exists>d < (10 :: nat). c = char_of (48 + d)"
proof (induction n rule: fmt_nat.induct)
  case (1 n)
  have last: "\<exists>d < (10 :: nat). char_of (48 + n mod 10) = (char_of (48 + d) :: char)"
    by (rule exI [of _ "n mod 10"]) simp
  show ?case
  proof (cases "n < 10")
    case True
    with 1 show ?thesis by (auto simp: fmt_nat.simps [of n] simp del: char_of_eq_iff)
  next
    case False
    with 1 last show ?thesis by (auto simp: fmt_nat.simps [of n] simp del: char_of_eq_iff)
  qed
qed

lemma digit_chars:
  assumes "d < (10 :: nat)"
  shows "char_of (48 + d) \<notin> {CHR ''-'', CHR ''+'', CHR '':''}"
proof -
  have "d = 0 \<or> d = 1 \<or> d = 2 \<or> d = 3 \<or> d = 4 \<or> d = 5 \<or> d = 6 \<or> d = 7 \<or> d = 8 \<or> d = 9"
    using assms by arith
  then show ?thesis by (elim disjE) (simp_all add: char_of_def)
qed

lemma fmt_nat_no_sign:
  "CHR ''-'' \<notin> set (fmt_nat n)" "CHR ''+'' \<notin> set (fmt_nat n)" "colon \<notin> set (fmt_nat n)"
  unfolding colon_def by (auto dest!: fmt_nat_digits dest: digit_chars simp del: char_of_eq_iff)

lemma fmt_int_no_colon [simp]: "colon \<notin> set (fmt_int i)"
  by (auto simp: fmt_int_def fmt_nat_no_sign colon_def) (simp_all add: fmt_nat_no_sign [unfolded colon_def])

lemma clamp_int64_sint: "clamp_int64 (sint w) = w"
proof -
  have "max (- (2 ^ 63)) (min (2 ^ 63 - 1) (sint w)) = sint w" using sint_range64 [of w] by linarith
  then show ?thesis by (simp add: clamp_int64_def)
qed

text \<open>Printing a 64-bit integer in decimal and parsing it back is the identity.\<close>

lemma ParseInt_fmt_int: "ParseInt (fmt_int (sint w)) = w"
proof (cases "sint w < 0")
  case True
  then have "int (nat (- sint w)) = - sint w" by simp
  with True show ?thesis
    by (simp add: ParseInt_def fmt_int_def clamp_int64_sint)
next
  case False
  obtain c t where ct: "fmt_nat (nat (sint w)) = c # t"
    by (meson fmt_nat_not_Nil neq_Nil_conv)
  have c: "c \<noteq> CHR ''-''" "c \<noteq> CHR ''+''"
    using fmt_nat_no_sign [of "nat (sint w)"] ct by auto
  have "parse_nat (c # t) = Some (nat (sint w))"
    using ct parse_nat_fmt_nat [of "nat (sint w)"] by simp
  with False c show ?thesis
    by (simp add: ParseInt_def fmt_int_def ct clamp_int64_sint)
qed

section \<open>Big-endian words\<close>

text \<open>\<^verbatim>\<open>binary.BigEndian.PutUint64\<close> and \<^verbatim>\<open>Uint64\<close>; the latter panics on fewer than 8 bytes.\<close>

definition PutUint64 :: "uint64 \<Rightarrow> bytes" where
  "PutUint64 v = [ucast (drop_bit 56 v), ucast (drop_bit 48 v), ucast (drop_bit 40 v),
                  ucast (drop_bit 32 v), ucast (drop_bit 24 v), ucast (drop_bit 16 v),
                  ucast (drop_bit 8 v), ucast v]"

definition Uint64 :: "bytes \<Rightarrow> gopanic + uint64" where
  "Uint64 b =
     (case b of
        b0 # b1 # b2 # b3 # b4 # b5 # b6 # b7 # _ \<Rightarrow>
          Inr (ucast b7 OR push_bit 8 (ucast b6) OR push_bit 16 (ucast b5) OR
               push_bit 24 (ucast b4) OR push_bit 32 (ucast b3) OR push_bit 40 (ucast b2) OR
               push_bit 48 (ucast b1) OR push_bit 56 (ucast b0))
      | _ \<Rightarrow> Inl IndexOutOfRange)"

lemma length_PutUint64 [simp]: "length (PutUint64 v) = 8"
  by (simp add: PutUint64_def)

lemma low_byte_split:
  "(ucast (ucast x :: byte) :: uint64) OR push_bit 8 (drop_bit 8 x) = x"
proof (rule bit_word_eqI)
  fix n
  assume "n < LENGTH(64)"
  then show "bit ((ucast (ucast x :: byte) :: uint64) OR push_bit 8 (drop_bit 8 x)) n = bit x n"
    by (cases "n < 8") (auto simp: bit_simps)
qed

lemma high_byte: "(ucast (ucast (drop_bit 56 v :: uint64) :: byte) :: uint64) = drop_bit 56 v"
  by (rule bit_word_eqI) (auto simp: bit_simps dest: bit_imp_le_length)

lemma bytes_horner:
  "b7 OR push_bit 8 b6 OR push_bit 16 b5 OR push_bit 24 b4 OR push_bit 32 b3 OR push_bit 40 b2 OR
     push_bit 48 b1 OR push_bit 56 b0
   = b7 OR push_bit 8 (b6 OR push_bit 8 (b5 OR push_bit 8 (b4 OR push_bit 8 (b3 OR push_bit 8
       (b2 OR push_bit 8 (b1 OR push_bit 8 b0))))))" for b0 :: uint64
  by (simp add: push_bit_or ac_simps)

lemma drop_bit_bytes:
  "drop_bit 56 v = drop_bit 8 (drop_bit 48 v)" "drop_bit 48 v = drop_bit 8 (drop_bit 40 v)"
  "drop_bit 40 v = drop_bit 8 (drop_bit 32 v)" "drop_bit 32 v = drop_bit 8 (drop_bit 24 v)"
  "drop_bit 24 v = drop_bit 8 (drop_bit 16 v)" "drop_bit 16 v = drop_bit 8 (drop_bit 8 v)"
  for v :: uint64
  by simp_all

lemma Uint64_PutUint64 [simp]: "Uint64 (PutUint64 v @ r) = Inr v"
proof -
  have "Uint64 (PutUint64 v @ r) =
    Inr (ucast (ucast v :: byte) OR push_bit 8 (ucast (ucast (drop_bit 8 v) :: byte) OR push_bit 8
      (ucast (ucast (drop_bit 16 v) :: byte) OR push_bit 8 (ucast (ucast (drop_bit 24 v) :: byte) OR
       push_bit 8 (ucast (ucast (drop_bit 32 v) :: byte) OR push_bit 8
         (ucast (ucast (drop_bit 40 v) :: byte) OR push_bit 8 (ucast (ucast (drop_bit 48 v) :: byte)
           OR push_bit 8 (drop_bit 56 v))))))))"
    unfolding Uint64_def PutUint64_def by (simp only: append_Cons list.case bytes_horner high_byte)
  also have "\<dots> = Inr v"
    unfolding drop_bit_bytes(1) low_byte_split unfolding drop_bit_bytes(2) low_byte_split
    unfolding drop_bit_bytes(3) low_byte_split unfolding drop_bit_bytes(4) low_byte_split
    unfolding drop_bit_bytes(5) low_byte_split unfolding drop_bit_bytes(6) low_byte_split ..
  finally show ?thesis .
qed

end
