(* ===== verification/HLC.thy ===== *)
theory HLC
  imports Go_Lib
begin

text \<open>
  The hybrid logical clock of \<^verbatim>\<open>src/hlc.go\<close>. \<open>Timestamp\<close> is the pair of physical nanoseconds
  and logical counter with the order that \<^verbatim>\<open>GreaterOrEqual\<close> and \<^verbatim>\<open>After\<close> test; \<open>HLC\<close> is the clock.
  Its methods run under the clock's mutex, so each is one atomic state change; the reading of
  \<^verbatim>\<open>time.Now().UnixNano()\<close> that a method makes is its argument \<open>wall\<close>. The lemmas show that the
  clock only moves forward, that it stays near the wall clocks it has seen, and that along every
  causal chain of a cluster of clocks timestamps strictly increase.
\<close>

section \<open>Timestamps\<close>

datatype Timestamp = Timestamp (Physical: int64) (Logical: int32)

definition GreaterOrEqual :: "Timestamp \<Rightarrow> Timestamp \<Rightarrow> bool" where
  "GreaterOrEqual t other =
     (if Physical t \<noteq> Physical other then sint (Physical t) > sint (Physical other)
      else sint (Logical t) \<ge> sint (Logical other))"

definition After :: "Timestamp \<Rightarrow> Timestamp \<Rightarrow> bool" where
  "After t other =
     (if sint (Physical t) > sint (Physical other) then True
      else if sint (Physical t) < sint (Physical other) then False
      else sint (Logical t) > sint (Logical other))"

definition Timestamp_String :: "Timestamp \<Rightarrow> string" where
  "Timestamp_String t = fmt_int (sint (Physical t)) @ [colon] @ fmt_int (sint (Logical t))"

text \<open>The order the two comparisons decide: lexicographic on the signed values.\<close>

instantiation Timestamp :: linorder
begin

definition less_eq_Timestamp :: "Timestamp \<Rightarrow> Timestamp \<Rightarrow> bool" where
  "a \<le> b \<longleftrightarrow> sint (Physical a) < sint (Physical b) \<or>
     Physical a = Physical b \<and> sint (Logical a) \<le> sint (Logical b)"

definition less_Timestamp :: "Timestamp \<Rightarrow> Timestamp \<Rightarrow> bool" where
  "a < b \<longleftrightarrow> sint (Physical a) < sint (Physical b) \<or>
     Physical a = Physical b \<and> sint (Logical a) < sint (Logical b)"

instance
proof
  fix x y z :: Timestamp
  show "x < y \<longleftrightarrow> x \<le> y \<and> \<not> y \<le> x"
    by (auto simp: less_eq_Timestamp_def less_Timestamp_def)
  show "x \<le> x" by (simp add: less_eq_Timestamp_def)
  show "x \<le> y \<Longrightarrow> y \<le> z \<Longrightarrow> x \<le> z" by (auto simp: less_eq_Timestamp_def)
  show "x \<le> y \<Longrightarrow> y \<le> x \<Longrightarrow> x = y"
    by (cases x; cases y) (auto simp: less_eq_Timestamp_def )
  show "x \<le> y \<or> y \<le> x"
  proof (cases "Physical x = Physical y")
    case True
    then show ?thesis by (auto simp: less_eq_Timestamp_def)
  next
    case False
    then have "sint (Physical x) \<noteq> sint (Physical y)" by simp
    then show ?thesis unfolding less_eq_Timestamp_def by linarith
  qed
qed

end

lemma GreaterOrEqual_iff [simp]: "GreaterOrEqual t other \<longleftrightarrow> other \<le> t"
  by (auto simp: GreaterOrEqual_def less_eq_Timestamp_def)

lemma After_iff [simp]: "After t other \<longleftrightarrow> other < t"
proof (cases "Physical t = Physical other")
  case True
  then show ?thesis by (simp add: After_def less_Timestamp_def)
next
  case False
  then have "sint (Physical t) \<noteq> sint (Physical other)" by simp
  then consider "sint (Physical t) < sint (Physical other)" | "sint (Physical other) < sint (Physical t)"
    by linarith
  with False show ?thesis by cases (auto simp: After_def less_Timestamp_def)
qed

section \<open>The clock\<close>

record HLC =
  physical :: int64
  logical :: int32
  maxOffset :: int64

definition DefaultMaxOffset :: int64 where
  "DefaultMaxOffset = 500 * 1000000"

definition NewHLC :: "int64 \<Rightarrow> HLC" where
  "NewHLC wall = \<lparr>physical = wall, logical = 0, maxOffset = DefaultMaxOffset\<rparr>"

definition SetMaxOffset :: "HLC \<Rightarrow> int64 \<Rightarrow> HLC" where
  "SetMaxOffset h offset = h\<lparr>maxOffset := offset\<rparr>"

text \<open>The timestamp the clock currently stands at.\<close>

definition clock_ts :: "HLC \<Rightarrow> Timestamp" where
  "clock_ts h = Timestamp (physical h) (logical h)"

definition Now :: "HLC \<Rightarrow> int64 \<Rightarrow> HLC \<times> Timestamp" where
  "Now h wall =
     (let h' = (if sint (physical h) < sint wall then h\<lparr>physical := wall, logical := 0\<rparr>
                else h\<lparr>logical := logical h + 1\<rparr>)
      in (h', Timestamp (physical h') (logical h')))"

definition Update :: "HLC \<Rightarrow> int64 \<Rightarrow> Timestamp \<Rightarrow> HLC \<times> (goerr + Timestamp)" where
  "Update h wall remote =
     (if sint (Physical remote) > sint (wall + maxOffset h) then (h, Inl ErrClockSmash)
      else
        (let maxPhysical = wall;
             maxPhysical = (if sint (physical h) > sint maxPhysical then physical h else maxPhysical);
             maxPhysical = (if sint (Physical remote) > sint maxPhysical then Physical remote
                            else maxPhysical);
             h' = (if maxPhysical = physical h \<and> maxPhysical = Physical remote then
                     (let maxLogical = logical h;
                          maxLogical = (if sint (Logical remote) > sint maxLogical
                                        then Logical remote else maxLogical)
                      in h\<lparr>logical := maxLogical + 1\<rparr>)
                   else if maxPhysical = physical h then h\<lparr>logical := logical h + 1\<rparr>
                   else if maxPhysical = Physical remote then
                     h\<lparr>physical := maxPhysical, logical := Logical remote + 1\<rparr>
                   else h\<lparr>physical := maxPhysical, logical := 0\<rparr>)
         in (h', Inr (Timestamp (physical h') (logical h')))))"

lemma Now_result: "Now h wall = (h', t) \<Longrightarrow> t = clock_ts h'"
  by (auto simp: Now_def Let_def clock_ts_def)

lemma Update_result: "Update h wall r = (h', Inr t) \<Longrightarrow> t = clock_ts h'"
  by (auto simp: Update_def Let_def clock_ts_def split: if_splits)

lemma Now_maxOffset [simp]: "maxOffset (fst (Now h wall)) = maxOffset h"
  by (simp add: Now_def Let_def)

lemma Update_maxOffset [simp]: "maxOffset (fst (Update h wall r)) = maxOffset h"
  by (simp add: Update_def Let_def)

text \<open>A call of \<^const>\<open>Now\<close> returns a timestamp above every timestamp the clock stood at, whatever
  the wall clock reads (it may run backwards), unless the 32-bit logical counter is exhausted.\<close>

lemma Now_less:
  assumes "Now h wall = (h', t)" and "sint (physical h) < sint wall \<or> logical h \<noteq> max_int32"
  shows "clock_ts h < t \<and> t = clock_ts h'"
proof (cases "sint (physical h) < sint wall")
  case True
  with assms(1) show ?thesis by (auto simp: Now_def Let_def clock_ts_def less_Timestamp_def)
next
  case False
  with assms have "sint (logical h + 1) = sint (logical h) + 1" by (simp add: go_arith)
  with False assms(1) show ?thesis by (auto simp: Now_def Let_def clock_ts_def less_Timestamp_def)
qed

text \<open>An accepted \<^const>\<open>Update\<close> moves the clock above both its own timestamp and the received one, so
  every timestamp issued after a message was received is above the message's, unless one of the two
  logical counters is at its maximum.\<close>

lemma Update_less:
  assumes "Update h wall remote = (h', Inr t)"
    and "logical h \<noteq> max_int32" and "Logical remote \<noteq> max_int32"
  shows "clock_ts h < t \<and> remote < t \<and> t = clock_ts h'"
proof -
  have l: "sint (logical h + 1) = sint (logical h) + 1" and r: "sint (Logical remote + 1) = sint (Logical remote) + 1"
    using assms by (simp_all add: go_arith)
  obtain p g where remote: "remote = Timestamp p g" by (cases remote)
  have t: "t = clock_ts h'" using assms(1) by (rule Update_result)
  moreover have "clock_ts h < clock_ts h'" and "remote < clock_ts h'"
    using assms(1) l r unfolding remote
    by (auto simp: Update_def Let_def clock_ts_def less_Timestamp_def split: if_splits)
  ultimately show ?thesis by simp
qed

text \<open>C23: Clock smash protection: \<^const>\<open>Update\<close> rejects a timestamp exactly when its physical part is more than
  the configured offset ahead of the local wall clock, and a rejected timestamp leaves the clock as it was
  (the sum of wall clock and offset being representable).\<close>

theorem Update_rejects_iff:
  assumes "0 \<le> sint (maxOffset h)" and "sint wall + sint (maxOffset h) < 2 ^ 63"
  shows "if sint (Physical remote) > sint wall + sint (maxOffset h)
         then Update h wall remote = (h, Inl ErrClockSmash)
         else snd (Update h wall remote) = Inr (clock_ts (fst (Update h wall remote)))"
proof -
  have "sint (wall + maxOffset h) = sint wall + sint (maxOffset h)"
    using assms sint_range64(1) [of wall] by (intro sint_add64) simp_all
  then show ?thesis by (simp add: Update_def Let_def clock_ts_def)
qed

theorem Update_rejects_iff_witness:
  "Update (NewHLC 1000) 1000 (Timestamp 500001001 0) = (NewHLC 1000, Inl ErrClockSmash)"
  using Update_rejects_iff [of "NewHLC 1000" 1000 "Timestamp 500001001 0"]
  by (simp add: NewHLC_def DefaultMaxOffset_def)

text \<open>The logical counter wraps: after accepting a timestamp whose logical part is the largest
  \<^verbatim>\<open>int32\<close>, whose physical part is ahead of the local clocks by no more than the allowed offset, the
  clock stands below the timestamp it has just accepted, so causality is lost.\<close>

theorem Update_logical_wraps:
  assumes "sint (physical h) < sint p" and "sint wall < sint p" and "sint p \<le> sint (wall + maxOffset h)"
  shows "Update h wall (Timestamp p max_int32)
           = (h\<lparr>physical := p, logical := - max_int32 - 1\<rparr>, Inr (Timestamp p (- max_int32 - 1)))
         \<and> Timestamp p (- max_int32 - 1) < Timestamp p max_int32"
  using assms by (auto simp: Update_def Let_def less_Timestamp_def max_int32_def)

theorem Update_logical_wraps_witness:
  "snd (Update (NewHLC 1000) 1000 (Timestamp 2000 max_int32)) = Inr (Timestamp 2000 (- max_int32 - 1))"
  using Update_logical_wraps [of "NewHLC 1000" 2000 1000]
  by (simp add: NewHLC_def DefaultMaxOffset_def)

section \<open>Runs of one clock\<close>

text \<open>What can happen to a clock: a local event or a received timestamp, each with the reading of
  the wall clock at that moment.\<close>

datatype clock_event = ENow int64 | EUpdate int64 Timestamp

fun event_wall :: "clock_event \<Rightarrow> int64" where
  "event_wall (ENow wall) = wall"
| "event_wall (EUpdate wall r) = wall"

fun clock_step :: "HLC \<Rightarrow> clock_event \<Rightarrow> HLC" where
  "clock_step h (ENow wall) = fst (Now h wall)"
| "clock_step h (EUpdate wall r) = fst (Update h wall r)"

definition clock_run :: "HLC \<Rightarrow> clock_event list \<Rightarrow> HLC" where
  "clock_run h es = fold (\<lambda>e h. clock_step h e) es h"

lemma clock_step_maxOffset [simp]: "maxOffset (clock_step h e) = maxOffset h"
  by (cases e) simp_all

lemma clock_step_forward: "sint (physical h) \<le> sint (physical (clock_step h e))"
  by (cases e) (auto simp: Now_def Update_def Let_def)

lemma clock_step_bound:
  assumes "sint (physical h) \<le> B" and "sint (event_wall e) + sint (maxOffset h) \<le> B"
    and "0 \<le> sint (maxOffset h)" and "B < 2 ^ 63"
  shows "sint (physical (clock_step h e)) \<le> B"
proof (cases e)
  case (ENow wall)
  with assms show ?thesis by (auto simp: Now_def Let_def)
next
  case (EUpdate wall r)
  with assms have "sint (wall + maxOffset h) = sint wall + sint (maxOffset h)"
    using sint_range64(1) [of wall] by (intro sint_add64) simp_all
  with assms EUpdate show ?thesis by (auto simp: Update_def Let_def)
qed



section \<open>Clusters of clocks: causality\<close>

text \<open>
  A history records, in the order they happened, the events of a cluster of nodes: the node, the
  event whose timestamp it received (if it is a receipt), and the timestamp the clock stood at
  afterwards. A receipt may read any earlier event's timestamp, as a replicated entry may arrive
  late, twice or out of order. Runs in which a logical counter is exhausted are excluded.
\<close>

record hevent =
  ev_node :: nat
  ev_from :: "nat option"
  ev_ts :: Timestamp

inductive hlc_history :: "(nat \<Rightarrow> HLC) \<Rightarrow> hevent list \<Rightarrow> bool" where
  hstart: "hlc_history C []"
| hlocal: "hlc_history C H \<Longrightarrow> Now (C n) wall = (h, t) \<Longrightarrow> logical (C n) \<noteq> max_int32 \<Longrightarrow>
     hlc_history (C(n := h)) (H @ [\<lparr>ev_node = n, ev_from = None, ev_ts = t\<rparr>])"
| hrecv: "hlc_history C H \<Longrightarrow> j < length H \<Longrightarrow> Update (C n) wall (ev_ts (H ! j)) = (h, Inr t) \<Longrightarrow>
     logical (C n) \<noteq> max_int32 \<Longrightarrow> Logical (ev_ts (H ! j)) \<noteq> max_int32 \<Longrightarrow>
     hlc_history (C(n := h)) (H @ [\<lparr>ev_node = n, ev_from = Some j, ev_ts = t\<rparr>])"

text \<open>Lamport's happened-before on the positions of a history.\<close>

inductive happened_before :: "hevent list \<Rightarrow> nat \<Rightarrow> nat \<Rightarrow> bool" for H where
  hb_node: "i < j \<Longrightarrow> j < length H \<Longrightarrow> ev_node (H ! i) = ev_node (H ! j) \<Longrightarrow> happened_before H i j"
| hb_msg: "j < length H \<Longrightarrow> ev_from (H ! j) = Some i \<Longrightarrow> happened_before H i j"
| hb_trans: "happened_before H i j \<Longrightarrow> happened_before H j k \<Longrightarrow> happened_before H i k"

text \<open>The invariant of histories: no event of a node is above the node's clock, and each event is
  above the earlier events of its node and above the event it received.\<close>

definition history_inv :: "(nat \<Rightarrow> HLC) \<Rightarrow> hevent list \<Rightarrow> bool" where
  "history_inv C H \<longleftrightarrow>
     (\<forall>i < length H. ev_ts (H ! i) \<le> clock_ts (C (ev_node (H ! i)))) \<and>
     (\<forall>j < length H. \<forall>i < j. ev_node (H ! i) = ev_node (H ! j) \<longrightarrow> ev_ts (H ! i) < ev_ts (H ! j)) \<and>
     (\<forall>j < length H. \<forall>i. ev_from (H ! j) = Some i \<longrightarrow> i < j \<and> ev_ts (H ! i) < ev_ts (H ! j))"

lemma history_inv_snoc:
  assumes "history_inv C H" and "clock_ts (C n) < clock_ts h"
    and "\<And>i. f = Some i \<Longrightarrow> i < length H \<and> ev_ts (H ! i) < clock_ts h"
  shows "history_inv (C(n := h)) (H @ [\<lparr>ev_node = n, ev_from = f, ev_ts = clock_ts h\<rparr>])"
  using assms unfolding history_inv_def
  by (auto simp: nth_append less_Suc_eq split: if_splits)

lemma hlc_history_inv: "hlc_history C H \<Longrightarrow> history_inv C H"
proof (induction rule: hlc_history.induct)
  case (hstart C)
  then show ?case by (simp add: history_inv_def)
next
  case (hlocal C H n wall h t)
  then show ?case using Now_result Now_less history_inv_snoc [of C H n h None] by (metis option.distinct(1))
next
  case (hrecv C H j n wall h t)
  then show ?case using Update_less history_inv_snoc [of C H n h "Some j"] by (metis option.inject)
qed

text \<open>C5: Timestamps respect causality: in every history of a cluster, whatever the wall clocks read and
  whenever messages arrive, an event that happened before another has the smaller timestamp, as long as no clock
  or message that takes a step has its logical counter at the largest \<^verbatim>\<open>int32\<close>.\<close>

theorem hlc_causality:
  assumes "hlc_history C H" and "happened_before H i j"
  shows "i < j \<and> ev_ts (H ! i) < ev_ts (H ! j)"
  using assms(2)
proof (induction rule: happened_before.induct)
  case (hb_node i j)
  with hlc_history_inv [OF assms(1)] show ?case by (simp add: history_inv_def)
next
  case (hb_msg j i)
  with hlc_history_inv [OF assms(1)] show ?case by (simp add: history_inv_def)
next
  case (hb_trans i j k)
  then show ?case by auto
qed

text \<open>A history of two nodes: node 1, whose wall clock is behind, receives node 0's event.\<close>

definition demo_history :: "hevent list" where
  "demo_history = [\<lparr>ev_node = 0, ev_from = None, ev_ts = Timestamp 9 0\<rparr>,
                   \<lparr>ev_node = 1, ev_from = Some 0, ev_ts = Timestamp 9 1\<rparr>,
                   \<lparr>ev_node = 1, ev_from = None, ev_ts = Timestamp 9 2\<rparr>]"

lemma demo_history_runs:
  "\<exists>C. hlc_history C demo_history"
proof -
  let ?C = "\<lambda>_. NewHLC 4"
  have 1: "hlc_history (?C(0 := NewHLC 9)) ([] @ [\<lparr>ev_node = 0, ev_from = None, ev_ts = Timestamp 9 0\<rparr>])"
    by (rule hlc_history.hlocal [OF hlc_history.hstart, where wall = 9])
       (simp_all add: Now_def NewHLC_def max_int32_def)
  let ?H1 = "[] @ [\<lparr>ev_node = 0, ev_from = None, ev_ts = Timestamp 9 0\<rparr>]"
  have 2: "hlc_history (?C(0 := NewHLC 9, 1 := (NewHLC 9)\<lparr>logical := 1\<rparr>))
      (?H1 @ [\<lparr>ev_node = 1, ev_from = Some 0, ev_ts = Timestamp 9 1\<rparr>])"
    by (rule hlc_history.hrecv [OF 1, where wall = 5])
       (simp_all add: Update_def NewHLC_def DefaultMaxOffset_def max_int32_def)
  have 3: "hlc_history ((?C(0 := NewHLC 9, 1 := (NewHLC 9)\<lparr>logical := 1\<rparr>))(1 := (NewHLC 9)\<lparr>logical := 2\<rparr>))
      ((?H1 @ [\<lparr>ev_node = 1, ev_from = Some 0, ev_ts = Timestamp 9 1\<rparr>])
        @ [\<lparr>ev_node = 1, ev_from = None, ev_ts = Timestamp 9 2\<rparr>])"
    by (rule hlc_history.hlocal [OF 2, where wall = 6])
       (simp_all add: Now_def NewHLC_def max_int32_def)
  then show ?thesis unfolding demo_history_def by auto
qed

theorem hlc_causality_witness: "ev_ts (demo_history ! 0) < ev_ts (demo_history ! 2)"
proof -
  obtain C where "hlc_history C demo_history" using demo_history_runs ..
  moreover have "happened_before demo_history 0 2"
  proof (rule happened_before.hb_trans)
    show "happened_before demo_history 0 1" by (rule happened_before.hb_msg) (simp_all add: demo_history_def)
    show "happened_before demo_history 1 2" by (rule happened_before.hb_node) (simp_all add: demo_history_def)
  qed
  ultimately show ?thesis using hlc_causality by blast
qed

end
