(* ===== verification/Float64.thy ===== *)
theory Float64
  imports Go_Lib
begin

text \<open>
  Go's \<^verbatim>\<open>float64\<close>: the IEEE 754 binary64 format as its 64-bit pattern (\<open>Float64bits\<close> is
  \<^verbatim>\<open>math.Float64bits\<close>). Every finite value is an integer multiple of \<open>2 ^ -1074\<close>, so the value of a
  pattern is kept as that integer; sums are exact on integers and then rounded to nearest, ties to
  even. Counters live in this type: the lemmas at the end show that integers below \<open>2 ^ 53\<close> in
  magnitude are represented and added exactly, which is the range in which the program's counters count.
\<close>

datatype float64 = F64 (Float64bits: "64 word")

section \<open>Reading a pattern\<close>

definition f_neg :: "float64 \<Rightarrow> bool" where
  "f_neg f = bit (Float64bits f) 63"

definition f_exp :: "float64 \<Rightarrow> nat" where
  "f_exp f = unat (Float64bits f) div 2 ^ 52 mod 2 ^ 11"

definition f_frac :: "float64 \<Rightarrow> nat" where
  "f_frac f = unat (Float64bits f) mod 2 ^ 52"

definition f_NaN :: "float64 \<Rightarrow> bool" where
  "f_NaN f \<longleftrightarrow> f_exp f = 2047 \<and> f_frac f \<noteq> 0"

definition f_inf :: "float64 \<Rightarrow> bool" where
  "f_inf f \<longleftrightarrow> f_exp f = 2047 \<and> f_frac f = 0"

text \<open>The magnitude in units of \<open>2 ^ -1074\<close>. For an infinity the formula gives a number above every
  finite magnitude, which is what comparisons need.\<close>

definition f_mag :: "float64 \<Rightarrow> nat" where
  "f_mag f = (if f_exp f = 0 then f_frac f else (2 ^ 52 + f_frac f) * 2 ^ (f_exp f - 1))"

definition f_val :: "float64 \<Rightarrow> int" where
  "f_val f = (if f_neg f then - int (f_mag f) else int (f_mag f))"

section \<open>Rounding and building a pattern\<close>

fun bitlen :: "nat \<Rightarrow> nat" where
  "bitlen m = (if m = 0 then 0 else Suc (bitlen (m div 2)))"

declare bitlen.simps [simp del]

text \<open>
  The exponent and fraction fields of the representable number nearest to \<open>m\<close> units: \<open>m\<close> is cut to 53
  bits and the dropped bits are rounded to nearest, ties to even. The fields of a normal number with
  significand \<open>q\<close> and shift \<open>k\<close> are \<open>k * 2 ^ 52 + q\<close> (the hidden bit of \<open>q\<close> adds one to the exponent),
  which is right for subnormal numbers and for a carry out of the significand too.
\<close>

definition round_mag :: "nat \<Rightarrow> nat" where
  "round_mag m =
     (let k = bitlen m - 53;
          q = m div 2 ^ k;
          r = m mod 2 ^ k;
          q' = (if 2 * r > 2 ^ k \<or> (2 * r = 2 ^ k \<and> odd q) then q + 1 else q)
      in min (k * 2 ^ 52 + q') (2047 * 2 ^ 52))"

definition f_make :: "bool \<Rightarrow> nat \<Rightarrow> float64" where
  "f_make neg m = F64 (of_nat (round_mag m + (if neg then 2 ^ 63 else 0)))"

definition f_nan :: float64 where
  "f_nan = F64 0x7FF8000000000001"

definition f_zero :: float64 where
  "f_zero = F64 0"

section \<open>Arithmetic, comparison, conversion\<close>

definition f_negate :: "float64 \<Rightarrow> float64" where
  "f_negate f = F64 (Float64bits f XOR push_bit 63 1)"

definition f_add :: "float64 \<Rightarrow> float64 \<Rightarrow> float64" where
  "f_add a b =
     (if f_NaN a \<or> f_NaN b then f_nan
      else if f_inf a then (if f_inf b \<and> f_neg a \<noteq> f_neg b then f_nan else a)
      else if f_inf b then b
      else (let s = f_val a + f_val b
            in if s = 0 then F64 (if f_neg a \<and> f_neg b then push_bit 63 1 else 0)
               else f_make (s < 0) (nat \<bar>s\<bar>)))"

definition f_sub :: "float64 \<Rightarrow> float64 \<Rightarrow> float64" where
  "f_sub a b = f_add a (f_negate b)"

definition f_less :: "float64 \<Rightarrow> float64 \<Rightarrow> bool" where
  "f_less a b \<longleftrightarrow> \<not> f_NaN a \<and> \<not> f_NaN b \<and> f_val a < f_val b"

definition f_eq :: "float64 \<Rightarrow> float64 \<Rightarrow> bool" where
  "f_eq a b \<longleftrightarrow> \<not> f_NaN a \<and> \<not> f_NaN b \<and> f_val a = f_val b"

text \<open>\<^verbatim>\<open>float64(i)\<close> for an integer, and \<^verbatim>\<open>int64(f)\<close>, which truncates towards zero; a value that does
  not fit gives the amd64 result \<open>-2 ^ 63\<close>.\<close>

definition f_of_int :: "int \<Rightarrow> float64" where
  "f_of_int i = f_make (i < 0) (nat \<bar>i\<bar> * 2 ^ 1074)"

definition f_trunc :: "float64 \<Rightarrow> int" where
  "f_trunc f = (if f_neg f then - int (f_mag f div 2 ^ 1074) else int (f_mag f div 2 ^ 1074))"

definition f_to_int64 :: "float64 \<Rightarrow> int64" where
  "f_to_int64 f =
     (if f_NaN f \<or> f_inf f \<or> f_trunc f < - (2 ^ 63) \<or> f_trunc f \<ge> 2 ^ 63 then of_int (- (2 ^ 63))
      else of_int (f_trunc f))"

text \<open>\<^verbatim>\<open>uint64(f)\<close> for a non-negative value that fits.\<close>

definition f_to_uint64 :: "float64 \<Rightarrow> uint64" where
  "f_to_uint64 f = of_int (f_trunc f)"

section \<open>Integers are exact below \<open>2 ^ 53\<close>\<close>

text \<open>The integers a counter can hold without rounding.\<close>

definition exact_int :: "int \<Rightarrow> bool" where
  "exact_int i \<longleftrightarrow> \<bar>i\<bar> < 2 ^ 53"

lemma bitlen_bounds: "m \<noteq> 0 \<Longrightarrow> 2 ^ (bitlen m - 1) \<le> m \<and> m < 2 ^ bitlen m \<and> 0 < bitlen m"
proof (induction m rule: bitlen.induct)
  case (1 m)
  show ?case
  proof (cases "m div 2 = 0")
    case True
    with "1.prems" have "m = 1" by auto
    then show ?thesis by (simp add: bitlen.simps)
  next
    case False
    with 1 have IH: "2 ^ (bitlen (m div 2) - 1) \<le> m div 2" "m div 2 < 2 ^ bitlen (m div 2)" "0 < bitlen (m div 2)"
      by auto
    have b: "bitlen m = Suc (bitlen (m div 2))" using "1.prems" by (simp add: bitlen.simps [of m])
    from IH obtain j where j: "bitlen (m div 2) = Suc j" by (cases "bitlen (m div 2)") auto
    from IH have "2 * 2 ^ j \<le> m" "m < 2 * 2 ^ Suc j" unfolding j by auto
    then show ?thesis unfolding b j by simp
  qed
qed

lemma bitlen_unique:
  assumes "2 ^ j \<le> m" and "m < 2 ^ Suc j"
  shows "bitlen m = Suc j"
proof -
  have "m \<noteq> 0" using assms(1) by (metis le_zero_eq power_not_zero zero_neq_numeral)
  then have *: "2 ^ (bitlen m - 1) \<le> m" "m < 2 ^ bitlen m" "0 < bitlen m" using bitlen_bounds by auto
  have "j < bitlen m" using assms(1) *(2) by (meson le_less_trans one_less_numeral_iff power_less_imp_less_exp semiring_norm(76))
  moreover have "bitlen m - 1 < Suc j" using assms(2) *(1) by (meson le_less_trans one_less_numeral_iff power_less_imp_less_exp semiring_norm(76))
  ultimately show ?thesis using *(3) by simp
qed

text \<open>A magnitude of at most 53 significant bits, shifted, is not rounded.\<close>

lemma round_mag_exact:
  assumes "2 ^ 52 \<le> q" and "q < 2 ^ 53" and "k < 2046"
  shows "round_mag (q * 2 ^ k) = k * 2 ^ 52 + q"
proof -
  have len: "bitlen (q * 2 ^ k) = Suc (52 + k)"
  proof (rule bitlen_unique)
    show "2 ^ (52 + k) \<le> q * 2 ^ k" using assms(1) by (simp add: power_add)
    have "q * 2 ^ k < 2 ^ 53 * 2 ^ k" using assms(2) by simp
    then show "q * 2 ^ k < 2 ^ Suc (52 + k)" by (simp add: power_add)
  qed
  have "k * 2 ^ 52 + q \<le> 2045 * 2 ^ 52 + 2 ^ 53" using assms by (intro add_mono mult_mono) auto
  then show ?thesis using len by (simp add: round_mag_def Let_def)
qed

lemma f_fields:
  assumes "x < 2 ^ 63"
  shows "f_neg (F64 (of_nat (x + (if neg then 2 ^ 63 else 0)))) = neg"
    and "f_exp (F64 (of_nat (x + (if neg then 2 ^ 63 else 0)))) = x div 2 ^ 52"
    and "f_frac (F64 (of_nat (x + (if neg then 2 ^ 63 else 0)))) = x mod 2 ^ 52"
proof -
  let ?y = "x + (if neg then 2 ^ 63 else 0)"
  have "?y < 2 ^ 64" using assms by simp
  then have "take_bit 64 ?y = ?y" by (rule take_bit_nat_eq_self)
  then have y: "unat (of_nat ?y :: 64 word) = ?y" by (simp add: unsigned_of_nat del: of_nat_add)
  have "bit w 63 = bit (unat w) 63" for w :: "64 word" by (simp add: bit_unsigned_iff)
  then have "bit (of_nat ?y :: 64 word) 63 = bit ?y 63" using y by metis
  also have "\<dots> = odd (?y div 2 ^ 63)" by (rule bit_iff_odd)
  also have "\<dots> = neg" using assms by (simp add: div_add_self2)
  finally show "f_neg (F64 (of_nat ?y)) = neg" by (simp add: f_neg_def)
  have e: "x div 2 ^ 52 < 2 ^ 11" using assms by (simp add: div_less_iff_less_mult)
  have "(x + 2 ^ 11 * 2 ^ 52) div 2 ^ 52 = 2 ^ 11 + x div 2 ^ 52" by (rule div_mult_self1) simp
  then have "?y div 2 ^ 52 = x div 2 ^ 52 + (if neg then 2 ^ 11 else 0)" by simp
  with e y show "f_exp (F64 (of_nat ?y)) = x div 2 ^ 52" by (simp add: f_exp_def del: of_nat_add)
  have "(x + 2 ^ 11 * 2 ^ 52) mod 2 ^ 52 = x mod 2 ^ 52" by (rule mod_mult_self1)
  then have "?y mod 2 ^ 52 = x mod 2 ^ 52" by simp
  with y show "f_frac (F64 (of_nat ?y)) = x mod 2 ^ 52" by (simp add: f_frac_def del: of_nat_add)
qed

lemma f_make_exact:
  assumes "2 ^ 52 \<le> q" and "q < 2 ^ 53" and "k < 2046"
  shows "f_neg (f_make neg (q * 2 ^ k)) = neg" and "f_exp (f_make neg (q * 2 ^ k)) = Suc k"
    and "f_mag (f_make neg (q * 2 ^ k)) = q * 2 ^ k"
proof -
  let ?x = "k * 2 ^ 52 + q"
  have r: "f_make neg (q * 2 ^ k) = F64 (of_nat (?x + (if neg then 2 ^ 63 else 0)))"
    by (simp only: f_make_def round_mag_exact [OF assms])
  have "?x \<le> 2045 * 2 ^ 52 + 2 ^ 53" using assms by (intro add_mono mult_mono) auto
  then have x: "?x < 2 ^ 63" by simp
  obtain f where f: "q = 2 ^ 52 + f" "f < 2 ^ 52" using assms(1,2) by (auto simp: nat_le_iff_add)
  have xe: "?x div 2 ^ 52 = Suc k" and xf: "?x mod 2 ^ 52 = f" using f by (simp_all add: div_add1_eq)
  show "f_neg (f_make neg (q * 2 ^ k)) = neg" unfolding r by (rule f_fields(1) [OF x])
  show "f_exp (f_make neg (q * 2 ^ k)) = Suc k" unfolding r f_fields(2) [OF x] by (rule xe)
  moreover have "f_frac (f_make neg (q * 2 ^ k)) = f" unfolding r f_fields(3) [OF x] by (rule xf)
  ultimately show "f_mag (f_make neg (q * 2 ^ k)) = q * 2 ^ k"
    unfolding f_mag_def using f(1) by simp
qed

lemma int_scaled:
  assumes "i \<noteq> 0" and "exact_int i"
  obtains q k where "2 ^ 52 \<le> q" "q < 2 ^ 53" "k < 2046" "nat \<bar>i\<bar> * 2 ^ 1074 = q * 2 ^ k" "1021 < k"
proof -
  let ?n = "nat \<bar>i\<bar>"
  have n: "?n \<noteq> 0" "?n < 2 ^ 53" using assms by (auto simp: exact_int_def)
  obtain L where L: "2 ^ L \<le> ?n" "?n < 2 ^ Suc L"
    using bitlen_bounds [OF n(1)] by (metis Suc_diff_1)
  have "L < 53" using L(1) n(2) by (meson le_less_trans one_less_numeral_iff power_less_imp_less_exp semiring_norm(76))
  then obtain d where d: "52 = L + d" by (auto simp: less_Suc_eq_le numeral_eq_Suc le_iff_add)
  show thesis
  proof (rule that [of "?n * 2 ^ d" "1022 + L"])
    show "2 ^ 52 \<le> ?n * 2 ^ d" using L(1) unfolding d by (simp add: power_add)
    have "?n * 2 ^ d < 2 ^ Suc L * 2 ^ d" using L(2) by simp
    also have "\<dots> = 2 ^ (Suc (L + d))" by (simp add: power_add)
    finally show "?n * 2 ^ d < 2 ^ 53" using d by simp
    show "1022 + L < 2046" "1021 < 1022 + L" using \<open>L < 53\<close> by simp_all
    have "(1074 :: nat) = d + (1022 + L)" using d by simp
    then show "?n * 2 ^ 1074 = ?n * 2 ^ d * 2 ^ (1022 + L)" by (simp only: power_add mult.assoc)
  qed
qed

lemma f_of_int_0: "f_of_int 0 = F64 0"
  by (simp add: f_of_int_def f_make_def round_mag_def bitlen.simps Let_def)

lemma f_F64_0 [simp]: "f_neg (F64 0) = False" "f_exp (F64 0) = 0" "f_mag (F64 0) = 0"
  by (simp_all add: f_neg_def f_exp_def f_mag_def f_frac_def)

lemma f_of_int_fields:
  assumes "exact_int i"
  shows "f_neg (f_of_int i) \<longleftrightarrow> i < 0" and "f_exp (f_of_int i) < 2047"
    and "f_mag (f_of_int i) = nat \<bar>i\<bar> * 2 ^ 1074"
proof -
  have "(f_neg (f_of_int i) \<longleftrightarrow> i < 0) \<and> f_exp (f_of_int i) < 2047 \<and>
        f_mag (f_of_int i) = nat \<bar>i\<bar> * 2 ^ 1074"
  proof (cases "i = 0")
    case True
    then show ?thesis by (simp only: f_of_int_0 f_F64_0) simp
  next
    case False
    then obtain q k where *: "2 ^ 52 \<le> q" "q < 2 ^ 53" "k < 2046" "nat \<bar>i\<bar> * 2 ^ 1074 = q * 2 ^ k"
      using assms by (elim int_scaled)
    have "f_of_int i = f_make (i < 0) (q * 2 ^ k)" by (simp only: f_of_int_def *(4))
    then show ?thesis using f_make_exact [OF *(1-3), of "i < 0"] *(3,4) by (simp only: simp_thms)
  qed
  then show "f_neg (f_of_int i) \<longleftrightarrow> i < 0" "f_exp (f_of_int i) < 2047"
    "f_mag (f_of_int i) = nat \<bar>i\<bar> * 2 ^ 1074" by blast+
qed

named_theorems exact \<open>operations on floats that hold exact integers\<close>

lemma f_of_int_finite [exact]: "exact_int i \<Longrightarrow> \<not> f_NaN (f_of_int i)" "exact_int i \<Longrightarrow> \<not> f_inf (f_of_int i)"
  using f_of_int_fields(2) [of i] by (auto simp: f_NaN_def f_inf_def)

lemma f_val_of_int [exact]: "exact_int i \<Longrightarrow> f_val (f_of_int i) = i * 2 ^ 1074"
  unfolding f_val_def by (simp only: f_of_int_fields) (auto simp: abs_if)

lemma f_less_of_int [exact]:
  assumes "exact_int a" and "exact_int b"
  shows "f_less (f_of_int a) (f_of_int b) \<longleftrightarrow> a < b"
proof -
  have "(0 :: int) < 2 ^ 1074" by simp
  then show ?thesis unfolding f_less_def using assms
    by (simp only: f_val_of_int f_of_int_finite mult_less_cancel_right_disj) auto
qed

lemma f_add_scaled:
  assumes "\<not> f_NaN x" "\<not> f_inf x" "\<not> f_NaN y" "\<not> f_inf y"
    and "f_val x = a * 2 ^ 1074" "f_val y = b * 2 ^ 1074" "\<not> (f_neg x \<and> f_neg y \<and> a + b = 0)"
  shows "f_add x y = f_of_int (a + b)"
proof -
  let ?P = "2 ^ 1074 :: int"
  have P: "0 < ?P" by simp
  have s: "f_val x + f_val y = (a + b) * ?P" using assms(5,6) by (simp only: distrib_right)
  have z: "(a + b) * ?P = 0 \<longleftrightarrow> a + b = 0" using P by (simp only: mult_eq_0_iff) simp
  have l: "(a + b) * ?P < 0 \<longleftrightarrow> a + b < 0" using P by (simp only: mult_less_0_iff) simp
  have n: "nat \<bar>(a + b) * ?P\<bar> = nat \<bar>a + b\<bar> * 2 ^ 1074"
    by (simp only: abs_mult nat_mult_distrib abs_ge_zero) simp
  have "f_add x y = (if a + b = 0 then F64 0 else f_make (a + b < 0) (nat \<bar>a + b\<bar> * 2 ^ 1074))"
    unfolding f_add_def Let_def s z l n using assms by auto
  then show ?thesis by (simp only: f_of_int_def [of "a + b", symmetric] f_of_int_0 split: if_split) (simp add: f_of_int_0)
qed

lemma f_negate_fields [simp]:
  "f_neg (f_negate x) = (\<not> f_neg x)" "f_exp (f_negate x) = f_exp x" "f_frac (f_negate x) = f_frac x"
proof -
  let ?w = "Float64bits x" and ?w' = "Float64bits x XOR push_bit 63 1"
  show "f_neg (f_negate x) = (\<not> f_neg x)" by (simp add: f_neg_def f_negate_def bit_simps)
  have u: "take_bit 64 (unat v) = unat v" for v :: "64 word"
    by (rule take_bit_nat_eq_self) (use unsigned_less [of v] in simp)
  have e: "unat v div 2 ^ 52 mod 2 ^ 11 = unat (take_bit 11 (drop_bit 52 v))" for v :: "64 word"
    by (simp only: unsigned_take_bit_eq unsigned_drop_bit_eq flip: take_bit_eq_mod drop_bit_eq_div)
       (simp add: u)
  have "take_bit 11 (drop_bit 52 ?w') = take_bit 11 (drop_bit 52 ?w)"
    by (rule bit_word_eqI) (auto simp: bit_simps)
  then show "f_exp (f_negate x) = f_exp x" unfolding f_exp_def f_negate_def e by simp
  have f: "unat v mod 2 ^ 52 = unat (take_bit 52 v)" for v :: "64 word"
    by (simp only: unsigned_take_bit_eq flip: take_bit_eq_mod)
  have "take_bit 52 ?w' = take_bit 52 ?w"
    by (rule bit_word_eqI) (auto simp: bit_simps)
  then show "f_frac (f_negate x) = f_frac x" unfolding f_frac_def f_negate_def f by simp
qed

lemma f_val_negate [simp]: "f_val (f_negate x) = - f_val x"
  by (simp add: f_val_def f_mag_def)

text \<open>Sums and differences of exact integers are the correctly rounded integer results.\<close>

lemma f_add_of_int [exact]:
  assumes "exact_int a" and "exact_int b"
  shows "f_add (f_of_int a) (f_of_int b) = f_of_int (a + b)"
proof (rule f_add_scaled)
  show "\<not> (f_neg (f_of_int a) \<and> f_neg (f_of_int b) \<and> a + b = 0)"
    using assms by (auto simp: f_of_int_fields(1))
qed (use assms in \<open>auto simp only: exact\<close>)

lemma f_sub_of_int [exact]:
  assumes "exact_int a" and "exact_int b"
  shows "f_sub (f_of_int a) (f_of_int b) = f_of_int (a - b)"
proof -
  have "f_add (f_of_int a) (f_negate (f_of_int b)) = f_of_int (a + - b)"
  proof (rule f_add_scaled)
    show "f_val (f_negate (f_of_int b)) = - b * 2 ^ 1074" using assms by (simp only: f_val_negate exact minus_mult_left)
    show "\<not> (f_neg (f_of_int a) \<and> f_neg (f_negate (f_of_int b)) \<and> a + - b = 0)"
      using assms by (auto simp: f_of_int_fields(1))
    show "\<not> f_NaN (f_negate (f_of_int b))" "\<not> f_inf (f_negate (f_of_int b))"
      using f_of_int_finite [OF assms(2)] by (simp_all add: f_NaN_def f_inf_def)
  qed (use assms in \<open>auto simp only: exact\<close>)
  then show ?thesis by (simp add: f_sub_def)
qed

lemma f_to_int64_of_int [exact]: "exact_int i \<Longrightarrow> f_to_int64 (f_of_int i) = of_int i"
proof -
  assume i: "exact_int i"
  have "(nat \<bar>i\<bar> * 2 ^ 1074) div 2 ^ 1074 = nat \<bar>i\<bar>" by (rule nonzero_mult_div_cancel_right) simp
  then have "f_trunc (f_of_int i) = i" unfolding f_trunc_def using i by (simp only: f_of_int_fields) auto
  moreover have "\<not> i < - (2 ^ 63)" "\<not> i \<ge> 2 ^ 63" using i by (auto simp: exact_int_def)
  ultimately show ?thesis using i f_of_int_finite [of i] by (simp add: f_to_int64_def)
qed

lemma f_zero_of_int: "f_zero = f_of_int 0"
  by (simp add: f_zero_def f_of_int_0)

lemma exact_int_0 [simp]: "exact_int 0"
  by (simp add: exact_int_def)

lemma f_of_int_inject:
  assumes "exact_int a" and "exact_int b" and "f_of_int a = f_of_int b"
  shows "a = b"
  using f_less_of_int [OF assms(1,2)] f_less_of_int [OF assms(2,1)] assms(3) f_less_of_int [OF assms(2,2)]
  by auto

section \<open>Bytes of a float\<close>

text \<open>\<^verbatim>\<open>float64ToBytes\<close> and \<^verbatim>\<open>float64FromBytes\<close> of \<^verbatim>\<open>src/store.go\<close>.\<close>

definition float64ToBytes :: "float64 \<Rightarrow> bytes" where
  "float64ToBytes f = PutUint64 (Float64bits f)"

definition float64FromBytes :: "bytes \<Rightarrow> float64" where
  "float64FromBytes b =
     (if length b < 8 then f_zero
      else (case Uint64 b of Inl _ \<Rightarrow> f_zero | Inr w \<Rightarrow> F64 w))"

lemma float64FromBytes_ToBytes [simp]: "float64FromBytes (float64ToBytes f) = f"
  using Uint64_PutUint64 [of "Float64bits f" "[]"] by (simp add: float64FromBytes_def float64ToBytes_def)

lemma length_float64ToBytes [simp]: "length (float64ToBytes f) = 8"
  by (simp add: float64ToBytes_def)

end
