(* ===== verification/Store.thy ===== *)
theory Store
  imports HLC Float64
begin

text \<open>
  The in-memory part of \<^verbatim>\<open>src/store.go\<close>: the 256 shards and the operations on them. Every operation
  takes one shard's lock, works on that shard and releases it, so it is an atomic change of one shard
  (\<open>at_shard\<close>); the body that runs under the lock is a function on shards with the prefix \<open>shard_\<close>, and
  the operation of the store has the source's name with the prefix \<open>store_\<close>. Readings of the wall clock are
  arguments called \<open>now\<close>. Persistence (\<^verbatim>\<open>load\<close>, \<^verbatim>\<open>flush\<close>) is in the theory \<^verbatim>\<open>Persist\<close>.
\<close>

unbundle bit_operations_syntax

section \<open>Data\<close>

text \<open>A Go value of type \<^verbatim>\<open>any\<close>: the code distinguishes nil, strings, byte slices and everything
  else, which is a value of a type parameter.\<close>

datatype 'o any = ANil | AString string | ABytes bytes | AOther 'o

record 'o valWithTS =
  vValue :: "'o any"
  vTimestamp :: Timestamp
  vExpiresAt :: int64
  vDeleted :: bool

record 'o storeShard =
  cache :: "string \<rightharpoonup> 'o valWithTS"
  counts :: "string \<rightharpoonup> float64"
  aggregateCounts :: "string \<rightharpoonup> float64"
  windows :: "string \<rightharpoonup> int64 list"
  dirty :: "string set"
  peerSeqs :: "string \<rightharpoonup> uint64"

definition newStoreShard :: "'o storeShard" where
  "newStoreShard = \<lparr>cache = Map.empty, counts = Map.empty, aggregateCounts = Map.empty,
     windows = Map.empty, dirty = {}, peerSeqs = Map.empty\<rparr>"

text \<open>The store: an array of \<open>numShards\<close> shards, read as a function on indices, and whether the
  channel \<^verbatim>\<open>stop\<close> is closed. The database handle is a parameter of the persistence functions.\<close>

definition numShards :: nat where
  "numShards = 256"

record 'o store =
  shards :: "nat \<Rightarrow> 'o storeShard"
  stopped :: bool

definition emptyStore :: "'o store" where
  "emptyStore = \<lparr>shards = (\<lambda>_. newStoreShard), stopped = False\<rparr>"

record Metric =
  Count :: int64
  Sum :: float64

section \<open>Sharding\<close>

definition getShardKey :: "string \<Rightarrow> string" where
  "getShardKey key =
     (case Index_colon key of
        None \<Rightarrow> key
      | Some first \<Rightarrow>
          (let rest = drop (first + 1) key
           in case Index_colon rest of None \<Rightarrow> rest | Some second \<Rightarrow> take second rest))"

definition hash :: "string \<Rightarrow> uint32" where
  "hash s = foldl (\<lambda>h c. (h XOR of_char c) * 16777619) 2166136261 s"

definition shardIndex :: "string \<Rightarrow> nat" where
  "shardIndex key = unat (hash (getShardKey key) mod of_nat numShards)"

definition getShard :: "'o store \<Rightarrow> string \<Rightarrow> 'o storeShard" where
  "getShard s key = shards s (shardIndex key)"

text \<open>Running a body on the shard of a key, under that shard's lock.\<close>

definition at_shard :: "string \<Rightarrow> ('o storeShard \<Rightarrow> 'o storeShard) \<Rightarrow> 'o store \<Rightarrow> 'o store" where
  "at_shard key f s = s\<lparr>shards := (shards s)(shardIndex key := f (shards s (shardIndex key)))\<rparr>"

text \<open>Reading a Go map gives the zero value for a missing key.\<close>

definition fget :: "(string \<rightharpoonup> float64) \<Rightarrow> string \<Rightarrow> float64" where
  "fget m k = (case m k of None \<Rightarrow> f_zero | Some v \<Rightarrow> v)"

definition wget :: "(string \<rightharpoonup> int64 list) \<Rightarrow> string \<Rightarrow> int64 list" where
  "wget m k = (case m k of None \<Rightarrow> [] | Some v \<Rightarrow> v)"

definition sget :: "(string \<rightharpoonup> uint64) \<Rightarrow> string \<Rightarrow> uint64" where
  "sget m k = (case m k of None \<Rightarrow> 0 | Some v \<Rightarrow> v)"

lemma fget_upd [simp]: "fget (m(k \<mapsto> v)) k' = (if k' = k then v else fget m k')"
  by (simp add: fget_def)

lemma wget_upd [simp]: "wget (m(k \<mapsto> v)) k' = (if k' = k then v else wget m k')"
  by (simp add: wget_def)

lemma sget_upd [simp]: "sget (m(k \<mapsto> v)) k' = (if k' = k then v else sget m k')"
  by (simp add: sget_def)

lemma get_empty [simp]: "fget Map.empty k = f_zero" "wget Map.empty k = []" "sget Map.empty k = 0"
  by (simp_all add: fget_def wget_def sget_def)

section \<open>Registers\<close>

definition shard_set :: "string \<Rightarrow> 'o any \<Rightarrow> Timestamp \<Rightarrow> int64 \<Rightarrow> 'o storeShard \<Rightarrow> 'o storeShard" where
  "shard_set key value ts ttl sh =
     (if (case cache sh key of Some existing \<Rightarrow> GreaterOrEqual (vTimestamp existing) ts | None \<Rightarrow> False)
      then sh
      else (let expiresAt = (if sint ttl > 0 then Physical ts + ttl else 0)
            in sh\<lparr>cache := (cache sh)(key \<mapsto> \<lparr>vValue = value, vTimestamp = ts, vExpiresAt = expiresAt,
                                              vDeleted = False\<rparr>),
                  dirty := insert key (dirty sh)\<rparr>))"

definition store_set :: "string \<Rightarrow> 'o any \<Rightarrow> Timestamp \<Rightarrow> int64 \<Rightarrow> 'o store \<Rightarrow> 'o store" where
  "store_set key value ts ttl = at_shard key (shard_set key value ts ttl)"

definition hour :: int64 where
  "hour = 3600000000000"

definition shard_delete :: "string \<Rightarrow> Timestamp \<Rightarrow> 'o storeShard \<Rightarrow> 'o storeShard" where
  "shard_delete key ts sh =
     (if (case cache sh key of Some existing \<Rightarrow> GreaterOrEqual (vTimestamp existing) ts | None \<Rightarrow> False)
      then sh
      else (let gcGrace = hour; expiresAt = Physical ts + gcGrace
            in sh\<lparr>cache := (cache sh)(key \<mapsto> \<lparr>vValue = ANil, vTimestamp = ts, vExpiresAt = expiresAt,
                                              vDeleted = True\<rparr>),
                  dirty := insert key (dirty sh)\<rparr>))"

definition store_delete :: "string \<Rightarrow> Timestamp \<Rightarrow> 'o store \<Rightarrow> 'o store" where
  "store_delete key ts = at_shard key (shard_delete key ts)"

definition expired :: "int64 \<Rightarrow> 'o valWithTS \<Rightarrow> bool" where
  "expired now v \<longleftrightarrow> sint (vExpiresAt v) > 0 \<and> sint now > sint (vExpiresAt v)"

definition store_get :: "'o store \<Rightarrow> int64 \<Rightarrow> string \<Rightarrow> 'o any" where
  "store_get s now key =
     (case cache (getShard s key) key of
        Some vTS \<Rightarrow> if vDeleted vTS then ANil else if expired now vTS then ANil else vValue vTS
      | None \<Rightarrow> ANil)"

definition store_exists :: "'o store \<Rightarrow> int64 \<Rightarrow> string \<Rightarrow> bool" where
  "store_exists s now key =
     (case cache (getShard s key) key of
        Some vTS \<Rightarrow> if vDeleted vTS then False else if expired now vTS then False else True
      | None \<Rightarrow> False)"

definition CacheSize :: "'o store \<Rightarrow> nat" where
  "CacheSize s = (\<Sum>i < numShards. card (dom (cache (shards s i))))"

section \<open>Counters\<close>

definition nodeKey :: "string \<Rightarrow> string \<Rightarrow> string" where
  "nodeKey key nodeID = ''c:'' @ key @ '':'' @ nodeID"

definition shard_increment :: "string \<Rightarrow> string \<Rightarrow> float64 \<Rightarrow> 'o storeShard \<Rightarrow> 'o storeShard" where
  "shard_increment key nodeID delta sh =
     sh\<lparr>counts := (counts sh)(nodeKey key nodeID \<mapsto> f_add (fget (counts sh) (nodeKey key nodeID)) delta),
        aggregateCounts := (aggregateCounts sh)(key \<mapsto> f_add (fget (aggregateCounts sh) key) delta),
        dirty := insert (nodeKey key nodeID) (dirty sh)\<rparr>"

definition store_increment :: "string \<Rightarrow> string \<Rightarrow> float64 \<Rightarrow> 'o store \<Rightarrow> 'o store \<times> float64" where
  "store_increment key nodeID delta s =
     (let s' = at_shard key (shard_increment key nodeID delta) s
      in (s', fget (aggregateCounts (getShard s' key)) key))"

definition store_getNodeCount :: "'o store \<Rightarrow> string \<Rightarrow> string \<Rightarrow> float64" where
  "store_getNodeCount s key nodeID = fget (counts (getShard s key)) (nodeKey key nodeID)"

definition shard_setNodeCount :: "string \<Rightarrow> string \<Rightarrow> float64 \<Rightarrow> 'o storeShard \<Rightarrow> 'o storeShard" where
  "shard_setNodeCount key nodeID val sh =
     (if f_less (fget (counts sh) (nodeKey key nodeID)) val
      then (let diff = f_sub val (fget (counts sh) (nodeKey key nodeID))
            in sh\<lparr>counts := (counts sh)(nodeKey key nodeID \<mapsto> val),
                  aggregateCounts := (aggregateCounts sh)(key \<mapsto> f_add (fget (aggregateCounts sh) key) diff),
                  dirty := insert (nodeKey key nodeID) (dirty sh)\<rparr>)
      else sh)"

definition store_setNodeCount :: "string \<Rightarrow> string \<Rightarrow> float64 \<Rightarrow> 'o store \<Rightarrow> 'o store" where
  "store_setNodeCount key nodeID val = at_shard key (shard_setNodeCount key nodeID val)"

definition store_getAggregateCount :: "'o store \<Rightarrow> string \<Rightarrow> float64" where
  "store_getAggregateCount s key = fget (aggregateCounts (getShard s key)) key"

section \<open>Metrics\<close>

definition mcKey :: "string \<Rightarrow> string \<Rightarrow> string" where
  "mcKey key nodeID = ''mc:'' @ key @ '':'' @ nodeID"

definition msKey :: "string \<Rightarrow> string \<Rightarrow> string" where
  "msKey key nodeID = ''ms:'' @ key @ '':'' @ nodeID"

definition fbump :: "string \<Rightarrow> float64 \<Rightarrow> (string \<rightharpoonup> float64) \<Rightarrow> (string \<rightharpoonup> float64)" where
  "fbump k d m = m(k \<mapsto> f_add (fget m k) d)"

definition shard_incrementMetric :: "string \<Rightarrow> string \<Rightarrow> float64 \<Rightarrow> 'o storeShard \<Rightarrow> 'o storeShard" where
  "shard_incrementMetric key nodeID delta sh =
     sh\<lparr>counts := fbump (msKey key nodeID) delta (fbump (mcKey key nodeID) (f_of_int 1) (counts sh)),
        aggregateCounts := fbump (''m:s:'' @ key) delta
                             (fbump (''m:c:'' @ key) (f_of_int 1) (aggregateCounts sh)),
        dirty := insert (msKey key nodeID) (insert (mcKey key nodeID) (dirty sh))\<rparr>"

definition shard_metric :: "string \<Rightarrow> 'o storeShard \<Rightarrow> Metric" where
  "shard_metric key sh =
     \<lparr>Count = f_to_int64 (fget (aggregateCounts sh) (''m:c:'' @ key)),
      Sum = fget (aggregateCounts sh) (''m:s:'' @ key)\<rparr>"

definition store_incrementMetric :: "string \<Rightarrow> string \<Rightarrow> float64 \<Rightarrow> 'o store \<Rightarrow> 'o store \<times> Metric" where
  "store_incrementMetric key nodeID delta s =
     (let s' = at_shard key (shard_incrementMetric key nodeID delta) s
      in (s', shard_metric key (getShard s' key)))"

definition store_getAggregateMetric :: "'o store \<Rightarrow> string \<Rightarrow> Metric" where
  "store_getAggregateMetric s key = shard_metric key (getShard s key)"

section \<open>Sliding windows\<close>

text \<open>The loop of \<^verbatim>\<open>incrementSlidingWindow\<close>: how many timestamps are in the window (\<^verbatim>\<open>count\<close>) and how
  many are not (\<^verbatim>\<open>i\<close>).\<close>

fun window_scan :: "int64 \<Rightarrow> int64 list \<Rightarrow> int64 \<Rightarrow> nat \<Rightarrow> int64 \<times> nat" where
  "window_scan horizon [] count i = (count, i)"
| "window_scan horizon (t # ts) count i =
     (if sint t \<ge> sint horizon then window_scan horizon ts (count + 1) i
      else window_scan horizon ts count (i + 1))"

definition shard_incrementSlidingWindow ::
  "string \<Rightarrow> int64 \<Rightarrow> int64 \<Rightarrow> int64 \<Rightarrow> 'o storeShard \<Rightarrow> 'o storeShard \<times> int64" where
  "shard_incrementSlidingWindow key ts window now sh =
     (let sh = sh\<lparr>windows := (windows sh)(key \<mapsto> wget (windows sh) key @ [ts]),
                  dirty := insert key (dirty sh)\<rparr>;
          horizon = now - window;
          (count, i) = window_scan horizon (wget (windows sh) key) 0 0;
          sh = (if i > 0 then sh\<lparr>windows := (windows sh)(key \<mapsto> drop i (wget (windows sh) key))\<rparr> else sh);
          sh = (if wget (windows sh) key = [] then sh\<lparr>windows := (windows sh)(key := None)\<rparr> else sh)
      in (sh, count))"

definition store_incrementSlidingWindow ::
  "string \<Rightarrow> int64 \<Rightarrow> int64 \<Rightarrow> int64 \<Rightarrow> 'o store \<Rightarrow> 'o store \<times> int64" where
  "store_incrementSlidingWindow key ts window now s =
     (at_shard key (\<lambda>sh. fst (shard_incrementSlidingWindow key ts window now sh)) s,
      snd (shard_incrementSlidingWindow key ts window now (getShard s key)))"

text \<open>The search loop of \<^verbatim>\<open>addWindowTimestamp\<close>: \<^const>\<open>None\<close> for the early return on a duplicate, otherwise the
  index of the first larger timestamp, or the length.\<close>

fun insert_index :: "int64 \<Rightarrow> int64 list \<Rightarrow> nat option" where
  "insert_index ts [] = Some 0"
| "insert_index ts (t # win) =
     (if t = ts then None
      else if sint t > sint ts then Some 0
      else map_option Suc (insert_index ts win))"

definition shard_addWindowTimestamp :: "string \<Rightarrow> int64 \<Rightarrow> 'o storeShard \<Rightarrow> 'o storeShard" where
  "shard_addWindowTimestamp key ts sh =
     (let win = wget (windows sh) key
      in case insert_index ts win of
           None \<Rightarrow> sh
         | Some idx \<Rightarrow>
             sh\<lparr>windows := (windows sh)(key \<mapsto> (if idx = length win then win @ [ts]
                                                 else take idx win @ [ts] @ drop idx win)),
                dirty := insert key (dirty sh)\<rparr>)"

definition store_addWindowTimestamp :: "string \<Rightarrow> int64 \<Rightarrow> 'o store \<Rightarrow> 'o store" where
  "store_addWindowTimestamp key ts = at_shard key (shard_addWindowTimestamp key ts)"

section \<open>Peer sequence numbers\<close>

definition seqKey :: "string \<Rightarrow> string" where
  "seqKey nodeID = ''meta:seq:'' @ nodeID"

definition shard_updatePeerSeq :: "string \<Rightarrow> uint64 \<Rightarrow> 'o storeShard \<Rightarrow> 'o storeShard" where
  "shard_updatePeerSeq nodeID seq sh =
     (if seq > sget (peerSeqs sh) nodeID
      then sh\<lparr>peerSeqs := (peerSeqs sh)(nodeID \<mapsto> seq), dirty := insert (seqKey nodeID) (dirty sh)\<rparr>
      else sh)"

definition store_updatePeerSeq :: "string \<Rightarrow> uint64 \<Rightarrow> 'o store \<Rightarrow> 'o store" where
  "store_updatePeerSeq nodeID seq = at_shard (seqKey nodeID) (shard_updatePeerSeq nodeID seq)"

definition store_getPeerSeq :: "'o store \<Rightarrow> string \<Rightarrow> uint64" where
  "store_getPeerSeq s nodeID = sget (peerSeqs (getShard s (seqKey nodeID))) nodeID"

section \<open>The janitor\<close>

definition shard_pruneExpiredKeys :: "int64 \<Rightarrow> 'o storeShard \<Rightarrow> 'o storeShard" where
  "shard_pruneExpiredKeys now sh =
     sh\<lparr>cache := (\<lambda>key. case cache sh key of
                          Some vTS \<Rightarrow> if expired now vTS then None else Some vTS
                        | None \<Rightarrow> None),
        dirty := dirty sh \<union> {key. \<exists>vTS. cache sh key = Some vTS \<and> expired now vTS}\<rparr>"

definition store_pruneExpiredKeys :: "int64 \<Rightarrow> 'o store \<Rightarrow> 'o store" where
  "store_pruneExpiredKeys now s =
     s\<lparr>shards := (\<lambda>i. if i < numShards then shard_pruneExpiredKeys now (shards s i) else shards s i)\<rparr>"

definition window_stale :: "int64 \<Rightarrow> int64 list \<Rightarrow> bool" where
  "window_stale now win \<longleftrightarrow> (if win = [] then True else sint (now - last win) > sint hour)"

definition shard_pruneStaleWindows :: "int64 \<Rightarrow> 'o storeShard \<Rightarrow> 'o storeShard" where
  "shard_pruneStaleWindows now sh =
     sh\<lparr>windows := (\<lambda>key. case windows sh key of
                            Some win \<Rightarrow> if window_stale now win then None else Some win
                          | None \<Rightarrow> None)\<rparr>"

definition store_pruneStaleWindows :: "int64 \<Rightarrow> 'o store \<Rightarrow> 'o store" where
  "store_pruneStaleWindows now s =
     s\<lparr>shards := (\<lambda>i. if i < numShards then shard_pruneStaleWindows now (shards s i) else shards s i)\<rparr>"

text \<open>One tick of the janitor reads the clock once for each pass.\<close>

definition janitor_tick :: "int64 \<Rightarrow> int64 \<Rightarrow> 'o store \<Rightarrow> 'o store" where
  "janitor_tick now1 now2 s = store_pruneExpiredKeys now2 (store_pruneStaleWindows now1 s)"

section \<open>Shards: frame and commutation\<close>

named_theorems shard_defs \<open>the bodies that run under a shard's lock\<close>

lemmas [shard_defs] = shard_set_def shard_delete_def shard_setNodeCount_def shard_increment_def
  shard_addWindowTimestamp_def shard_updatePeerSeq_def shard_incrementMetric_def

lemma shardIndex_less: "shardIndex key < numShards"
proof -
  have "unat (w mod 256) < 256" for w :: "32 word"
    by (simp add: unat_mod)
  then show ?thesis by (simp add: shardIndex_def numShards_def)
qed

lemma getShard_at_shard:
  "getShard (at_shard key f s) k = (if shardIndex k = shardIndex key then f (getShard s k) else getShard s k)"
  by (simp add: getShard_def at_shard_def)

lemma getShard_at_shard_same [simp]: "getShard (at_shard key f s) key = f (getShard s key)"
  by (simp add: getShard_at_shard)

lemma at_shard_commute:
  assumes "shardIndex k = shardIndex k' \<Longrightarrow> f (g (getShard s k)) = g (f (getShard s k))"
  shows "at_shard k f (at_shard k' g s) = at_shard k' g (at_shard k f s)"
  using assms by (auto simp: at_shard_def getShard_def fun_upd_twist)

lemma at_shard_idem:
  "f (f (getShard s k)) = f (getShard s k) \<Longrightarrow> at_shard k f (at_shard k f s) = at_shard k f s"
  by (simp add: at_shard_def getShard_def)

text \<open>The shard of a counter, metric or window key that has no colon is also the shard of the
  names under which its parts are persisted.\<close>

lemma getShardKey_plain: "colon \<notin> set key \<Longrightarrow> getShardKey key = key"
  by (simp add: getShardKey_def Index_colon_None)

lemma getShardKey_prefixed:
  assumes "colon \<notin> set p" and "colon \<notin> set key"
  shows "getShardKey (p @ colon # key @ colon # rest) = key"
  using assms by (simp add: getShardKey_def)

end
