(* ===== verification/Convergence.thy ===== *)
theory Convergence
  imports Prelude
begin

text \<open>
  The contract of a replicated data type: an operation applied by every replica, in any order and any number of
  times. \<open>replicated\<close> asks that operations a replica may receive keep an invariant, that operations
  that are compatible commute, and that applying one twice is applying it once. The conclusion, proved once here, is
  that the state depends only on the set of operations received. Registers, counters, windows and peer
  sequence numbers of the store interpret it.
\<close>

locale replicated =
  fixes apply_op :: "'op \<Rightarrow> 's \<Rightarrow> 's"
    and good :: "'op \<Rightarrow> bool"
    and compat :: "'op \<Rightarrow> 'op \<Rightarrow> bool"
    and inv :: "'s \<Rightarrow> bool"
  assumes inv_apply: "inv s \<Longrightarrow> good a \<Longrightarrow> inv (apply_op a s)"
    and commute: "inv s \<Longrightarrow> good a \<Longrightarrow> good b \<Longrightarrow> compat a b \<Longrightarrow>
      apply_op a (apply_op b s) = apply_op b (apply_op a s)"
    and idem: "inv s \<Longrightarrow> good a \<Longrightarrow> apply_op a (apply_op a s) = apply_op a s"
begin

abbreviation apply_ops :: "'op list \<Rightarrow> 's \<Rightarrow> 's" where
  "apply_ops xs s \<equiv> fold apply_op xs s"

lemma inv_apply_ops: "inv s \<Longrightarrow> \<forall>x \<in> set xs. good x \<Longrightarrow> inv (apply_ops xs s)"
  by (induction xs arbitrary: s) (auto simp: inv_apply)

lemma apply_ops_past:
  assumes "inv s" and "good a" and "\<forall>x \<in> set xs. good x \<and> compat a x"
  shows "apply_op a (apply_ops xs s) = apply_ops xs (apply_op a s)"
  using assms
proof (induction xs arbitrary: s)
  case Nil
  then show ?case by simp
next
  case (Cons x xs)
  then have "apply_op a (apply_ops xs (apply_op x s)) = apply_ops xs (apply_op a (apply_op x s))"
    by (intro Cons.IH) (auto simp: inv_apply)
  with Cons.prems show ?case using commute [of s a x] by simp
qed

lemma apply_ops_absorb_one:
  assumes "inv s" and "a \<in> set xs" and "\<forall>x \<in> set xs. good x \<and> compat a x"
  shows "apply_ops xs (apply_op a s) = apply_ops xs s"
  using assms
proof (induction xs arbitrary: s)
  case Nil
  then show ?case by simp
next
  case (Cons x xs)
  show ?case
  proof (cases "x = a")
    case True
    with Cons.prems show ?thesis by (simp add: idem)
  next
    case False
    with Cons.prems have "apply_ops xs (apply_op a (apply_op x s)) = apply_ops xs (apply_op x s)"
      by (intro Cons.IH) (auto simp: inv_apply)
    with Cons.prems have "apply_ops xs (apply_op x (apply_op a s)) = apply_ops xs (apply_op x s)"
      using commute [of s a x] by auto
    then show ?thesis by simp
  qed
qed

definition coherent :: "'op set \<Rightarrow> bool" where
  "coherent A \<longleftrightarrow> (\<forall>a \<in> A. good a \<and> (\<forall>b \<in> A. compat a b))"

lemma apply_ops_absorb:
  assumes "inv s" and "set ys \<subseteq> set xs" and "coherent (set xs)"
  shows "apply_ops xs (apply_ops ys s) = apply_ops xs s"
  using assms
proof (induction ys arbitrary: s)
  case Nil
  then show ?case by simp
next
  case (Cons y ys)
  then have "apply_ops xs (apply_ops ys (apply_op y s)) = apply_ops xs (apply_op y s)"
    by (intro Cons.IH) (auto simp: inv_apply coherent_def)
  also have "\<dots> = apply_ops xs s"
    using Cons.prems by (intro apply_ops_absorb_one) (auto simp: coherent_def)
  finally show ?case by simp
qed

lemma apply_ops_swap:
  assumes "inv s" and "coherent (set xs \<union> set ys)"
  shows "apply_ops xs (apply_ops ys s) = apply_ops ys (apply_ops xs s)"
  using assms
proof (induction xs arbitrary: s)
  case Nil
  then show ?case by simp
next
  case (Cons x xs)
  then have "apply_op x (apply_ops ys s) = apply_ops ys (apply_op x s)"
    by (intro apply_ops_past) (auto simp: coherent_def)
  moreover have "apply_ops xs (apply_ops ys (apply_op x s)) = apply_ops ys (apply_ops xs (apply_op x s))"
    using Cons.prems by (intro Cons.IH) (auto simp: inv_apply coherent_def)
  ultimately show ?case by simp
qed

text \<open>Two replicas that have received the same operations, in whatever order and however often each, are in
  the same state.\<close>

theorem converge:
  assumes "inv s" and "coherent (set xs)" and "set xs = set ys"
  shows "apply_ops xs s = apply_ops ys s"
proof -
  have "apply_ops xs s = apply_ops xs (apply_ops ys s)"
    using assms by (intro apply_ops_absorb [symmetric]) auto
  also have "\<dots> = apply_ops ys (apply_ops xs s)"
    using assms by (intro apply_ops_swap) auto
  also have "\<dots> = apply_ops ys s"
    using assms by (intro apply_ops_absorb) auto
  finally show ?thesis .
qed

end

text \<open>Two replicated data types that share a state: when operations of different types commute and keep each other's
  invariant, together they are a replicated data type.\<close>

definition pair_compat :: "('a \<Rightarrow> 'a \<Rightarrow> bool) \<Rightarrow> ('b \<Rightarrow> 'b \<Rightarrow> bool) \<Rightarrow> 'a + 'b \<Rightarrow> 'a + 'b \<Rightarrow> bool" where
  "pair_compat c d x y =
     (case x of
        Inl a \<Rightarrow> (case y of Inl b \<Rightarrow> c a b | Inr _ \<Rightarrow> True)
      | Inr a \<Rightarrow> (case y of Inl _ \<Rightarrow> True | Inr b \<Rightarrow> d a b))"

lemma pair_compat_simps [simp]:
  "pair_compat c d (Inl a) (Inl b) = c a b" "pair_compat c d (Inr a') (Inr b') = d a' b'"
  "pair_compat c d (Inl a) (Inr b')" "pair_compat c d (Inr a') (Inl b)"
  by (simp_all add: pair_compat_def)

locale replicated_pair = fst: replicated f good compat inv + snd: replicated f' good' compat' inv'
  for f :: "'a \<Rightarrow> 's \<Rightarrow> 's" and good compat inv and f' :: "'b \<Rightarrow> 's \<Rightarrow> 's" and good' compat' inv' +
  assumes keep_snd: "inv s \<Longrightarrow> inv' s \<Longrightarrow> good a \<Longrightarrow> inv' (f a s)"
    and keep_fst: "inv s \<Longrightarrow> inv' s \<Longrightarrow> good' b \<Longrightarrow> inv (f' b s)"
    and cross: "inv s \<Longrightarrow> inv' s \<Longrightarrow> good a \<Longrightarrow> good' b \<Longrightarrow> f a (f' b s) = f' b (f a s)"

sublocale replicated_pair \<subseteq> both: replicated "case_sum f f'" "case_sum good good'" "pair_compat compat compat'"
  "\<lambda>s. inv s \<and> inv' s"
proof unfold_locales
  fix s :: 's and a b :: "'a + 'b"
  assume "inv s \<and> inv' s" and "case_sum good good' a" and "case_sum good good' b" and "pair_compat compat compat' a b"
  then show "case_sum f f' a (case_sum f f' b s) = case_sum f f' b (case_sum f f' a s)"
    by (cases a; cases b) (auto simp: cross intro: fst.commute snd.commute)
next
  fix s :: 's and a :: "'a + 'b"
  assume "inv s \<and> inv' s" and "case_sum good good' a"
  then show "inv (case_sum f f' a s) \<and> inv' (case_sum f f' a s)"
    and "case_sum f f' a (case_sum f f' a s) = case_sum f f' a s"
    by (cases a; simp add: fst.inv_apply snd.inv_apply keep_fst keep_snd fst.idem snd.idem)+
qed

end
