(* ===== verification/Counters.thy ===== *)
theory Counters
  imports Store Convergence
begin

text \<open>
  Distributed counters: \<^verbatim>\<open>store.increment\<close>, \<^verbatim>\<open>getNodeCount\<close>, \<^verbatim>\<open>setNodeCount\<close>, \<^verbatim>\<open>getAggregateCount\<close>. The
  abstract view of a counter is one integer per node; the cached aggregate is their sum. The cache is kept
  in floating point, so the theorems speak of integers that stay below \<open>2 ^ 53\<close>; node identifiers
  have no colon, so that the name \<^verbatim>\<open>c:key:node\<close> of a partial count determines the key and the node.
\<close>

section \<open>Names of partial counts\<close>

lemma nodeKey_inject:
  assumes "colon \<notin> set n" and "colon \<notin> set n'"
  shows "nodeKey k n = nodeKey k' n' \<longleftrightarrow> k = k' \<and> n = n'"
proof
  assume "nodeKey k n = nodeKey k' n'"
  then have e: "k @ colon # n = k' @ colon # n'" by (simp add: nodeKey_def colon_def)
  have "n = n'"
  proof -
    have "takeWhile (\<lambda>c. c \<noteq> colon) (rev (k @ colon # n)) = rev n" using assms(1)
      by (simp add: takeWhile_append)
    moreover have "takeWhile (\<lambda>c. c \<noteq> colon) (rev (k' @ colon # n')) = rev n'" using assms(2)
      by (simp add: takeWhile_append)
    ultimately show ?thesis using e by simp
  qed
  with e show "k = k' \<and> n = n'" by simp
qed simp

section \<open>The abstract counter\<close>

text \<open>A state of the counters of a store: for every key, one integer per node of a cluster \<open>N\<close>, each below \<open>B\<close>.
  \<open>counter_abs\<close> relates it to the store: the partial counts are these integers, and the aggregate of
  a key is their sum.\<close>

type_synonym counters = "string \<Rightarrow> string \<Rightarrow> int"

definition counters_ok :: "string set \<Rightarrow> int \<Rightarrow> counters \<Rightarrow> bool" where
  "counters_ok N B c \<longleftrightarrow> (\<forall>k. \<forall>n \<in> N. 0 \<le> c k n \<and> c k n \<le> B)"

definition cluster_ok :: "string set \<Rightarrow> int \<Rightarrow> bool" where
  "cluster_ok N B \<longleftrightarrow> finite N \<and> (\<forall>n \<in> N. colon \<notin> set n) \<and> 0 \<le> B \<and> B < 2 ^ 53 \<and> int (card N) * B < 2 ^ 53"

definition counter_abs :: "string set \<Rightarrow> 'o store \<Rightarrow> counters \<Rightarrow> bool" where
  "counter_abs N s c \<longleftrightarrow>
     (\<forall>k. \<forall>n \<in> N. fget (counts (getShard s k)) (nodeKey k n) = f_of_int (c k n)) \<and>
     (\<forall>k. fget (aggregateCounts (getShard s k)) k = f_of_int (\<Sum>n \<in> N. c k n))"

definition counter_inv :: "string set \<Rightarrow> int \<Rightarrow> 'o store \<Rightarrow> bool" where
  "counter_inv N B s \<longleftrightarrow> cluster_ok N B \<and> (\<exists>c. counters_ok N B c \<and> counter_abs N s c)"

lemma sum_bound:
  assumes "cluster_ok N B" and "counters_ok N B c"
  shows "0 \<le> (\<Sum>n \<in> N. c k n)" and "(\<Sum>n \<in> N. c k n) \<le> int (card N) * B"
proof -
  show "0 \<le> (\<Sum>n \<in> N. c k n)" using assms by (intro sum_nonneg) (auto simp: counters_ok_def)
  have "(\<Sum>n \<in> N. c k n) \<le> of_nat (card N) * B"
    using assms by (intro sum_bounded_above) (auto simp: counters_ok_def)
  then show "(\<Sum>n \<in> N. c k n) \<le> int (card N) * B" by simp
qed

lemma sum_exact: "cluster_ok N B \<Longrightarrow> counters_ok N B c \<Longrightarrow> exact_int (\<Sum>n \<in> N. c k n)"
  using sum_bound [of N B c k] by (auto simp: exact_int_def cluster_ok_def)

lemma part_exact: "cluster_ok N B \<Longrightarrow> 0 \<le> i \<Longrightarrow> i \<le> B \<Longrightarrow> exact_int i"
  by (auto simp: exact_int_def cluster_ok_def)

lemma sum_upd:
  fixes v :: int
  assumes "finite N" and "n \<in> N"
  shows "(\<Sum>m \<in> N. ((c k)(n := v)) m) = (\<Sum>m \<in> N. c k m) + (v - c k n)"
  using assms by (simp add: sum.remove [of N n])

definition cupd :: "string \<Rightarrow> string \<Rightarrow> int \<Rightarrow> counters \<Rightarrow> counters" where
  "cupd k n v c = c(k := (c k)(n := v))"

text \<open>Changing one partial count and its key's aggregate by the same amount keeps the two in step.\<close>

lemma counter_abs_upd:
  assumes abs: "counter_abs N s c" and cl: "cluster_ok N B" and n: "n \<in> N"
    and f: "counts (f (getShard s k)) = (counts (getShard s k))(nodeKey k n \<mapsto> f_of_int v)"
      "aggregateCounts (f (getShard s k)) =
         (aggregateCounts (getShard s k))(k \<mapsto> f_of_int ((\<Sum>m \<in> N. c k m) + (v - c k n)))"
  shows "counter_abs N (at_shard k f s) (cupd k n v c)"
proof -
  have N: "finite N" "\<And>m. m \<in> N \<Longrightarrow> colon \<notin> set m" using cl by (auto simp: cluster_ok_def)
  have "fget (counts (getShard (at_shard k f s) k')) (nodeKey k' m) = f_of_int (cupd k n v c k' m)" if "m \<in> N" for k' m
  proof (cases "shardIndex k' = shardIndex k")
    case True
    then have "getShard s k' = getShard s k" by (simp add: getShard_def)
    moreover have "fget (counts (getShard s k')) (nodeKey k' m) = f_of_int (c k' m)"
      using abs that by (simp add: counter_abs_def)
    ultimately show ?thesis using True f N(2) [OF that] N(2) [OF n]
      by (auto simp: getShard_at_shard cupd_def nodeKey_inject)
  next
    case False
    then have "k' \<noteq> k" by auto
    with False abs that show ?thesis by (simp add: getShard_at_shard cupd_def counter_abs_def)
  qed
  moreover have "fget (aggregateCounts (getShard (at_shard k f s) k')) k' = f_of_int (\<Sum>m \<in> N. cupd k n v c k' m)" for k'
  proof (cases "k' = k")
    case True
    with f show ?thesis using sum_upd [OF N(1) n, of c k v] by (simp add: cupd_def)
  next
    case False
    show ?thesis
    proof (cases "shardIndex k' = shardIndex k")
      case True
      then have "getShard s k' = getShard s k" by (simp add: getShard_def)
      moreover have "fget (aggregateCounts (getShard s k')) k' = f_of_int (\<Sum>m \<in> N. c k' m)"
        using abs by (simp add: counter_abs_def)
      ultimately show ?thesis using True False f by (simp add: getShard_at_shard cupd_def)
    next
      case False
      with \<open>k' \<noteq> k\<close> abs show ?thesis by (simp add: getShard_at_shard cupd_def counter_abs_def)
    qed
  qed
  ultimately show ?thesis by (simp add: counter_abs_def)
qed

section \<open>The operations on the abstract counter\<close>

lemma counter_abs_increment:
  assumes abs: "counter_abs N s c" and cl: "cluster_ok N B" and ok: "counters_ok N B c" and n: "n \<in> N"
    and d: "0 \<le> d" "c k n + d \<le> B"
  shows "counter_abs N (fst (store_increment k n (f_of_int d) s)) (cupd k n (c k n + d) c)"
proof -
  have cn: "0 \<le> c k n" using ok n by (auto simp: counters_ok_def)
  have "exact_int (c k n)" "exact_int d" using part_exact [OF cl] cn d by auto
  moreover have "exact_int (\<Sum>m \<in> N. c k m)" using sum_exact [OF cl ok] .
  moreover have "fget (counts (getShard s k)) (nodeKey k n) = f_of_int (c k n)"
    "fget (aggregateCounts (getShard s k)) k = f_of_int (\<Sum>m \<in> N. c k m)"
    using abs n by (auto simp: counter_abs_def)
  ultimately have "counter_abs N (at_shard k (shard_increment k n (f_of_int d)) s) (cupd k n (c k n + d) c)"
    by (intro counter_abs_upd [OF abs cl n]) (simp_all add: shard_increment_def exact)
  then show ?thesis by (simp add: store_increment_def)
qed

lemma counter_abs_setNodeCount:
  assumes abs: "counter_abs N s c" and cl: "cluster_ok N B" and ok: "counters_ok N B c" and n: "n \<in> N"
    and v: "0 \<le> v" "v \<le> B"
  shows "counter_abs N (store_setNodeCount k n (f_of_int v) s) (cupd k n (max v (c k n)) c)"
proof (cases "c k n < v")
  case True
  have cn: "0 \<le> c k n" "c k n \<le> B" using ok n by (auto simp: counters_ok_def)
  have ex: "exact_int (c k n)" "exact_int v" "exact_int (v - c k n)" using part_exact [OF cl] cn v True by auto
  have sum: "exact_int (\<Sum>m \<in> N. c k m)" using sum_exact [OF cl ok] .
  have g: "fget (counts (getShard s k)) (nodeKey k n) = f_of_int (c k n)"
    "fget (aggregateCounts (getShard s k)) k = f_of_int (\<Sum>m \<in> N. c k m)"
    using abs n by (auto simp: counter_abs_def)
  show ?thesis unfolding store_setNodeCount_def max_absorb1 [OF less_imp_le [OF True]]
    by (rule counter_abs_upd [OF abs cl n]) (use True ex sum g in \<open>simp_all add: shard_setNodeCount_def Let_def exact\<close>)
next
  case False
  have cn: "0 \<le> c k n" "c k n \<le> B" using ok n by (auto simp: counters_ok_def)
  then have "\<not> f_less (fget (counts (getShard s k)) (nodeKey k n)) (f_of_int v)"
    using abs n False part_exact [OF cl] v by (simp add: counter_abs_def f_less_of_int)
  then have "store_setNodeCount k n (f_of_int v) s = s"
    by (simp add: store_setNodeCount_def shard_setNodeCount_def at_shard_def getShard_def)
  moreover have "cupd k n (max v (c k n)) c = c" using False by (simp add: cupd_def max_def)
  ultimately show ?thesis using abs by simp
qed

lemma counters_ok_cupd: "counters_ok N B c \<Longrightarrow> 0 \<le> v \<Longrightarrow> v \<le> B \<Longrightarrow> counters_ok N B (cupd k n v c)"
  by (simp add: counters_ok_def cupd_def)

lemma counter_abs_agg:
  assumes "counter_abs N s c" and "cluster_ok N B" and "counters_ok N B c"
  shows "f_to_int64 (store_getAggregateCount s k) = of_int (\<Sum>n \<in> N. c k n)"
  using assms sum_exact [OF assms(2,3), of k]
  by (simp add: store_getAggregateCount_def counter_abs_def f_to_int64_of_int)

section \<open>Runs of counter operations\<close>

text \<open>What happens to the counters of a replica: increments made on it, and partial counts received from peers.\<close>

datatype counter_op = CInc string string int | CSet string string int

fun apply_counter :: "counter_op \<Rightarrow> 'o store \<Rightarrow> 'o store" where
  "apply_counter (CInc k n d) s = fst (store_increment k n (f_of_int d) s)"
| "apply_counter (CSet k n v) s = store_setNodeCount k n (f_of_int v) s"

text \<open>The specification: increments add, received counts are joined by maximum.\<close>

fun spec_counter :: "counter_op \<Rightarrow> counters \<Rightarrow> counters" where
  "spec_counter (CInc k n d) c = cupd k n (c k n + d) c"
| "spec_counter (CSet k n v) c = cupd k n (max v (c k n)) c"

fun counter_op_ok :: "string set \<Rightarrow> counter_op \<Rightarrow> bool" where
  "counter_op_ok N (CInc k n d) \<longleftrightarrow> n \<in> N \<and> 0 \<le> d"
| "counter_op_ok N (CSet k n v) \<longleftrightarrow> n \<in> N \<and> 0 \<le> v"

lemma spec_counter_mono: "counter_op_ok N x \<Longrightarrow> c k n \<le> spec_counter x c k n"
  by (cases x) (auto simp: cupd_def)

lemma spec_counters_mono: "\<forall>x \<in> set xs. counter_op_ok N x \<Longrightarrow> c k n \<le> fold spec_counter xs c k n"
proof (induction xs arbitrary: c)
  case Nil
  then show ?case by simp
next
  case (Cons x xs)
  then have "c k n \<le> spec_counter x c k n" by (intro spec_counter_mono [of N]) simp
  also have "\<dots> \<le> fold spec_counter xs (spec_counter x c) k n" using Cons by simp
  finally show ?case by simp
qed

lemma counter_step_abs:
  assumes "counter_abs N s c" and "cluster_ok N B" and "counters_ok N B c" and "counter_op_ok N x"
    and "\<forall>k n. spec_counter x c k n \<le> B"
  shows "counter_abs N (apply_counter x s) (spec_counter x c) \<and> counters_ok N B (spec_counter x c)"
proof (cases x)
  case (CInc k n d)
  moreover have "0 \<le> c k n" using assms CInc by (auto simp: counters_ok_def)
  moreover have "c k n + d \<le> B" using assms(5) [rule_format, of k n] CInc by (simp add: cupd_def)
  ultimately show ?thesis using assms counter_abs_increment [of N s c B n d k] by (simp add: counters_ok_cupd)
next
  case (CSet k n v)
  moreover have b: "0 \<le> c k n" using assms CSet by (auto simp: counters_ok_def)
  moreover have m: "max v (c k n) \<le> B" using assms(5) [rule_format, of k n] CSet by (simp add: cupd_def)
  ultimately show ?thesis using assms counter_abs_setNodeCount [of N s c B n v k] by (simp add: counters_ok_cupd)
qed

lemma counter_run_abs:
  assumes "counter_abs N s c" and "cluster_ok N B" and "counters_ok N B c"
    and "\<forall>x \<in> set xs. counter_op_ok N x" and "\<forall>k n. fold spec_counter xs c k n \<le> B"
  shows "counter_abs N (fold apply_counter xs s) (fold spec_counter xs c) \<and>
         counters_ok N B (fold spec_counter xs c)"
  using assms
proof (induction xs arbitrary: s c)
  case Nil
  then show ?case by simp
next
  case (Cons x xs)
  have "spec_counter x c k n \<le> B" for k n
  proof -
    have "spec_counter x c k n \<le> fold spec_counter xs (spec_counter x c) k n"
      using Cons.prems(4) by (intro spec_counters_mono [of xs N]) simp
    also have "\<dots> \<le> B" using Cons.prems(5) by simp
    finally show ?thesis .
  qed
  then have "counter_abs N (apply_counter x s) (spec_counter x c)" "counters_ok N B (spec_counter x c)"
    using counter_step_abs [OF Cons.prems(1-3), of x] Cons.prems(4) by auto
  then show ?case using Cons.IH [of "apply_counter x s" "spec_counter x c"] Cons.prems by simp
qed

lemma counter_abs_empty: "counter_abs N emptyStore (\<lambda>_ _. 0)"
  by (simp add: counter_abs_def emptyStore_def newStoreShard_def getShard_def f_zero_of_int)

text \<open>C10: Counters refine their specification: after any mix of local increments and partial counts
  received from peers, over any keys, the store's aggregate of a key, read back as an integer, is the sum over the
  nodes of the specification's partial counts (no partial count passing \<open>B\<close>, and all nodes together
  staying below \<open>2 ^ 53\<close>, the integers a float holds exactly).\<close>

theorem counters_refine:
  assumes "cluster_ok N B" and "\<forall>x \<in> set xs. counter_op_ok N x"
    and "\<forall>k n. fold spec_counter xs (\<lambda>_ _. 0) k n \<le> B"
  shows "f_to_int64 (store_getAggregateCount (fold apply_counter xs emptyStore) key)
           = of_int (\<Sum>n \<in> N. fold spec_counter xs (\<lambda>_ _. 0) key n)"
proof -
  have "counters_ok N B (\<lambda>_ _. 0)" using assms(1) by (auto simp: counters_ok_def cluster_ok_def)
  from counter_run_abs [OF counter_abs_empty assms(1) this assms(2,3)]
  show ?thesis using counter_abs_agg assms(1) by blast
qed

theorem counters_refine_witness:
  "f_to_int64 (store_getAggregateCount
     (fold apply_counter [CInc ''k'' ''a'' 2, CSet ''k'' ''b'' 7, CInc ''k'' ''a'' 3] (emptyStore :: nat store)) ''k'') = 12"
proof -
  let ?xs = "[CInc ''k'' ''a'' 2, CSet ''k'' ''b'' 7, CInc ''k'' ''a'' 3]"
  have "\<forall>k n. fold spec_counter ?xs (\<lambda>_ _. 0) k n \<le> 100" by (auto simp: cupd_def)
  then show ?thesis using counters_refine [of "{''a'', ''b''}" 100 ?xs "''k''"]
    by (simp add: cluster_ok_def colon_def cupd_def)
qed

text \<open>C39: Decrements are not replicated: a received partial count that is not above the one held is dropped, so after a
  node has counted down, a peer that has seen the higher count keeps it, whatever is delivered later; the
  two disagree although every update has arrived.\<close>

theorem decrement_lost:
  assumes "exact_int v" and "exact_int w" and "v \<le> w"
    and "store_getNodeCount s key node = f_of_int w"
  shows "store_setNodeCount key node (f_of_int v) s = s \<and>
         f_to_int64 (store_getNodeCount (store_setNodeCount key node (f_of_int v) s) key node) = of_int w"
proof -
  have "\<not> f_less (fget (counts (getShard s key)) (nodeKey key node)) (f_of_int v)"
    using assms by (simp add: store_getNodeCount_def f_less_of_int)
  then have "store_setNodeCount key node (f_of_int v) s = s"
    by (simp add: store_setNodeCount_def shard_setNodeCount_def at_shard_def getShard_def)
  with assms show ?thesis by (simp add: f_to_int64_of_int)
qed

theorem decrement_lost_witness:
  "f_to_int64 (store_getNodeCount (store_setNodeCount ''k'' ''a'' (f_of_int 3)
     (store_setNodeCount ''k'' ''a'' (f_of_int 5) (emptyStore :: nat store))) ''k'' ''a'') = 5"
proof -
  have e: "exact_int 0" "exact_int 3" "exact_int 5" by (simp_all add: exact_int_def)
  have "store_getNodeCount (store_setNodeCount ''k'' ''a'' (f_of_int 5) (emptyStore :: nat store)) ''k'' ''a'' = f_of_int 5"
    using e by (simp add: store_getNodeCount_def store_setNodeCount_def shard_setNodeCount_def emptyStore_def
        newStoreShard_def getShard_def at_shard_def f_zero_of_int f_less_of_int Let_def)
  from decrement_lost [OF e(2,3) _ this, simplified]
  have "f_to_int64 (store_getNodeCount (store_setNodeCount ''k'' ''a'' (f_of_int 3)
     (store_setNodeCount ''k'' ''a'' (f_of_int 5) (emptyStore :: nat store))) ''k'' ''a'') = 5" by (elim conjE)
  then show ?thesis .
qed

section \<open>Convergence of counters\<close>

text \<open>The body of \<^const>\<open>shard_setNodeCount\<close> on a store that implements integers.\<close>

definition shard_raise :: "string \<Rightarrow> string \<Rightarrow> int \<Rightarrow> int \<Rightarrow> 'o storeShard \<Rightarrow> 'o storeShard" where
  "shard_raise k n v tot sh =
     sh\<lparr>counts := (counts sh)(nodeKey k n \<mapsto> f_of_int v),
        aggregateCounts := (aggregateCounts sh)(k \<mapsto> f_of_int tot),
        dirty := insert (nodeKey k n) (dirty sh)\<rparr>"

definition ctotal :: "string set \<Rightarrow> counters \<Rightarrow> string \<Rightarrow> int" where
  "ctotal N c k = (\<Sum>m \<in> N. c k m)"

lemma setNodeCount_eq:
  assumes abs: "counter_abs N s c" and cl: "cluster_ok N B" and ok: "counters_ok N B c" and n: "n \<in> N"
    and v: "0 \<le> v" "v \<le> B"
  shows "store_setNodeCount k n (f_of_int v) s =
    (if c k n < v then at_shard k (shard_raise k n v (ctotal N (cupd k n v c) k)) s else s)"
proof -
  have cn: "0 \<le> c k n" "c k n \<le> B" using ok n by (auto simp: counters_ok_def)
  have ex: "exact_int (c k n)" "exact_int v" using part_exact [OF cl] cn v by auto
  have ex': "exact_int (v - c k n)" if "c k n < v" using part_exact [OF cl, of "v - c k n"] cn v that by simp
  have sum: "exact_int (\<Sum>m \<in> N. c k m)" using sum_exact [OF cl ok] .
  have g: "fget (counts (getShard s k)) (nodeKey k n) = f_of_int (c k n)"
    "fget (aggregateCounts (getShard s k)) k = f_of_int (\<Sum>m \<in> N. c k m)"
    using abs n by (auto simp: counter_abs_def)
  have t: "ctotal N (cupd k n v c) k = (\<Sum>m \<in> N. c k m) + (v - c k n)"
    using sum_upd [of N n c k v] cl n by (simp add: ctotal_def cupd_def cluster_ok_def)
  have "shard_setNodeCount k n (f_of_int v) (getShard s k) =
    (if c k n < v then shard_raise k n v (ctotal N (cupd k n v c) k) (getShard s k) else getShard s k)"
    unfolding t using g ex ex' sum by (simp add: shard_setNodeCount_def shard_raise_def Let_def exact)
  then show ?thesis by (simp add: store_setNodeCount_def at_shard_def getShard_def)
qed

fun apply_count :: "string \<times> string \<times> int \<Rightarrow> 'o store \<Rightarrow> 'o store" where
  "apply_count (k, n, v) s = store_setNodeCount k n (f_of_int v) s"

fun count_good :: "string set \<Rightarrow> int \<Rightarrow> string \<times> string \<times> int \<Rightarrow> bool" where
  "count_good N B (k, n, v) \<longleftrightarrow> n \<in> N \<and> 0 \<le> v \<and> v \<le> B"

lemma counter_inv_step: "counter_inv N B s \<Longrightarrow> count_good N B x \<Longrightarrow> counter_inv N B (apply_count x s)"
proof -
  assume inv: "counter_inv N B s" and x: "count_good N B x"
  then obtain c where c: "cluster_ok N B" "counters_ok N B c" "counter_abs N s c" by (auto simp: counter_inv_def)
  obtain k n v where [simp]: "x = (k, n, v)" by (cases x)
  have "max v (c k n) \<le> B" "0 \<le> max v (c k n)" using c x by (auto simp: counters_ok_def)
  then have "counters_ok N B (cupd k n (max v (c k n)) c)" using c(2) by (simp add: counters_ok_cupd)
  moreover have "counter_abs N (apply_count x s) (cupd k n (max v (c k n)) c)"
    using counter_abs_setNodeCount [OF c(3,1,2), of n v k] x by simp
  ultimately show ?thesis using c(1) by (auto simp: counter_inv_def)
qed

lemma setNodeCount_twice:
  assumes abs: "counter_abs N s c" and cl: "cluster_ok N B" and ok: "counters_ok N B c"
    and g: "count_good N B (k, n, v)" "count_good N B (k', n', v')"
    and c1: "c1 = (if c k n < v then cupd k n v c else c)"
    and s1: "s1 = (if c k n < v then at_shard k (shard_raise k n v (ctotal N (cupd k n v c) k)) s else s)"
  shows "store_setNodeCount k' n' (f_of_int v') (store_setNodeCount k n (f_of_int v) s) =
    (if c1 k' n' < v' then at_shard k' (shard_raise k' n' v' (ctotal N (cupd k' n' v' c1) k')) s1 else s1)"
proof -
  have c1': "c1 = cupd k n (max v (c k n)) c" unfolding c1 by (auto simp: cupd_def max_def)
  have "0 \<le> c k n" "c k n \<le> B" using ok g by (auto simp: counters_ok_def)
  then have "counters_ok N B c1" unfolding c1' using ok g by (simp add: counters_ok_cupd)
  moreover have "store_setNodeCount k n (f_of_int v) s = s1"
    unfolding s1 using g by (intro setNodeCount_eq [OF abs cl ok]) simp_all
  moreover have "counter_abs N (store_setNodeCount k n (f_of_int v) s) c1"
    unfolding c1' using g by (intro counter_abs_setNodeCount [OF abs cl ok]) simp_all
  ultimately show ?thesis using g setNodeCount_eq [of N s1 c1 B n' v' k'] cl by simp
qed

lemma cupd_same: "cupd k n v (cupd k n w c) = cupd k n v c"
  by (simp add: cupd_def)

lemma cupd_twist: "(k, n) \<noteq> (k', n') \<Longrightarrow> cupd k n v (cupd k' n' w c) = cupd k' n' w (cupd k n v c)"
  by (auto simp: cupd_def fun_upd_twist)

lemma cupd_other: "(k, n) \<noteq> (k', n') \<Longrightarrow> cupd k n v c k' n' = c k' n'"
  by (auto simp: cupd_def)

lemma ctotal_other: "k \<noteq> k' \<Longrightarrow> ctotal N (cupd k n v c) k' = ctotal N c k'"
  by (simp add: ctotal_def cupd_def)

lemma cupd_hit [simp]: "cupd k n v c k n = v"
  by (simp add: cupd_def)

lemma at_shard_twice: "at_shard k f (at_shard k g s) = at_shard k (\<lambda>sh. f (g sh)) s"
  by (simp add: at_shard_def)

lemma shard_raise_same: "shard_raise k n v t (shard_raise k n v' t' sh) = shard_raise k n v t sh"
  by (simp add: shard_raise_def)

lemma shard_raise_nodes:
  assumes "colon \<notin> set n" "colon \<notin> set n'" "n \<noteq> n'"
  shows "shard_raise k n v t (shard_raise k n' v' t' sh) = shard_raise k n' v' t (shard_raise k n v t'' sh)"
  using assms by (simp add: shard_raise_def fun_upd_twist nodeKey_inject insert_commute)

lemma shard_raise_keys:
  assumes "colon \<notin> set n" "colon \<notin> set n'" "k \<noteq> k'"
  shows "shard_raise k n v t (shard_raise k' n' v' t' sh) = shard_raise k' n' v' t' (shard_raise k n v t sh)"
  using assms by (simp add: shard_raise_def fun_upd_twist nodeKey_inject insert_commute)

lemma setNodeCount_commute:
  assumes inv: "counter_inv N B s" and g: "count_good N B (k, n, v)" "count_good N B (k', n', v')"
  shows "store_setNodeCount k' n' (f_of_int v') (store_setNodeCount k n (f_of_int v) s) =
         store_setNodeCount k n (f_of_int v) (store_setNodeCount k' n' (f_of_int v') s)"
proof -
  obtain c where cl: "cluster_ok N B" and ok: "counters_ok N B c" and abs: "counter_abs N s c"
    using inv by (auto simp: counter_inv_def)
  have fin: "finite N" and nc: "colon \<notin> set n" "colon \<notin> set n'" using cl g by (auto simp: cluster_ok_def)
  have nN: "n \<in> N" "n' \<in> N" using g by auto
  note eq1 = setNodeCount_twice [OF abs cl ok g refl refl]
  note eq2 = setNodeCount_twice [OF abs cl ok g(2) g(1) refl refl]
  consider "k = k'" "n = n'" | "k = k'" "n \<noteq> n'" | "k \<noteq> k'" by blast
  then show ?thesis
  proof cases
    case 1
    then show ?thesis unfolding eq1 eq2
      by (auto simp: at_shard_twice shard_raise_same cupd_same)
  next
    case 2
    then have t: "cupd k' n' v' (cupd k' n v c) = cupd k' n v (cupd k' n' v' c)" by (intro cupd_twist) simp
    have "shard_raise k' n' v' x (shard_raise k' n v y sh) = shard_raise k' n v x (shard_raise k' n' v' z sh)" for x y z sh
      using shard_raise_nodes [of n' n k' v' x v y sh z] nc 2 by auto
    then have "at_shard k' (shard_raise k' n' v' x) (at_shard k' (shard_raise k' n v y) s)
      = at_shard k' (shard_raise k' n v x) (at_shard k' (shard_raise k' n' v' z) s)" for x y z
      unfolding at_shard_twice by (intro arg_cong [where f = "\<lambda>f. at_shard k' f s"] ext)
    with 2 show ?thesis unfolding eq1 eq2 by (auto simp: cupd_other t)
  next
    case 3
    then have "at_shard k (shard_raise k n v t) (at_shard k' (shard_raise k' n' v' t') s)
      = at_shard k' (shard_raise k' n' v' t') (at_shard k (shard_raise k n v t) s)" for t t'
      by (intro at_shard_commute shard_raise_keys [OF nc])
    moreover have "ctotal N (cupd k' n' v' (cupd k n v c)) k' = ctotal N (cupd k' n' v' c) k'"
      "ctotal N (cupd k n v (cupd k' n' v' c)) k = ctotal N (cupd k n v c) k"
      using 3 by (simp_all add: ctotal_def cupd_def)
    ultimately show ?thesis using 3 unfolding eq1 eq2 by (auto simp: cupd_other)
  qed
qed

lemma setNodeCount_idem:
  assumes inv: "counter_inv N B s" and g: "count_good N B (k, n, v)"
  shows "store_setNodeCount k n (f_of_int v) (store_setNodeCount k n (f_of_int v) s) = store_setNodeCount k n (f_of_int v) s"
proof -
  obtain c where *: "counter_abs N s c" "cluster_ok N B" "counters_ok N B c"
    using inv by (auto simp: counter_inv_def)
  show ?thesis unfolding setNodeCount_twice [OF * g g refl refl] using g setNodeCount_eq [OF *, of n v k] by simp
qed

interpretation cnt: replicated apply_count "count_good N B" "\<lambda>_ _. True" "counter_inv N B" for N B
proof unfold_locales
  fix s :: "'a store" and a b
  assume "counter_inv N B s" "count_good N B a" "count_good N B b"
  then show "apply_count a (apply_count b s) = apply_count b (apply_count a s)"
    by (cases a; cases b) (simp add: setNodeCount_commute del: count_good.simps)
next
  fix s :: "'a store" and a
  assume "counter_inv N B s" "count_good N B a"
  then show "apply_count a (apply_count a s) = apply_count a s"
    by (cases a) (simp add: setNodeCount_idem del: count_good.simps)
qed (rule counter_inv_step)

text \<open>Counters converge: replicas that implement the same counters and receive the same partial counts, in any order and
  with any repetitions, end in the same state, float by float (partial counts up to \<open>B\<close>, all nodes
  together below \<open>2 ^ 53\<close>).\<close>

theorem counters_converge:
  assumes "counter_inv N B s" and "\<forall>x \<in> set xs. count_good N B x" and "set xs = set ys"
  shows "fold apply_count xs s = fold apply_count ys s"
  using assms by (intro cnt.converge [of N B]) (auto simp: cnt.coherent_def)

theorem counters_converge_witness:
  "fold apply_count [(''k'', ''a'', 2), (''k'', ''b'', 7), (''k'', ''a'', 5)] (emptyStore :: nat store)
   = fold apply_count [(''k'', ''a'', 5), (''k'', ''a'', 2), (''k'', ''b'', 7), (''k'', ''b'', 7)] emptyStore"
proof -
  have "cluster_ok {''a'', ''b''} 100" by (simp add: cluster_ok_def colon_def)
  then have "counter_inv {''a'', ''b''} 100 (emptyStore :: nat store)"
    using counter_abs_empty by (auto simp: counter_inv_def counters_ok_def intro!: exI [of _ "\<lambda>_ _. 0"])
  then show ?thesis by (rule counters_converge) auto
qed

end
