(* ===== verification/Windows.thy ===== *)
theory Windows
  imports Store Convergence
begin

text \<open>
  Sliding windows: \<^verbatim>\<open>store.incrementSlidingWindow\<close>, \<^verbatim>\<open>store.addWindowTimestamp\<close> and the pruning of stale windows.
  A window is a list of event timestamps; received events are inserted in order without
  duplicates, so replicas that received the same events hold the same window.
\<close>

definition ascending :: "int64 list \<Rightarrow> bool" where
  "ascending w \<longleftrightarrow> sorted_wrt (<) (map sint w)"

text \<open>The window \<^const>\<open>shard_addWindowTimestamp\<close> leaves behind.\<close>

definition win_insert :: "int64 \<Rightarrow> int64 list \<Rightarrow> int64 list" where
  "win_insert ts w = (case insert_index ts w of None \<Rightarrow> w | Some idx \<Rightarrow> take idx w @ [ts] @ drop idx w)"

lemma insert_index_None: "insert_index ts w = None \<Longrightarrow> ts \<in> set w"
  by (induction w) (auto split: if_splits)

lemma insert_index_None_iff: "ascending w \<Longrightarrow> insert_index ts w = None \<longleftrightarrow> ts \<in> set w"
  by (induction w) (force simp: ascending_def)+

lemma insert_index_Some:
  "insert_index ts w = Some idx \<Longrightarrow>
     idx \<le> length w \<and> (\<forall>t \<in> set (take idx w). sint t < sint ts) \<and>
     (idx < length w \<longrightarrow> sint ts < sint (w ! idx))"
proof (induction w arbitrary: idx)
  case Nil
  then show ?case by simp
next
  case (Cons t w)
  show ?case
  proof (cases "sint t > sint ts")
    case True
    with Cons.prems show ?thesis by (auto split: if_splits)
  next
    case False
    with Cons.prems obtain i where i: "insert_index ts w = Some i" "idx = Suc i" and t: "t \<noteq> ts"
      by (auto split: if_splits)
    have "sint t \<noteq> sint ts" using t by simp
    then have "sint t < sint ts" using False by linarith
    with Cons.IH [OF i(1)] i(2) show ?thesis by auto
  qed
qed

lemma win_insert_set: "set (win_insert ts w) = insert ts (set w)"
proof (cases "insert_index ts w")
  case None
  then show ?thesis using insert_index_None [OF None] by (auto simp: win_insert_def)
next
  case (Some idx)
  have "set w = set (take idx w) \<union> set (drop idx w)" by (metis append_take_drop_id set_append)
  then show ?thesis using Some by (auto simp: win_insert_def)
qed

lemma win_insert_ascending:
  assumes "ascending w"
  shows "ascending (win_insert ts w)"
proof (cases "insert_index ts w")
  case None
  then show ?thesis using assms by (simp add: win_insert_def)
next
  case (Some idx)
  have w: "w = take idx w @ drop idx w" by simp
  have asc: "sorted_wrt (<) (map sint (take idx w) @ map sint (drop idx w))"
    using assms unfolding ascending_def by (metis append_take_drop_id map_append)
  have lo: "\<forall>t \<in> set (take idx w). sint t < sint ts" using insert_index_Some [OF Some] by simp
  have hi: "\<forall>t \<in> set (drop idx w). sint ts < sint t"
  proof (cases "idx < length w")
    case True
    then have d: "drop idx w = w ! idx # drop (Suc idx) w" by (simp add: Cons_nth_drop_Suc)
    have "sint ts < sint (w ! idx)" using insert_index_Some [OF Some] True by simp
    moreover have "\<forall>t \<in> set (drop (Suc idx) w). sint (w ! idx) < sint t"
      using asc unfolding d by (auto simp: sorted_wrt_append)
    ultimately show ?thesis unfolding d by auto
  next
    case False
    then show ?thesis by simp
  qed
  show ?thesis unfolding ascending_def win_insert_def using Some asc lo hi
    by (auto simp: sorted_wrt_append)
qed

lemma ascending_unique: "ascending v \<Longrightarrow> ascending w \<Longrightarrow> set v = set w \<Longrightarrow> v = w"
proof -
  assume "ascending v" "ascending w" "set v = set w"
  then have "map sint v = map sint w"
    unfolding ascending_def by (intro strict_sorted_equal) simp_all
  then show "v = w" by (rule map_injective) (simp add: inj_def)
qed

lemma win_insert_commute:
  assumes "ascending w"
  shows "win_insert a (win_insert b w) = win_insert b (win_insert a w)"
  by (rule ascending_unique) (use assms in \<open>auto simp: win_insert_ascending win_insert_set\<close>)

lemma win_insert_present: "ascending w \<Longrightarrow> ts \<in> set w \<Longrightarrow> win_insert ts w = w"
  using insert_index_None_iff [of w ts] by (simp add: win_insert_def)

lemma shard_add_eq:
  assumes "ascending (wget (windows sh) key)"
  shows "shard_addWindowTimestamp key ts sh =
    (if ts \<in> set (wget (windows sh) key) then sh
     else sh\<lparr>windows := (windows sh)(key \<mapsto> win_insert ts (wget (windows sh) key)), dirty := insert key (dirty sh)\<rparr>)"
proof (cases "insert_index ts (wget (windows sh) key)")
  case None
  then show ?thesis using insert_index_None_iff [OF assms, of ts] by (simp add: shard_addWindowTimestamp_def)
next
  case (Some idx)
  then show ?thesis using insert_index_None_iff [OF assms, of ts] insert_index_Some [OF Some]
    by (auto simp: shard_addWindowTimestamp_def win_insert_def Let_def)
qed

section \<open>Convergence\<close>

definition windows_inv :: "'o store \<Rightarrow> bool" where
  "windows_inv s \<longleftrightarrow> (\<forall>i k. ascending (wget (windows (shards s i)) k))"

fun apply_window :: "string \<times> int64 \<Rightarrow> 'o store \<Rightarrow> 'o store" where
  "apply_window (key, ts) s = store_addWindowTimestamp key ts s"

lemma windows_inv_add: "windows_inv s \<Longrightarrow> windows_inv (store_addWindowTimestamp key ts s)"
proof -
  assume inv: "windows_inv s"
  then have "ascending (wget (windows (shards s (shardIndex key))) k)" for k by (simp add: windows_inv_def)
  then have "ascending (wget (windows (shard_addWindowTimestamp key ts (shards s (shardIndex key)))) k)" for k
    by (simp add: shard_add_eq win_insert_ascending)
  with inv show ?thesis by (simp add: windows_inv_def store_addWindowTimestamp_def at_shard_def)
qed

lemma shard_add_commute:
  assumes "\<And>k. ascending (wget (windows sh) k)"
  shows "shard_addWindowTimestamp k a (shard_addWindowTimestamp k' b sh)
       = shard_addWindowTimestamp k' b (shard_addWindowTimestamp k a sh)"
proof (cases "k = k'")
  case True
  then show ?thesis using assms [of k] win_insert_commute [OF assms [of k], of a b]
    by (auto simp: shard_add_eq win_insert_ascending win_insert_set win_insert_present)
next
  case False
  then show ?thesis using assms
    by (auto simp: shard_add_eq win_insert_ascending fun_upd_twist insert_commute)
qed

interpretation win: replicated apply_window "\<lambda>_. True" "\<lambda>_ _. True" windows_inv
proof unfold_locales
  fix s :: "'a store" and a b
  assume inv: "windows_inv s"
  then show "windows_inv (apply_window a s)" by (cases a) (simp add: windows_inv_add)
  have asc: "ascending (wget (windows (getShard s k)) k')" for k k'
    using inv by (simp add: windows_inv_def getShard_def)
  show "apply_window a (apply_window b s) = apply_window b (apply_window a s)"
    by (cases a; cases b) (simp add: store_addWindowTimestamp_def at_shard_commute shard_add_commute asc)
  show "apply_window a (apply_window a s) = apply_window a s"
    by (cases a) (auto simp: store_addWindowTimestamp_def asc shard_add_eq win_insert_ascending win_insert_set
        intro!: at_shard_idem)
qed

text \<open>Windows converge: replicas whose windows are in order and that receive the same events, in any order and
  with any repetitions, hold the same windows, each an ascending list of the distinct timestamps.\<close>

theorem windows_converge:
  assumes "windows_inv s" and "set xs = set ys"
  shows "fold apply_window xs s = fold apply_window ys s \<and> windows_inv (fold apply_window xs s)"
  using assms by (intro conjI win.converge win.inv_apply_ops) (auto simp: win.coherent_def)

theorem windows_converge_witness:
  "fold apply_window [(''k'', 5), (''k'', 3), (''j'', 9)] (emptyStore :: nat store)
   = fold apply_window [(''j'', 9), (''k'', 3), (''k'', 5), (''k'', 3)] emptyStore"
proof -
  have "windows_inv (emptyStore :: nat store)"
    by (simp add: windows_inv_def emptyStore_def newStoreShard_def ascending_def)
  then show ?thesis
    using windows_converge [of _ "[(''k'', 5), (''k'', 3), (''j'', 9)]" "[(''j'', 9), (''k'', 3), (''k'', 5), (''k'', 3)]"]
    by (auto simp del: fold_simps)
qed

section \<open>Counting in the window\<close>

lemma window_scan_eq:
  "window_scan horizon w count i =
     (count + of_nat (length (filter (\<lambda>t. sint t \<ge> sint horizon) w)),
      i + length (filter (\<lambda>t. sint t < sint horizon) w))"
  by (induction w arbitrary: count i) (auto simp: not_le)

lemma drop_old:
  "sorted (map sint w) \<Longrightarrow>
     drop (length (filter (\<lambda>t. sint t < h) w)) w = filter (\<lambda>t. sint t \<ge> h) w"
proof (induction w)
  case Nil
  then show ?case by simp
next
  case (Cons t w)
  show ?case
  proof (cases "sint t < h")
    case True
    with Cons show ?thesis by simp
  next
    case False
    with Cons.prems have "filter (\<lambda>t. sint t < h) w = []" "filter (\<lambda>t. sint t \<ge> h) w = w"
      by (auto simp: filter_empty_conv filter_id_conv)
    with False show ?thesis by simp
  qed
qed

text \<open>\<^const>\<open>shard_incrementSlidingWindow\<close> with its scan evaluated: \<open>i\<close> events are dropped from the front, \<open>kept\<close> are counted.\<close>

definition shard_slide ::
  "string \<Rightarrow> int64 \<Rightarrow> nat \<Rightarrow> int64 list \<Rightarrow> 'o storeShard \<Rightarrow> 'o storeShard \<times> int64" where
  "shard_slide key ts i kept sh =
     (let w = wget (windows sh) key @ [ts];
          m = (windows sh)(key \<mapsto> (if i > 0 then drop i w else w))
      in (sh\<lparr>windows := (if wget m key = [] then m(key := None) else m), dirty := insert key (dirty sh)\<rparr>,
          of_nat (length kept)))"

lemma shard_incrementSlidingWindow_slide:
  "shard_incrementSlidingWindow key ts window now sh =
     shard_slide key ts (length (filter (\<lambda>t. sint t < sint (now - window)) (wget (windows sh) key @ [ts])))
       (filter (\<lambda>t. sint t \<ge> sint (now - window)) (wget (windows sh) key @ [ts])) sh"
  unfolding shard_incrementSlidingWindow_def shard_slide_def Let_def
  by (simp add: window_scan_eq del: filter_append)

lemma shard_slide_windows:
  assumes "drop i (wget (windows sh) key @ [ts]) = kept"
  shows "windows (fst (shard_slide key ts i kept sh)) = (windows sh)(key := (if kept = [] then None else Some kept))"
  using assms by (cases "i = 0") (auto simp: shard_slide_def Let_def)

lemma slide_result:
  assumes "sorted (map sint (wget (windows sh) key @ [ts]))"
    and "kept = filter (\<lambda>t. sint t \<ge> sint (now - window)) (wget (windows sh) key @ [ts])"
  shows "windows (fst (shard_incrementSlidingWindow key ts window now sh))
           = (windows sh)(key := (if kept = [] then None else Some kept))"
    and "snd (shard_incrementSlidingWindow key ts window now sh) = of_nat (length kept)"
proof -
  show "windows (fst (shard_incrementSlidingWindow key ts window now sh))
           = (windows sh)(key := (if kept = [] then None else Some kept))"
    unfolding shard_incrementSlidingWindow_slide assms(2) [symmetric]
    by (rule shard_slide_windows) (simp only: assms(2) drop_old [OF assms(1)])
  show "snd (shard_incrementSlidingWindow key ts window now sh) = of_nat (length kept)"
    unfolding shard_incrementSlidingWindow_slide assms(2) [symmetric] shard_slide_def Let_def by (rule snd_conv)
qed



text \<open>Events are identified by the physical part of their timestamp alone: two events that a node counts
  separately in one nanosecond, told apart only by the logical part of their timestamps, reach a peer as the same
  timestamp, and the peer keeps one of them. The node's window has two entries, the peer's one.\<close>

theorem window_events_merge:
  assumes "windows (getShard s key) key = None" and "sint t \<ge> sint (now - window)"
    and "sint t \<ge> sint (now' - window)"
  shows "snd (store_incrementSlidingWindow key t window now'
           (fst (store_incrementSlidingWindow key t window now s))) = 2 \<and>
         windows (getShard (fold apply_window [(key, t), (key, t)] s) key) key = Some [t]"
proof -
  have w: "wget (windows (getShard s key)) key = []" using assms(1) by (simp add: wget_def)
  let ?sh = "fst (shard_incrementSlidingWindow key t window now (getShard s key))"
  have "windows ?sh = (windows (getShard s key))(key \<mapsto> [t])"
    using slide_result(1) [of "getShard s key" key t _ now window] w assms(2) by simp
  then have "snd (shard_incrementSlidingWindow key t window now' ?sh) = 2"
    using slide_result(2) [of ?sh key t _ now' window] assms(3) by simp
  then have "snd (store_incrementSlidingWindow key t window now'
           (fst (store_incrementSlidingWindow key t window now s))) = 2"
    by (simp add: store_incrementSlidingWindow_def)
  moreover have "windows (getShard (fold apply_window [(key, t), (key, t)] s) key) key = Some [t]"
    using w assms(1) by (simp add: store_addWindowTimestamp_def shard_addWindowTimestamp_def Let_def)
  ultimately show ?thesis ..
qed

theorem window_events_merge_witness:
  "windows (getShard (fold apply_window [(''k'', 5), (''k'', 5)] (emptyStore :: nat store)) ''k'') ''k'' = Some [5]"
  using window_events_merge [of "emptyStore :: nat store" "''k''" 6 4 5 6]
  by (simp add: emptyStore_def newStoreShard_def getShard_def del: fold_simps)

end
