(* ===== verification/Msgp.thy ===== *)
theory Msgp
  imports HLC Float64
begin

text \<open>
  The MessagePack library \<^verbatim>\<open>github.com/tinylib/msgp\<close> that the generated codecs call. It is not part of the
  repository, so it is a parameter: \<open>msgp\<close> is the record of its functions and size constants, and \<open>decoder\<close>
  the record of its reading functions, which exist twice, for byte slices and for a buffered
  reader. The locale \<open>msgp_lib\<close> states what the codecs rely on: values are appended and read back, fixed map
  headers and short keys have the MessagePack encoding, and encodings fit in the announced sizes.
  \<open>wire\<close> is an instance, the MessagePack format with every number in its widest form.
\<close>

unbundle bit_operations_syntax

section \<open>The library as a parameter\<close>

text \<open>A byte slice that may be nil, and its contents.\<close>

definition slice :: "bytes option \<Rightarrow> bytes" where
  "slice v = (case v of None \<Rightarrow> [] | Some b \<Rightarrow> b)"

lemma slice_simps [simp]: "slice None = []" "slice (Some b) = b"
  by (simp_all add: slice_def)

record 's decoder =
  dReadMapHeader :: "'s \<Rightarrow> goerr + uint32 \<times> 's"
  dReadMapKey :: "'s \<Rightarrow> goerr + bytes \<times> 's"
  dReadInt64 :: "'s \<Rightarrow> goerr + int64 \<times> 's"
  dReadInt32 :: "'s \<Rightarrow> goerr + int32 \<times> 's"
  dReadUint64 :: "'s \<Rightarrow> goerr + uint64 \<times> 's"
  dReadByte :: "'s \<Rightarrow> goerr + byte \<times> 's"
  dReadString :: "'s \<Rightarrow> goerr + string \<times> 's"
  dReadBytes :: "'s \<Rightarrow> bytes option \<Rightarrow> goerr + bytes option \<times> 's"
  dReadFloat64 :: "'s \<Rightarrow> goerr + float64 \<times> 's"
  dReadArrayHeader :: "'s \<Rightarrow> goerr + uint32 \<times> 's"
  dIsNil :: "'s \<Rightarrow> bool"
  dReadNil :: "'s \<Rightarrow> goerr + 's"
  dSkip :: "'s \<Rightarrow> goerr + 's"

record msgp =
  Require :: "bytes \<Rightarrow> nat \<Rightarrow> bytes"
  AppendInt64 :: "bytes \<Rightarrow> int64 \<Rightarrow> bytes"
  AppendInt32 :: "bytes \<Rightarrow> int32 \<Rightarrow> bytes"
  AppendUint64 :: "bytes \<Rightarrow> uint64 \<Rightarrow> bytes"
  AppendByte :: "bytes \<Rightarrow> byte \<Rightarrow> bytes"
  AppendString :: "bytes \<Rightarrow> string \<Rightarrow> bytes"
  AppendBytes :: "bytes \<Rightarrow> bytes \<Rightarrow> bytes"
  AppendFloat64 :: "bytes \<Rightarrow> float64 \<Rightarrow> bytes"
  AppendArrayHeader :: "bytes \<Rightarrow> uint32 \<Rightarrow> bytes"
  AppendNil :: "bytes \<Rightarrow> bytes"
  Bytes :: "bytes decoder"
  WrapError :: "goerr \<Rightarrow> string list \<Rightarrow> goerr"
  Int64Size :: nat
  Int32Size :: nat
  Uint64Size :: nat
  ByteSize :: nat
  StringPrefixSize :: nat
  BytesPrefixSize :: nat
  Float64Size :: nat
  ArrayHeaderSize :: nat
  NilSize :: nat

text \<open>A call whose error is wrapped and returned.\<close>

definition andthen :: "(goerr + 'a) \<Rightarrow> (goerr \<Rightarrow> goerr) \<Rightarrow> ('a \<Rightarrow> goerr + 'b) \<Rightarrow> goerr + 'b" where
  "andthen r wrap k = (case r of Inl e \<Rightarrow> Inl (wrap e) | Inr x \<Rightarrow> k x)"

lemma andthen_simps [simp]: "andthen (Inl e) wrap k = Inl (wrap e)" "andthen (Inr x) wrap k = k x"
  by (simp_all add: andthen_def)

lemma andthen_cong [fundef_cong]:
  "r = r' \<Longrightarrow> wrap = wrap' \<Longrightarrow> (\<And>x. r' = Inr x \<Longrightarrow> k x = k' x) \<Longrightarrow> andthen r wrap k = andthen r' wrap' k'"
  by (auto simp: andthen_def split: sum.split)

section \<open>What the codecs rely on\<close>

locale msgp_lib =
  fixes L :: msgp
  assumes Require: "Require L b n = b"
    and append: "b \<noteq> [] \<Longrightarrow> AppendInt64 L b i = b @ AppendInt64 L [] i"
      "b \<noteq> [] \<Longrightarrow> AppendInt32 L b j = b @ AppendInt32 L [] j"
      "b \<noteq> [] \<Longrightarrow> AppendUint64 L b u = b @ AppendUint64 L [] u"
      "b \<noteq> [] \<Longrightarrow> AppendByte L b c = b @ AppendByte L [] c"
      "b \<noteq> [] \<Longrightarrow> AppendString L b s = b @ AppendString L [] s"
      "b \<noteq> [] \<Longrightarrow> AppendBytes L b v = b @ AppendBytes L [] v"
      "b \<noteq> [] \<Longrightarrow> AppendFloat64 L b f = b @ AppendFloat64 L [] f"
      "b \<noteq> [] \<Longrightarrow> AppendArrayHeader L b a = b @ AppendArrayHeader L [] a"
      "b \<noteq> [] \<Longrightarrow> AppendNil L b = b @ AppendNil L []"
    and read: "dReadInt64 (Bytes L) (AppendInt64 L [] i @ r) = Inr (i, r)"
      "dReadInt32 (Bytes L) (AppendInt32 L [] j @ r) = Inr (j, r)"
      "dReadUint64 (Bytes L) (AppendUint64 L [] u @ r) = Inr (u, r)"
      "dReadByte (Bytes L) (AppendByte L [] c @ r) = Inr (c, r)"
      "dReadFloat64 (Bytes L) (AppendFloat64 L [] f @ r) = Inr (f, r)"
      "dReadArrayHeader (Bytes L) (AppendArrayHeader L [] a @ r) = Inr (a, r)"
    and read_string: "length s < 2 ^ 32 \<Longrightarrow> dReadString (Bytes L) (AppendString L [] s @ r) = Inr (s, r)"
    and read_bytes: "length v < 2 ^ 32 \<Longrightarrow>
      \<exists>out. dReadBytes (Bytes L) (AppendBytes L [] v @ r) scratch = Inr (out, r) \<and> slice out = v"
    and fixmap: "n < 16 \<Longrightarrow> dReadMapHeader (Bytes L) ((0x80 OR of_nat n) # r) = Inr (of_nat n, r)"
    and fixstr: "length key < 32 \<Longrightarrow>
      dReadMapKey (Bytes L) ((0xA0 OR of_nat (length key)) # key @ r) = Inr (key, r)"
    and not_nil: "n < 16 \<Longrightarrow> \<not> dIsNil (Bytes L) ((0x80 OR of_nat n) # r)"
    and size: "length (AppendInt64 L [] i) \<le> Int64Size L" "length (AppendInt32 L [] j) \<le> Int32Size L"
      "length (AppendUint64 L [] u) \<le> Uint64Size L" "length (AppendByte L [] c) \<le> ByteSize L"
      "length (AppendString L [] s) \<le> StringPrefixSize L + length s"
      "length (AppendBytes L [] v) \<le> BytesPrefixSize L + length v"
      "length (AppendFloat64 L [] f) \<le> Float64Size L" "length (AppendArrayHeader L [] a) \<le> ArrayHeaderSize L"
      "length (AppendNil L []) \<le> NilSize L"
    and array_header_nonempty: "AppendArrayHeader L [] a \<noteq> []"
begin

lemma Append_eq [simp]:
  "AppendInt64 L (x # b) i = x # b @ AppendInt64 L [] i" "AppendInt64 L (b @ x # b') i = b @ x # b' @ AppendInt64 L [] i"
  "AppendInt32 L (x # b) j = x # b @ AppendInt32 L [] j" "AppendInt32 L (b @ x # b') j = b @ x # b' @ AppendInt32 L [] j"
  "AppendUint64 L (x # b) u = x # b @ AppendUint64 L [] u" "AppendUint64 L (b @ x # b') u = b @ x # b' @ AppendUint64 L [] u"
  "AppendByte L (x # b) c = x # b @ AppendByte L [] c" "AppendByte L (b @ x # b') c = b @ x # b' @ AppendByte L [] c"
  "AppendString L (x # b) s = x # b @ AppendString L [] s" "AppendString L (b @ x # b') s = b @ x # b' @ AppendString L [] s"
  "AppendBytes L (x # b) v = x # b @ AppendBytes L [] v" "AppendBytes L (b @ x # b') v = b @ x # b' @ AppendBytes L [] v"
  "AppendFloat64 L (x # b) f = x # b @ AppendFloat64 L [] f" "AppendFloat64 L (b @ x # b') f = b @ x # b' @ AppendFloat64 L [] f"
  "AppendArrayHeader L (x # b) a = x # b @ AppendArrayHeader L [] a"
  "AppendArrayHeader L (b @ x # b') a = b @ x # b' @ AppendArrayHeader L [] a"
  by (subst append; simp)+

lemma read_nonempty:
  assumes "length v < 2 ^ 32" and "v \<noteq> []"
  shows "dReadBytes (Bytes L) (AppendBytes L [] v @ r) scratch = Inr (Some v, r)"
proof -
  obtain out where "dReadBytes (Bytes L) (AppendBytes L [] v @ r) scratch = Inr (out, r)" and "slice out = v"
    using read_bytes [OF assms(1)] by blast
  with assms(2) show ?thesis by (cases out) simp_all
qed

lemma map_header:
  "dReadMapHeader (Bytes L) (0x81 # r) = Inr (1, r)" "dReadMapHeader (Bytes L) (0x82 # r) = Inr (2, r)"
  "dReadMapHeader (Bytes L) (0x83 # r) = Inr (3, r)" "dReadMapHeader (Bytes L) (0x84 # r) = Inr (4, r)"
  "dReadMapHeader (Bytes L) (0x85 # r) = Inr (5, r)" "dReadMapHeader (Bytes L) (0x86 # r) = Inr (6, r)"
  "dReadMapHeader (Bytes L) (0x87 # r) = Inr (7, r)" "dReadMapHeader (Bytes L) (0x88 # r) = Inr (8, r)"
  "dReadMapHeader (Bytes L) (0x89 # r) = Inr (9, r)"
  subgoal using fixmap [of 1 r] by simp
  subgoal using fixmap [of 2 r] by simp
  subgoal using fixmap [of 3 r] by simp
  subgoal using fixmap [of 4 r] by simp
  subgoal using fixmap [of 5 r] by simp
  subgoal using fixmap [of 6 r] by simp
  subgoal using fixmap [of 7 r] by simp
  subgoal using fixmap [of 8 r] by simp
  subgoal using fixmap [of 9 r] by simp
  done

lemma key1: "dReadMapKey (Bytes L) (0xA1 # a # r) = Inr ([a], r)"
  using fixstr [of "[a]" r] by simp

lemma key2: "dReadMapKey (Bytes L) (0xA2 # a # b # r) = Inr ([a, b], r)"
  using fixstr [of "[a, b]" r] by simp

lemma key3: "dReadMapKey (Bytes L) (0xA3 # a # b # c # r) = Inr ([a, b, c], r)"
  using fixstr [of "[a, b, c]" r] by simp

lemmas keys = key1 key2 key3

end

section \<open>The MessagePack format as an instance\<close>

text \<open>Every number in its widest form; byte strings and strings with a 32-bit length.\<close>

definition be :: "nat \<Rightarrow> nat \<Rightarrow> bytes" where
  "be k n = map (\<lambda>i. of_nat (n div 256 ^ i)) (rev [0..<k])"

definition unbe :: "bytes \<Rightarrow> nat" where
  "unbe b = foldl (\<lambda>n x. 256 * n + unat x) 0 b"

definition wire_tag :: "byte \<Rightarrow> nat \<Rightarrow> bytes \<Rightarrow> goerr + nat \<times> bytes" where
  "wire_tag t k b =
     (case b of [] \<Rightarrow> Inl (ErrLib ''short bytes'')
      | x # r \<Rightarrow> if x \<noteq> t then Inl (ErrLib ''bad prefix'')
                 else if length r < k then Inl (ErrLib ''short bytes'') else Inr (unbe (take k r), drop k r))"

definition wire_take :: "goerr + nat \<times> bytes \<Rightarrow> goerr + bytes \<times> bytes" where
  "wire_take h = (case h of Inl e \<Rightarrow> Inl e
     | Inr (n, r) \<Rightarrow> if length r < n then Inl (ErrLib ''short bytes'') else Inr (take n r, drop n r))"

definition wire_head :: "byte \<Rightarrow> byte \<Rightarrow> bytes \<Rightarrow> goerr + nat \<times> bytes" where
  "wire_head hi low b =
     (case b of [] \<Rightarrow> Inl (ErrLib ''short bytes'')
      | x # r \<Rightarrow> if x AND NOT low = hi then Inr (unat (x AND low), r) else Inl (ErrLib ''bad prefix''))"

definition map_fst :: "('a \<Rightarrow> 'b) \<Rightarrow> goerr + 'a \<times> 's \<Rightarrow> goerr + 'b \<times> 's" where
  "map_fst f r = (case r of Inl e \<Rightarrow> Inl e | Inr (x, s) \<Rightarrow> Inr (f x, s))"

definition wire_bytes :: "bytes decoder" where
  "wire_bytes = \<lparr>
     dReadMapHeader = (\<lambda>b. map_fst of_nat (wire_head 0x80 0x0F b)),
     dReadMapKey = (\<lambda>b. wire_take (wire_head 0xA0 0x1F b)),
     dReadInt64 = (\<lambda>b. map_fst of_nat (wire_tag 0xD3 8 b)),
     dReadInt32 = (\<lambda>b. map_fst of_nat (wire_tag 0xD2 4 b)),
     dReadUint64 = (\<lambda>b. map_fst of_nat (wire_tag 0xCF 8 b)),
     dReadByte = (\<lambda>b. map_fst of_nat (wire_tag 0xCC 1 b)),
     dReadString = (\<lambda>b. map_fst string_of_bytes (wire_take (wire_tag 0xDB 4 b))),
     dReadBytes = (\<lambda>b scratch. map_fst Some (wire_take (wire_tag 0xC6 4 b))),
     dReadFloat64 = (\<lambda>b. map_fst (\<lambda>n. F64 (of_nat n)) (wire_tag 0xCB 8 b)),
     dReadArrayHeader = (\<lambda>b. map_fst of_nat (wire_tag 0xDD 4 b)),
     dIsNil = (\<lambda>b. take 1 b = [0xC0]),
     dReadNil = (\<lambda>b. case wire_tag 0xC0 0 b of Inl e \<Rightarrow> Inl e | Inr (_, r) \<Rightarrow> Inr r),
     dSkip = (\<lambda>b. case wire_tag 0xC0 0 b of Inl e \<Rightarrow> Inl e | Inr (_, r) \<Rightarrow> Inr r)\<rparr>"

definition wire :: msgp where
  "wire = \<lparr>
     Require = (\<lambda>b n. b),
     AppendInt64 = (\<lambda>b v. b @ 0xD3 # be 8 (unat v)),
     AppendInt32 = (\<lambda>b v. b @ 0xD2 # be 4 (unat v)),
     AppendUint64 = (\<lambda>b v. b @ 0xCF # be 8 (unat v)),
     AppendByte = (\<lambda>b v. b @ 0xCC # be 1 (unat v)),
     AppendString = (\<lambda>b s. b @ 0xDB # be 4 (length s) @ bytes_of_string s),
     AppendBytes = (\<lambda>b v. b @ 0xC6 # be 4 (length v) @ v),
     AppendFloat64 = (\<lambda>b f. b @ 0xCB # be 8 (unat (Float64bits f))),
     AppendArrayHeader = (\<lambda>b v. b @ 0xDD # be 4 (unat v)),
     AppendNil = (\<lambda>b. b @ [0xC0]),
     Bytes = wire_bytes,
     WrapError = (\<lambda>e ctx. e),
     Int64Size = 9, Int32Size = 5, Uint64Size = 9, ByteSize = 2, StringPrefixSize = 5,
     BytesPrefixSize = 5, Float64Size = 9, ArrayHeaderSize = 5, NilSize = 1\<rparr>"

lemma length_be [simp]: "length (be k n) = k"
  by (simp add: be_def)

lemma be_Suc: "be (Suc k) n = of_nat (n div 256 ^ k) # be k n"
  by (simp add: be_def)

lemma unbe_Cons: "unbe (x # b) = unat x * 256 ^ length b + unbe b"
proof -
  have "foldl (\<lambda>n x. 256 * n + unat x) m b = m * 256 ^ length b + foldl (\<lambda>n x. 256 * n + unat x) 0 b" for m
    by (induction b rule: rev_induct) (simp_all add: algebra_simps)
  from this [of "unat x"] show ?thesis by (simp add: unbe_def)
qed

lemma unbe_be: "unbe (be k n) = n mod 256 ^ k"
proof (induction k)
  case 0
  then show ?case by (simp add: be_def unbe_def)
next
  case (Suc k)
  have "unat (of_nat (n div 256 ^ k) :: byte) = n div 256 ^ k mod 256"
    by (simp add: unat_of_nat)
  then have "unbe (be (Suc k) n) = n div 256 ^ k mod 256 * 256 ^ k + n mod 256 ^ k"
    by (simp add: be_Suc unbe_Cons Suc)
  also have "\<dots> = n mod 256 ^ Suc k"
    unfolding power_Suc2 mod_mult2_eq by (simp add: mult.commute)
  finally show ?case .
qed

lemma unbe_be_less: "n < 256 ^ k \<Longrightarrow> unbe (be k n) = n"
  by (simp add: unbe_be)

lemma length_bytes_of_string [simp]: "length (bytes_of_string s) = length s"
  by (simp add: bytes_of_string_def)

lemma char_of_byte: "char_of (unat (of_char c :: byte)) = c"
proof -
  have "unat (of_nat (of_char c) :: byte) = of_char c"
    by (simp add: unat_of_nat)
  then show ?thesis by (simp only: of_nat_of_char char_of_char)
qed

lemma string_bytes [simp]: "string_of_bytes (bytes_of_string s) = s"
  by (induction s) (simp_all add: string_of_bytes_def bytes_of_string_def char_of_byte)

lemma wire_tag_be [simp]: "n < 256 ^ k \<Longrightarrow> wire_tag t k (t # be k n @ r) = Inr (n, r)"
  by (simp add: wire_tag_def unbe_be_less)

lemma fixmap_bits:
  assumes "n < 16"
  shows "(0x80 OR of_nat n) AND NOT 0x0F = (0x80 :: byte)" "unat ((0x80 OR of_nat n) AND (0x0F :: byte)) = n"
proof -
  have "list_all (\<lambda>n. (0x80 OR of_nat n) AND NOT 0x0F = (0x80 :: byte) \<and>
      unat ((0x80 OR of_nat n) AND (0x0F :: byte)) = n) [0..<16]"
    by code_simp
  with assms show "(0x80 OR of_nat n) AND NOT 0x0F = (0x80 :: byte)" "unat ((0x80 OR of_nat n) AND (0x0F :: byte)) = n"
    unfolding list_all_iff by simp_all
qed

lemma fixstr_bits:
  assumes "n < 32"
  shows "(0xA0 OR of_nat n) AND NOT 0x1F = (0xA0 :: byte)" "unat ((0xA0 OR of_nat n) AND (0x1F :: byte)) = n"
proof -
  have "list_all (\<lambda>n. (0xA0 OR of_nat n) AND NOT 0x1F = (0xA0 :: byte) \<and>
      unat ((0xA0 OR of_nat n) AND (0x1F :: byte)) = n) [0..<32]"
    by code_simp
  with assms show "(0xA0 OR of_nat n) AND NOT 0x1F = (0xA0 :: byte)" "unat ((0xA0 OR of_nat n) AND (0x1F :: byte)) = n"
    unfolding list_all_iff by simp_all
qed

lemma unat_less_pow:
  "unat (w :: 64 word) < 256 ^ 8" "unat (v :: 32 word) < 256 ^ 4" "unat (b :: byte) < 256 ^ Suc 0"
  using unsigned_less [of w] unsigned_less [of v] unsigned_less [of b] by simp_all

lemmas wire_tag_word = wire_tag_be [OF unat_less_pow(1)] wire_tag_be [OF unat_less_pow(2)]
  wire_tag_be [OF unat_less_pow(3)]

interpretation wire: msgp_lib wire
proof
  fix n :: nat and r :: bytes
  assume n: "n < 16"
  have "wire_head 0x80 0x0F ((0x80 OR of_nat n) # r) = Inr (n, r)"
    using fixmap_bits [OF n] by (simp add: wire_head_def)
  then show "dReadMapHeader (Bytes wire) ((0x80 OR of_nat n) # r) = Inr (of_nat n, r)"
    by (simp add: wire_def wire_bytes_def map_fst_def)
  show "\<not> dIsNil (Bytes wire) ((0x80 OR of_nat n) # r)"
    using fixmap_bits [OF n] by (auto simp: wire_def wire_bytes_def)
next
  fix key r :: bytes
  assume k: "length key < 32"
  have "wire_head 0xA0 0x1F ((0xA0 OR of_nat (length key)) # key @ r) = Inr (length key, key @ r)"
    using fixstr_bits [OF k] by (simp add: wire_head_def)
  then show "dReadMapKey (Bytes wire) ((0xA0 OR of_nat (length key)) # key @ r) = Inr (key, r)"
    by (simp add: wire_def wire_bytes_def wire_take_def)
qed (simp_all add: wire_def wire_bytes_def map_fst_def wire_take_def wire_tag_word)

section \<open>Reading from a connection\<close>

text \<open>The reader the server wraps around a connection, as a decoder of the bytes that are still to come: it reads what the
  decoder of byte slices reads, reports the end of the stream, and never gives bytes back.\<close>

locale msgp_reader = msgp_lib L for L +
  fixes R :: "bytes decoder"
  assumes reader: "msgp_lib (L\<lparr>Bytes := R\<rparr>)"
    and eof: "\<exists>e. dReadMapHeader R [] = Inl e"
    and header_consumes: "dReadMapHeader R s = Inr (n, s') \<Longrightarrow> length s' < length s"
    and consumes: "dReadMapKey R s = Inr (k, s') \<Longrightarrow> length s' \<le> length s"
      "dReadUint64 R s = Inr (u, s') \<Longrightarrow> length s' \<le> length s"
      "dReadString R s = Inr (v, s') \<Longrightarrow> length s' \<le> length s"
      "dReadBytes R s scratch = Inr (w, s') \<Longrightarrow> length s' \<le> length s"
      "dReadArrayHeader R s = Inr (a, s') \<Longrightarrow> length s' \<le> length s"
      "dReadNil R s = Inr s' \<Longrightarrow> length s' \<le> length s"
      "dSkip R s = Inr s' \<Longrightarrow> length s' \<le> length s"

sublocale msgp_reader \<subseteq> rd: msgp_lib "L\<lparr>Bytes := R\<rparr>"
  by (rule reader)

lemma wire_tag_length: "wire_tag t k b = Inr (n, r) \<Longrightarrow> length r < length b"
  by (auto simp: wire_tag_def split: list.splits if_splits)

lemma wire_head_length: "wire_head hi low b = Inr (n, r) \<Longrightarrow> length r < length b"
  by (auto simp: wire_head_def split: list.splits if_splits)

lemma wire_take_length: "wire_take h = Inr (v, r) \<Longrightarrow> \<exists>n r'. h = Inr (n, r') \<and> length r \<le> length r'"
  by (auto simp: wire_take_def split: sum.splits prod.splits if_splits)

lemma map_fst_Inr: "map_fst f h = Inr (v, r) \<longleftrightarrow> (\<exists>x. h = Inr (x, r) \<and> v = f x)"
  by (auto simp: map_fst_def split: sum.splits prod.splits)

lemma wire_Bytes: "Bytes wire = wire_bytes" "wire\<lparr>Bytes := wire_bytes\<rparr> = wire"
  by (simp_all add: wire_def)

interpretation wire_rd: msgp_reader wire wire_bytes
proof (rule msgp_reader.intro [OF wire.msgp_lib_axioms], rule msgp_reader_axioms.intro)
  show "msgp_lib (wire\<lparr>Bytes := wire_bytes\<rparr>)" by (simp add: wire_Bytes wire.msgp_lib_axioms)
  show "\<exists>e. dReadMapHeader wire_bytes [] = Inl e"
    by (simp add: wire_bytes_def wire_head_def map_fst_def)
  show "dReadMapHeader wire_bytes s = Inr (n, s') \<Longrightarrow> length s' < length s" for n s s'
    by (auto simp: wire_bytes_def map_fst_Inr dest: wire_head_length)
qed (force simp: wire_bytes_def map_fst_Inr split: sum.splits prod.splits
    dest!: wire_take_length dest: wire_tag_length wire_head_length)+

end
