(* ===== verification/Codecs.thy ===== *)
theory Codecs
  imports Msgp
begin

text \<open>
  The generated MessagePack codecs: \<^verbatim>\<open>src/hlc_gen.go\<close>, \<^verbatim>\<open>src/log_gen.go\<close>, \<^verbatim>\<open>src/transport_gen.go\<close> and
  the message type of \<^verbatim>\<open>src/types_gen.go\<close>, with the types they encode. Each type has \<open>_MarshalMsg\<close>, \<open>_UnmarshalMsg\<close> and
  \<open>_Msgsize\<close>. \<^verbatim>\<open>DecodeMsg\<close> and \<^verbatim>\<open>UnmarshalMsg\<close> are the same code over two kinds of input, a buffered reader
  and a byte slice: \<open>_DecodeMsg\<close> takes the reading functions as an argument and \<open>_UnmarshalMsg\<close> is its
  instance for byte slices. The loop over the fields of a map is a function \<open>_fields\<close> that recurses on the
  number of fields left. A decoder that fails returns only its error, since every caller drops the
  partly decoded value. That decoding inverts encoding and that \<^verbatim>\<open>Msgsize\<close> bounds the
  encoding's length is shown in the theory \<^verbatim>\<open>Codec_Laws\<close>.
\<close>

unbundle bit_operations_syntax

section \<open>Types\<close>

type_synonym MsgType = byte

definition MsgSet :: MsgType where "MsgSet = 0"
definition MsgIncr :: MsgType where "MsgIncr = 1"
definition MsgMetric :: MsgType where "MsgMetric = 2"
definition MsgWindow :: MsgType where "MsgWindow = 3"
definition MsgDelete :: MsgType where "MsgDelete = 4"

record LogEntry =
  e_Seq :: uint64
  e_TS :: Timestamp
  e_BornAt :: int64
  e_Op :: MsgType
  e_Key :: string
  e_NodeID :: string
  e_Value :: "bytes option"
  e_Delta :: float64
  e_TTL :: int64

record Handshake =
  h_LastSeenSeq :: uint64
  h_AuthToken :: string

record Batch =
  b_FromNode :: string
  b_Entries :: "bytes list"
  b_Handshake :: "Handshake option"

text \<open>The values a Go variable of these types starts with.\<close>

definition zero_Timestamp :: Timestamp where
  "zero_Timestamp = Timestamp 0 0"

definition zero_LogEntry :: LogEntry where
  "zero_LogEntry = \<lparr>e_Seq = 0, e_TS = zero_Timestamp, e_BornAt = 0, e_Op = 0, e_Key = '''', e_NodeID = '''',
     e_Value = None, e_Delta = f_zero, e_TTL = 0\<rparr>"

definition zero_Handshake :: Handshake where
  "zero_Handshake = \<lparr>h_LastSeenSeq = 0, h_AuthToken = ''''\<rparr>"

definition zero_Batch :: Batch where
  "zero_Batch = \<lparr>b_FromNode = '''', b_Entries = [], b_Handshake = None\<rparr>"

section \<open>Timestamp\<close>

definition Timestamp_Msgsize :: "msgp \<Rightarrow> Timestamp \<Rightarrow> nat" where
  "Timestamp_Msgsize L z = 1 + 2 + Int64Size L + 2 + Int32Size L"

definition Timestamp_MarshalMsg :: "msgp \<Rightarrow> Timestamp \<Rightarrow> bytes \<Rightarrow> bytes" where
  "Timestamp_MarshalMsg L z b =
     (let o1 = Require L b (Timestamp_Msgsize L z) @ [0x82, 0xA1, 0x70];
          o2 = AppendInt64 L o1 (Physical z) @ [0xA1, 0x6C]
      in AppendInt32 L o2 (Logical z))"

fun Timestamp_fields :: "msgp \<Rightarrow> 's decoder \<Rightarrow> nat \<Rightarrow> Timestamp \<Rightarrow> 's \<Rightarrow> goerr + Timestamp \<times> 's" where
  "Timestamp_fields L D 0 z s = Inr (z, s)"
| "Timestamp_fields L D (Suc n) z s =
     andthen (dReadMapKey D s) (\<lambda>e. WrapError L e []) (\<lambda>(field, s).
       if string_of_bytes field = ''p'' then
         andthen (dReadInt64 D s) (\<lambda>e. WrapError L e [''Physical''])
           (\<lambda>(v, s). Timestamp_fields L D n (Timestamp v (Logical z)) s)
       else if string_of_bytes field = ''l'' then
         andthen (dReadInt32 D s) (\<lambda>e. WrapError L e [''Logical''])
           (\<lambda>(v, s). Timestamp_fields L D n (Timestamp (Physical z) v) s)
       else andthen (dSkip D s) (\<lambda>e. WrapError L e []) (\<lambda>s. Timestamp_fields L D n z s))"

definition Timestamp_DecodeMsg :: "msgp \<Rightarrow> 's decoder \<Rightarrow> Timestamp \<Rightarrow> 's \<Rightarrow> goerr + Timestamp \<times> 's" where
  "Timestamp_DecodeMsg L D z s =
     andthen (dReadMapHeader D s) (\<lambda>e. WrapError L e []) (\<lambda>(n, s). Timestamp_fields L D (unat n) z s)"

definition Timestamp_UnmarshalMsg :: "msgp \<Rightarrow> Timestamp \<Rightarrow> bytes \<Rightarrow> goerr + Timestamp \<times> bytes" where
  "Timestamp_UnmarshalMsg L = Timestamp_DecodeMsg L (Bytes L)"

section \<open>MsgType\<close>

definition MsgType_Msgsize :: "msgp \<Rightarrow> MsgType \<Rightarrow> nat" where
  "MsgType_Msgsize L z = ByteSize L"

definition MsgType_MarshalMsg :: "msgp \<Rightarrow> MsgType \<Rightarrow> bytes \<Rightarrow> bytes" where
  "MsgType_MarshalMsg L z b = AppendByte L (Require L b (MsgType_Msgsize L z)) z"

definition MsgType_DecodeMsg :: "msgp \<Rightarrow> 's decoder \<Rightarrow> 's \<Rightarrow> goerr + MsgType \<times> 's" where
  "MsgType_DecodeMsg L D s = andthen (dReadByte D s) (\<lambda>e. WrapError L e []) (\<lambda>(v, s). Inr (v, s))"

definition MsgType_UnmarshalMsg :: "msgp \<Rightarrow> bytes \<Rightarrow> goerr + MsgType \<times> bytes" where
  "MsgType_UnmarshalMsg L = MsgType_DecodeMsg L (Bytes L)"

section \<open>LogEntry\<close>

definition LogEntry_Msgsize :: "msgp \<Rightarrow> LogEntry \<Rightarrow> nat" where
  "LogEntry_Msgsize L z = 1 + 2 + Uint64Size L + 2 + Timestamp_Msgsize L (e_TS z) + 3 + Int64Size L
     + 2 + MsgType_Msgsize L (e_Op z) + 2 + StringPrefixSize L + length (e_Key z)
     + 2 + StringPrefixSize L + length (e_NodeID z) + 2 + BytesPrefixSize L + length (slice (e_Value z))
     + 2 + Float64Size L + 4 + Int64Size L"

text \<open>The number of fields after the omitted ones are taken off; a float is omitted when it equals zero,
  which minus zero does too.\<close>

definition LogEntry_len :: "LogEntry \<Rightarrow> uint32" where
  "LogEntry_len z = 9 - of_bool (e_NodeID z = '''') - of_bool (e_Value z = None)
     - of_bool (f_eq (e_Delta z) f_zero) - of_bool (e_TTL z = 0)"

definition LogEntry_MarshalMsg :: "msgp \<Rightarrow> LogEntry \<Rightarrow> bytes \<Rightarrow> bytes" where
  "LogEntry_MarshalMsg L z b =
     (let b = Require L b (LogEntry_Msgsize L z) @ [0x80 OR ucast (LogEntry_len z)]
      in if LogEntry_len z = 0 then b
         else let b = AppendUint64 L (b @ [0xA1, 0x73]) (e_Seq z);
                  b = Timestamp_MarshalMsg L (e_TS z) (b @ [0xA1, 0x74]);
                  b = AppendInt64 L (b @ [0xA2, 0x62, 0x61]) (e_BornAt z);
                  b = MsgType_MarshalMsg L (e_Op z) (b @ [0xA1, 0x6F]);
                  b = AppendString L (b @ [0xA1, 0x6B]) (e_Key z);
                  b = (if e_NodeID z = '''' then b else AppendString L (b @ [0xA1, 0x6E]) (e_NodeID z));
                  b = (if e_Value z = None then b else AppendBytes L (b @ [0xA1, 0x76]) (slice (e_Value z)));
                  b = (if f_eq (e_Delta z) f_zero then b else AppendFloat64 L (b @ [0xA1, 0x64]) (e_Delta z))
              in if e_TTL z = 0 then b else AppendInt64 L (b @ [0xA3, 0x74, 0x74, 0x6C]) (e_TTL z))"

fun LogEntry_fields :: "msgp \<Rightarrow> nat \<Rightarrow> LogEntry \<Rightarrow> bytes \<Rightarrow> goerr + LogEntry \<times> bytes" where
  "LogEntry_fields L 0 z s = Inr (z, s)"
| "LogEntry_fields L (Suc n) z s =
     andthen (dReadMapKey (Bytes L) s) (\<lambda>e. WrapError L e []) (\<lambda>(field, s).
       if string_of_bytes field = ''s'' then
         andthen (dReadUint64 (Bytes L) s) (\<lambda>e. WrapError L e [''Seq''])
           (\<lambda>(v, s). LogEntry_fields L n (z\<lparr>e_Seq := v\<rparr>) s)
       else if string_of_bytes field = ''t'' then
         andthen (Timestamp_UnmarshalMsg L (e_TS z) s) (\<lambda>e. WrapError L e [''TS''])
           (\<lambda>(v, s). LogEntry_fields L n (z\<lparr>e_TS := v\<rparr>) s)
       else if string_of_bytes field = ''ba'' then
         andthen (dReadInt64 (Bytes L) s) (\<lambda>e. WrapError L e [''BornAt''])
           (\<lambda>(v, s). LogEntry_fields L n (z\<lparr>e_BornAt := v\<rparr>) s)
       else if string_of_bytes field = ''o'' then
         andthen (MsgType_UnmarshalMsg L s) (\<lambda>e. WrapError L e [''Op''])
           (\<lambda>(v, s). LogEntry_fields L n (z\<lparr>e_Op := v\<rparr>) s)
       else if string_of_bytes field = ''k'' then
         andthen (dReadString (Bytes L) s) (\<lambda>e. WrapError L e [''Key''])
           (\<lambda>(v, s). LogEntry_fields L n (z\<lparr>e_Key := v\<rparr>) s)
       else if string_of_bytes field = ''n'' then
         andthen (dReadString (Bytes L) s) (\<lambda>e. WrapError L e [''NodeID''])
           (\<lambda>(v, s). LogEntry_fields L n (z\<lparr>e_NodeID := v\<rparr>) s)
       else if string_of_bytes field = ''v'' then
         andthen (dReadBytes (Bytes L) s (e_Value z)) (\<lambda>e. WrapError L e [''Value''])
           (\<lambda>(v, s). LogEntry_fields L n (z\<lparr>e_Value := v\<rparr>) s)
       else if string_of_bytes field = ''d'' then
         andthen (dReadFloat64 (Bytes L) s) (\<lambda>e. WrapError L e [''Delta''])
           (\<lambda>(v, s). LogEntry_fields L n (z\<lparr>e_Delta := v\<rparr>) s)
       else if string_of_bytes field = ''ttl'' then
         andthen (dReadInt64 (Bytes L) s) (\<lambda>e. WrapError L e [''TTL''])
           (\<lambda>(v, s). LogEntry_fields L n (z\<lparr>e_TTL := v\<rparr>) s)
       else andthen (dSkip (Bytes L) s) (\<lambda>e. WrapError L e []) (\<lambda>s. LogEntry_fields L n z s))"

definition LogEntry_UnmarshalMsg :: "msgp \<Rightarrow> LogEntry \<Rightarrow> bytes \<Rightarrow> goerr + LogEntry \<times> bytes" where
  "LogEntry_UnmarshalMsg L z s =
     andthen (dReadMapHeader (Bytes L) s) (\<lambda>e. WrapError L e []) (\<lambda>(n, s). LogEntry_fields L (unat n) z s)"

section \<open>Handshake\<close>

definition Handshake_Msgsize :: "msgp \<Rightarrow> Handshake \<Rightarrow> nat" where
  "Handshake_Msgsize L z = 1 + 3 + Uint64Size L + 3 + StringPrefixSize L + length (h_AuthToken z)"

definition Handshake_len :: "Handshake \<Rightarrow> uint32" where
  "Handshake_len z = 2 - of_bool (h_AuthToken z = '''')"

text \<open>The body that \<^verbatim>\<open>Handshake.MarshalMsg\<close> and \<^verbatim>\<open>Batch.MarshalMsg\<close> both contain.\<close>

definition Handshake_body :: "msgp \<Rightarrow> Handshake \<Rightarrow> bytes \<Rightarrow> bytes" where
  "Handshake_body L z b =
     (let b = b @ [0x80 OR ucast (Handshake_len z)]
      in if Handshake_len z = 0 then b
         else let b = AppendUint64 L (b @ [0xA2, 0x6C, 0x73]) (h_LastSeenSeq z)
              in if h_AuthToken z = '''' then b else AppendString L (b @ [0xA2, 0x61, 0x74]) (h_AuthToken z))"

definition Handshake_MarshalMsg :: "msgp \<Rightarrow> Handshake \<Rightarrow> bytes \<Rightarrow> bytes" where
  "Handshake_MarshalMsg L z b = Handshake_body L z (Require L b (Handshake_Msgsize L z))"

text \<open>The argument \<open>ctx\<close> is the error context of an enclosing value.\<close>

fun Handshake_fields ::
  "msgp \<Rightarrow> 's decoder \<Rightarrow> string list \<Rightarrow> nat \<Rightarrow> Handshake \<Rightarrow> 's \<Rightarrow> goerr + Handshake \<times> 's" where
  "Handshake_fields L D ctx 0 z s = Inr (z, s)"
| "Handshake_fields L D ctx (Suc n) z s =
     andthen (dReadMapKey D s) (\<lambda>e. WrapError L e ctx) (\<lambda>(field, s).
       if string_of_bytes field = ''ls'' then
         andthen (dReadUint64 D s) (\<lambda>e. WrapError L e (ctx @ [''LastSeenSeq'']))
           (\<lambda>(v, s). Handshake_fields L D ctx n (z\<lparr>h_LastSeenSeq := v\<rparr>) s)
       else if string_of_bytes field = ''at'' then
         andthen (dReadString D s) (\<lambda>e. WrapError L e (ctx @ [''AuthToken'']))
           (\<lambda>(v, s). Handshake_fields L D ctx n (z\<lparr>h_AuthToken := v\<rparr>) s)
       else andthen (dSkip D s) (\<lambda>e. WrapError L e ctx) (\<lambda>s. Handshake_fields L D ctx n z s))"

definition Handshake_map ::
  "msgp \<Rightarrow> 's decoder \<Rightarrow> string list \<Rightarrow> Handshake \<Rightarrow> 's \<Rightarrow> goerr + Handshake \<times> 's" where
  "Handshake_map L D ctx z s =
     andthen (dReadMapHeader D s) (\<lambda>e. WrapError L e ctx) (\<lambda>(n, s). Handshake_fields L D ctx (unat n) z s)"

definition Handshake_DecodeMsg :: "msgp \<Rightarrow> 's decoder \<Rightarrow> Handshake \<Rightarrow> 's \<Rightarrow> goerr + Handshake \<times> 's" where
  "Handshake_DecodeMsg L D = Handshake_map L D []"

definition Handshake_UnmarshalMsg :: "msgp \<Rightarrow> Handshake \<Rightarrow> bytes \<Rightarrow> goerr + Handshake \<times> bytes" where
  "Handshake_UnmarshalMsg L = Handshake_DecodeMsg L (Bytes L)"

section \<open>Batch\<close>

definition Batch_Msgsize :: "msgp \<Rightarrow> Batch \<Rightarrow> nat" where
  "Batch_Msgsize L z = 1 + 2 + StringPrefixSize L + length (b_FromNode z) + 2 + ArrayHeaderSize L
     + (\<Sum>v \<leftarrow> b_Entries z. BytesPrefixSize L + length v) + 2
     + (case b_Handshake z of None \<Rightarrow> NilSize L
        | Some h \<Rightarrow> 1 + 3 + Uint64Size L + 3 + StringPrefixSize L + length (h_AuthToken h))"

definition Batch_len :: "Batch \<Rightarrow> uint32" where
  "Batch_len z = 3 - of_bool (b_Handshake z = None)"

definition Batch_MarshalMsg :: "msgp \<Rightarrow> Batch \<Rightarrow> bytes \<Rightarrow> bytes" where
  "Batch_MarshalMsg L z b =
     (let b = Require L b (Batch_Msgsize L z) @ [0x80 OR ucast (Batch_len z)]
      in if Batch_len z = 0 then b
         else let b = AppendString L (b @ [0xA1, 0x66]) (b_FromNode z);
                  b = AppendArrayHeader L (b @ [0xA1, 0x65]) (of_nat (length (b_Entries z)));
                  b = foldl (AppendBytes L) b (b_Entries z)
              in case b_Handshake z of
                   None \<Rightarrow> b
                 | Some h \<Rightarrow> Handshake_body L h (b @ [0xA1, 0x68]))"

text \<open>Reading the elements of \<^verbatim>\<open>Entries\<close>; the scratch space the decoder may reuse has no influence on the
  contents.\<close>

fun Batch_entries :: "msgp \<Rightarrow> 's decoder \<Rightarrow> nat \<Rightarrow> nat \<Rightarrow> 's \<Rightarrow> goerr + bytes list \<times> 's" where
  "Batch_entries L D i 0 s = Inr ([], s)"
| "Batch_entries L D i (Suc n) s =
     andthen (dReadBytes D s None) (\<lambda>e. WrapError L e [''Entries'', fmt_nat i])
       (\<lambda>(v, s). andthen (Batch_entries L D (Suc i) n s) (\<lambda>e. e) (\<lambda>(vs, s). Inr (slice v # vs, s)))"

text \<open>\<open>nil_wrap\<close> is what is done with the error of \<^verbatim>\<open>ReadNil\<close>, the one place where the two decoders
  differ.\<close>

fun Batch_fields ::
  "msgp \<Rightarrow> 's decoder \<Rightarrow> (goerr \<Rightarrow> goerr) \<Rightarrow> nat \<Rightarrow> Batch \<Rightarrow> 's \<Rightarrow> goerr + Batch \<times> 's" where
  "Batch_fields L D nil_wrap 0 z s = Inr (z, s)"
| "Batch_fields L D nil_wrap (Suc n) z s =
     andthen (dReadMapKey D s) (\<lambda>e. WrapError L e []) (\<lambda>(field, s).
       if string_of_bytes field = ''f'' then
         andthen (dReadString D s) (\<lambda>e. WrapError L e [''FromNode''])
           (\<lambda>(v, s). Batch_fields L D nil_wrap n (z\<lparr>b_FromNode := v\<rparr>) s)
       else if string_of_bytes field = ''e'' then
         andthen (dReadArrayHeader D s) (\<lambda>e. WrapError L e [''Entries'']) (\<lambda>(k, s).
           andthen (Batch_entries L D 0 (unat k) s) (\<lambda>e. e)
             (\<lambda>(vs, s). Batch_fields L D nil_wrap n (z\<lparr>b_Entries := vs\<rparr>) s))
       else if string_of_bytes field = ''h'' then
         (if dIsNil D s then
            andthen (dReadNil D s) nil_wrap
              (\<lambda>s. Batch_fields L D nil_wrap n (z\<lparr>b_Handshake := None\<rparr>) s)
          else
            andthen (Handshake_map L D [''Handshake'']
                (case b_Handshake z of None \<Rightarrow> zero_Handshake | Some h \<Rightarrow> h) s) (\<lambda>e. e)
              (\<lambda>(h, s). Batch_fields L D nil_wrap n (z\<lparr>b_Handshake := Some h\<rparr>) s))
       else andthen (dSkip D s) (\<lambda>e. WrapError L e []) (\<lambda>s. Batch_fields L D nil_wrap n z s))"

definition Batch_DecodeMsg :: "msgp \<Rightarrow> 's decoder \<Rightarrow> Batch \<Rightarrow> 's \<Rightarrow> goerr + Batch \<times> 's" where
  "Batch_DecodeMsg L D z s =
     andthen (dReadMapHeader D s) (\<lambda>e. WrapError L e [])
       (\<lambda>(n, s). Batch_fields L D (\<lambda>e. WrapError L e [''Handshake'']) (unat n) z s)"

definition Batch_UnmarshalMsg :: "msgp \<Rightarrow> Batch \<Rightarrow> bytes \<Rightarrow> goerr + Batch \<times> bytes" where
  "Batch_UnmarshalMsg L z s =
     andthen (dReadMapHeader (Bytes L) s) (\<lambda>e. WrapError L e [])
       (\<lambda>(n, s). Batch_fields L (Bytes L) (\<lambda>e. e) (unat n) z s)"

end
