(* ===== verification/Codec_Laws.thy ===== *)
theory Codec_Laws
  imports Codecs
begin

text \<open>
  Round trips and size bounds of the codecs, for every MessagePack library that satisfies the laws of
  \<^verbatim>\<open>msgp_lib\<close>.
\<close>

unbundle bit_operations_syntax

lemma field_names [simp]:
  "string_of_bytes [0x70] = ''p''" "string_of_bytes [0x6C] = ''l''" "string_of_bytes [0x73] = ''s''"
  "string_of_bytes [0x74] = ''t''" "string_of_bytes [0x62, 0x61] = ''ba''" "string_of_bytes [0x6F] = ''o''"
  "string_of_bytes [0x6B] = ''k''" "string_of_bytes [0x6E] = ''n''" "string_of_bytes [0x76] = ''v''"
  "string_of_bytes [0x64] = ''d''" "string_of_bytes [0x74, 0x74, 0x6C] = ''ttl''"
  "string_of_bytes [0x6C, 0x73] = ''ls''" "string_of_bytes [0x61, 0x74] = ''at''"
  "string_of_bytes [0x66] = ''f''" "string_of_bytes [0x65] = ''e''" "string_of_bytes [0x68] = ''h''"
  by code_simp+

text \<open>The sizes for which the library's 32-bit lengths suffice.\<close>

definition batch_small :: "Batch \<Rightarrow> bool" where
  "batch_small z \<longleftrightarrow> length (b_FromNode z) < 2 ^ 32 \<and> length (b_Entries z) < 2 ^ 32 \<and>
     (\<forall>v \<in> set (b_Entries z). length v < 2 ^ 32) \<and>
     (case b_Handshake z of None \<Rightarrow> True | Some h \<Rightarrow> length (h_AuthToken h) < 2 ^ 32)"

definition entry_small :: "LogEntry \<Rightarrow> bool" where
  "entry_small z \<longleftrightarrow> length (e_Key z) < 2 ^ 32 \<and> length (e_NodeID z) < 2 ^ 32 \<and> length (slice (e_Value z)) < 2 ^ 32"

context msgp_lib
begin

section \<open>Timestamp and MsgType\<close>

lemma Timestamp_Marshal_append:
  "Timestamp_MarshalMsg L z b = b @ [0x82, 0xA1, 0x70] @ AppendInt64 L [] (Physical z) @ [0xA1, 0x6C]
     @ AppendInt32 L [] (Logical z)"
  by (simp add: Timestamp_MarshalMsg_def Require)

lemma Timestamp_field:
  "n > 0 \<Longrightarrow> Timestamp_fields L (Bytes L) n z (0xA1 # 0x70 # AppendInt64 L [] p @ r)
     = Timestamp_fields L (Bytes L) (n - 1) (Timestamp p (Logical z)) r"
  "n > 0 \<Longrightarrow> Timestamp_fields L (Bytes L) n z (0xA1 # 0x6C # AppendInt32 L [] l @ r)
     = Timestamp_fields L (Bytes L) (n - 1) (Timestamp (Physical z) l) r"
  by (cases n; simp add: keys read)+

lemma Timestamp_roundtrip:
  "Timestamp_UnmarshalMsg L z0 (0x82 # 0xA1 # 0x70 # AppendInt64 L [] p @ 0xA1 # 0x6C # AppendInt32 L [] l @ r)
     = Inr (Timestamp p l, r)"
  by (simp add: Timestamp_UnmarshalMsg_def Timestamp_DecodeMsg_def map_header Timestamp_field del: Timestamp_fields.simps(2))

lemma Timestamp_size: "length (Timestamp_MarshalMsg L z b) \<le> length b + Timestamp_Msgsize L z"
  using size(1) [of "Physical z"] size(2) [of "Logical z"]
  by (simp add: Timestamp_Marshal_append Timestamp_Msgsize_def)

lemma MsgType_Marshal_append: "b \<noteq> [] \<Longrightarrow> MsgType_MarshalMsg L z b = b @ AppendByte L [] z"
  by (simp add: MsgType_MarshalMsg_def Require append)

lemma MsgType_roundtrip: "MsgType_UnmarshalMsg L (AppendByte L [] z @ r) = Inr (z, r)"
  by (simp add: MsgType_UnmarshalMsg_def MsgType_DecodeMsg_def read)

section \<open>LogEntry\<close>

text \<open>One round of the decoding loop for each field.\<close>

lemma LogEntry_field_s:
  "n > 0 \<Longrightarrow> LogEntry_fields L n z (0xA1 # 0x73 # AppendUint64 L [] v @ r) = LogEntry_fields L (n - 1) (z\<lparr>e_Seq := v\<rparr>) r"
  by (cases n) (simp_all add: keys read)

lemma LogEntry_field_t:
  "n > 0 \<Longrightarrow> LogEntry_fields L n z (0xA1 # 0x74 # 0x82 # 0xA1 # 0x70 # AppendInt64 L [] p @ 0xA1 # 0x6C # AppendInt32 L [] l @ r)
     = LogEntry_fields L (n - 1) (z\<lparr>e_TS := Timestamp p l\<rparr>) r"
  by (cases n) (simp_all add: keys Timestamp_roundtrip)

lemma LogEntry_field_ba:
  "n > 0 \<Longrightarrow> LogEntry_fields L n z (0xA2 # 0x62 # 0x61 # AppendInt64 L [] v @ r) = LogEntry_fields L (n - 1) (z\<lparr>e_BornAt := v\<rparr>) r"
  by (cases n) (simp_all add: keys read)

lemma LogEntry_field_o:
  "n > 0 \<Longrightarrow> LogEntry_fields L n z (0xA1 # 0x6F # AppendByte L [] v @ r) = LogEntry_fields L (n - 1) (z\<lparr>e_Op := v\<rparr>) r"
  by (cases n) (simp_all add: keys MsgType_roundtrip)

lemma LogEntry_field_k:
  "n > 0 \<Longrightarrow> length v < 2 ^ 32 \<Longrightarrow>
   LogEntry_fields L n z (0xA1 # 0x6B # AppendString L [] v @ r) = LogEntry_fields L (n - 1) (z\<lparr>e_Key := v\<rparr>) r"
  by (cases n) (simp_all add: keys read_string)

lemma LogEntry_field_n:
  "n > 0 \<Longrightarrow> length v < 2 ^ 32 \<Longrightarrow>
   LogEntry_fields L n z (0xA1 # 0x6E # AppendString L [] v @ r) = LogEntry_fields L (n - 1) (z\<lparr>e_NodeID := v\<rparr>) r"
  by (cases n) (simp_all add: keys read_string)

lemma LogEntry_field_v:
  "n > 0 \<Longrightarrow> length v < 2 ^ 32 \<Longrightarrow> v \<noteq> [] \<Longrightarrow>
   LogEntry_fields L n z (0xA1 # 0x76 # AppendBytes L [] v @ r) = LogEntry_fields L (n - 1) (z\<lparr>e_Value := Some v\<rparr>) r"
  by (cases n) (simp_all add: keys read_nonempty)

lemma LogEntry_field_d:
  "n > 0 \<Longrightarrow> LogEntry_fields L n z (0xA1 # 0x64 # AppendFloat64 L [] v @ r) = LogEntry_fields L (n - 1) (z\<lparr>e_Delta := v\<rparr>) r"
  by (cases n) (simp_all add: keys read)

lemma LogEntry_field_ttl:
  "n > 0 \<Longrightarrow> LogEntry_fields L n z (0xA3 # 0x74 # 0x74 # 0x6C # AppendInt64 L [] v @ r) = LogEntry_fields L (n - 1) (z\<lparr>e_TTL := v\<rparr>) r"
  by (cases n) (simp_all add: keys read)

lemmas LogEntry_field = LogEntry_field_s LogEntry_field_t LogEntry_field_ba LogEntry_field_o LogEntry_field_k
  LogEntry_field_n LogEntry_field_v LogEntry_field_d LogEntry_field_ttl

text \<open>The encoding is appended to the buffer, field by field.\<close>

lemma LogEntry_len_pos: "LogEntry_len z \<noteq> 0"
  by (simp add: LogEntry_len_def of_bool_def)

lemma LogEntry_Marshal_append:
  "LogEntry_MarshalMsg L z b = b @ (0x80 OR ucast (LogEntry_len z)) # [0xA1, 0x73] @ AppendUint64 L [] (e_Seq z)
     @ [0xA1, 0x74] @ [0x82, 0xA1, 0x70] @ AppendInt64 L [] (Physical (e_TS z)) @ [0xA1, 0x6C]
     @ AppendInt32 L [] (Logical (e_TS z)) @ [0xA2, 0x62, 0x61] @ AppendInt64 L [] (e_BornAt z)
     @ [0xA1, 0x6F] @ AppendByte L [] (e_Op z) @ [0xA1, 0x6B] @ AppendString L [] (e_Key z)
     @ (if e_NodeID z = [] then [] else [0xA1, 0x6E] @ AppendString L [] (e_NodeID z))
     @ (if e_Value z = None then [] else [0xA1, 0x76] @ AppendBytes L [] (slice (e_Value z)))
     @ (if f_eq (e_Delta z) f_zero then [] else [0xA1, 0x64] @ AppendFloat64 L [] (e_Delta z))
     @ (if e_TTL z = 0 then [] else [0xA3, 0x74, 0x74, 0x6C] @ AppendInt64 L [] (e_TTL z))"
  by (simp add: LogEntry_MarshalMsg_def LogEntry_len_pos Let_def Require Timestamp_Marshal_append MsgType_Marshal_append)

lemma LogEntry_roundtrip:
  assumes "entry_small z" and "e_Value z \<noteq> Some []"
  shows "LogEntry_UnmarshalMsg L zero_LogEntry (LogEntry_MarshalMsg L z [] @ r)
    = Inr (z\<lparr>e_Delta := if f_eq (e_Delta z) f_zero then f_zero else e_Delta z\<rparr>, r)"
proof -
  have v: "e_Value z = Some v \<Longrightarrow> length v < 2 ^ 32 \<and> v \<noteq> []" for v
    using assms by (auto simp: entry_small_def)
  show ?thesis
    using assms(1) [unfolded entry_small_def] v
    apply (cases "e_NodeID z = []"; cases "e_Value z"; cases "f_eq (e_Delta z) f_zero"; cases "e_TTL z = 0")
    by (simp_all add: LogEntry_UnmarshalMsg_def LogEntry_Marshal_append LogEntry_len_def map_header
        LogEntry_field zero_LogEntry_def del: LogEntry_fields.simps(2))
qed

lemma LogEntry_size: "length (LogEntry_MarshalMsg L z b) \<le> length b + LogEntry_Msgsize L z"
proof -
  have "length (AppendUint64 L [] (e_Seq z)) \<le> Uint64Size L" "length (AppendInt64 L [] (Physical (e_TS z))) \<le> Int64Size L"
    "length (AppendInt32 L [] (Logical (e_TS z))) \<le> Int32Size L" "length (AppendInt64 L [] (e_BornAt z)) \<le> Int64Size L"
    "length (AppendByte L [] (e_Op z)) \<le> ByteSize L"
    "length (AppendString L [] (e_Key z)) \<le> StringPrefixSize L + length (e_Key z)"
    "length (AppendString L [] (e_NodeID z)) \<le> StringPrefixSize L + length (e_NodeID z)"
    "length (AppendBytes L [] (slice (e_Value z))) \<le> BytesPrefixSize L + length (slice (e_Value z))"
    "length (AppendFloat64 L [] (e_Delta z)) \<le> Float64Size L" "length (AppendInt64 L [] (e_TTL z)) \<le> Int64Size L"
    by (rule size)+
  then show ?thesis
    by (simp add: LogEntry_Marshal_append LogEntry_Msgsize_def Timestamp_Msgsize_def MsgType_Msgsize_def)
qed

section \<open>Handshake and Batch\<close>

lemma Handshake_len_pos: "Handshake_len z \<noteq> 0"
  by (simp add: Handshake_len_def of_bool_def)

lemma Handshake_body_append:
  "Handshake_body L z b = b @ (0x80 OR ucast (Handshake_len z)) # [0xA2, 0x6C, 0x73] @ AppendUint64 L [] (h_LastSeenSeq z)
     @ (if h_AuthToken z = [] then [] else [0xA2, 0x61, 0x74] @ AppendString L [] (h_AuthToken z))"
  by (simp add: Handshake_body_def Handshake_len_pos Let_def)

lemma Handshake_field:
  "n > 0 \<Longrightarrow> Handshake_fields L (Bytes L) ctx n z (0xA2 # 0x6C # 0x73 # AppendUint64 L [] v @ r)
     = Handshake_fields L (Bytes L) ctx (n - 1) (z\<lparr>h_LastSeenSeq := v\<rparr>) r"
  "n > 0 \<Longrightarrow> length t < 2 ^ 32 \<Longrightarrow> Handshake_fields L (Bytes L) ctx n z (0xA2 # 0x61 # 0x74 # AppendString L [] t @ r)
     = Handshake_fields L (Bytes L) ctx (n - 1) (z\<lparr>h_AuthToken := t\<rparr>) r"
  by (cases n; simp add: keys read read_string)+

lemma Handshake_map_roundtrip:
  assumes "length (h_AuthToken z) < 2 ^ 32"
  shows "Handshake_map L (Bytes L) ctx zero_Handshake (Handshake_body L z [] @ r) = Inr (z, r)"
  using assms
  by (cases "h_AuthToken z = []")
    (simp_all add: Handshake_map_def Handshake_body_append Handshake_len_def map_header Handshake_field
      zero_Handshake_def del: Handshake_fields.simps(2))

lemma AppendBytes_nonempty: "b \<noteq> [] \<Longrightarrow> AppendBytes L b v \<noteq> []"
  by (simp add: append)

lemma foldl_AppendBytes:
  "b \<noteq> [] \<Longrightarrow> foldl (AppendBytes L) b vs = b @ concat (map (AppendBytes L []) vs)"
proof (induction vs arbitrary: b)
  case Nil
  then show ?case by simp
next
  case (Cons v vs)
  then show ?case using Cons.IH [OF AppendBytes_nonempty [OF Cons.prems]] by (simp add: append)
qed

lemma Batch_entries_roundtrip:
  "\<forall>v \<in> set vs. length v < 2 ^ 32 \<Longrightarrow>
   Batch_entries L (Bytes L) i (length vs) (concat (map (AppendBytes L []) vs) @ r) = Inr (vs, r)"
proof (induction vs arbitrary: i)
  case Nil
  then show ?case by simp
next
  case (Cons v vs)
  obtain out where "dReadBytes (Bytes L) (AppendBytes L [] v @ concat (map (AppendBytes L []) vs) @ r) None
      = Inr (out, concat (map (AppendBytes L []) vs) @ r)" and "slice out = v"
    using read_bytes [of v] Cons.prems by auto
  with Cons show ?case by simp
qed

lemma Batch_len_pos: "Batch_len z \<noteq> 0"
  by (simp add: Batch_len_def of_bool_def)

lemma Batch_Marshal_append:
  "Batch_MarshalMsg L z b = b @ (0x80 OR ucast (Batch_len z)) # [0xA1, 0x66] @ AppendString L [] (b_FromNode z)
     @ [0xA1, 0x65] @ AppendArrayHeader L [] (of_nat (length (b_Entries z)))
     @ concat (map (AppendBytes L []) (b_Entries z))
     @ (case b_Handshake z of None \<Rightarrow> [] | Some h \<Rightarrow> [0xA1, 0x68] @ Handshake_body L h [])"
  by (simp add: Batch_MarshalMsg_def Batch_len_pos Let_def Require foldl_AppendBytes Handshake_body_append split: option.split)

lemma entries_size: "length (concat (map (AppendBytes L []) vs)) \<le> (\<Sum>v \<leftarrow> vs. BytesPrefixSize L + length v)"
proof (induction vs)
  case (Cons v vs)
  then show ?case using size(6) [of v] by simp
qed simp

lemma Batch_size: "length (Batch_MarshalMsg L z b) \<le> length b + Batch_Msgsize L z"
proof -
  have h: "length (Handshake_body L h []) \<le> 7 + Uint64Size L + StringPrefixSize L + length (h_AuthToken h)" for h
    using size(3) [of "h_LastSeenSeq h"] size(5) [of "h_AuthToken h"] by (simp add: Handshake_body_append)
  define C where "C = concat (map (AppendBytes L []) (b_Entries z))"
  define S where "S = (\<Sum>v \<leftarrow> b_Entries z. BytesPrefixSize L + length v)"
  have "length C \<le> S" unfolding C_def S_def by (rule entries_size)
  note sizes = this size(5) [of "b_FromNode z"] size(8) [of "of_nat (length (b_Entries z))"]
  note parts = Batch_Marshal_append Batch_Msgsize_def C_def [symmetric] S_def [symmetric]
  show ?thesis
  proof (cases "b_Handshake z")
    case None
    with sizes show ?thesis unfolding parts by simp
  next
    case (Some hs)
    with sizes h [of hs] show ?thesis unfolding parts by simp
  qed
qed

lemma Batch_field_f:
  "n > 0 \<Longrightarrow> length v < 2 ^ 32 \<Longrightarrow> Batch_fields L (Bytes L) w n z (0xA1 # 0x66 # AppendString L [] v @ r)
     = Batch_fields L (Bytes L) w (n - 1) (z\<lparr>b_FromNode := v\<rparr>) r"
  by (cases n) (simp_all add: keys read_string)

lemma Batch_field_e:
  assumes "n > 0" and "length vs < 2 ^ 32" and "\<forall>v \<in> set vs. length v < 2 ^ 32"
  shows "Batch_fields L (Bytes L) w n z (0xA1 # 0x65 # AppendArrayHeader L [] (of_nat (length vs))
       @ concat (map (AppendBytes L []) vs) @ r)
     = Batch_fields L (Bytes L) w (n - 1) (z\<lparr>b_Entries := vs\<rparr>) r"
proof -
  have "unat (of_nat (length vs) :: uint32) = length vs"
    using assms(2) by (simp add: unat_of_nat)
  with assms show ?thesis by (cases n) (simp_all add: keys read Batch_entries_roundtrip)
qed

lemma Handshake_not_nil: "\<not> dIsNil (Bytes L) (Handshake_body L h [] @ r)"
proof -
  have "(0x80 OR ucast (Handshake_len h)) = (0x80 OR of_nat (if h_AuthToken h = [] then 1 else 2) :: byte)"
    by (simp add: Handshake_len_def)
  then show ?thesis
    using not_nil [of "if h_AuthToken h = [] then 1 else 2"] by (simp add: Handshake_body_append split: if_splits)
qed

lemma Batch_field_h:
  assumes "n > 0" and "length (h_AuthToken h) < 2 ^ 32" and "b_Handshake z = None"
  shows "Batch_fields L (Bytes L) w n z (0xA1 # 0x68 # Handshake_body L h [] @ r)
     = Batch_fields L (Bytes L) w (n - 1) (z\<lparr>b_Handshake := Some h\<rparr>) r"
  using assms by (cases n) (simp_all add: keys Handshake_not_nil Handshake_map_roundtrip)

lemma Batch_roundtrip:
  assumes "batch_small z"
  shows "Batch_UnmarshalMsg L zero_Batch (Batch_MarshalMsg L z [] @ r) = Inr (z, r)"
    and "Batch_DecodeMsg L (Bytes L) zero_Batch (Batch_MarshalMsg L z [] @ r) = Inr (z, r)"
  using assms
  by (cases "b_Handshake z"; simp add: Batch_UnmarshalMsg_def Batch_DecodeMsg_def Batch_Marshal_append Batch_len_def
      map_header Batch_field_f Batch_field_e Batch_field_h batch_small_def zero_Batch_def del: Batch_fields.simps(2))+

end

section \<open>Properties\<close>

text \<open>C13: Log entries survive the wire: decoding an encoded entry, whatever bytes follow it, gives back the entry
  and the bytes that follow, with every omitted field at its zero value (a delta of minus zero is
  omitted and comes back as zero), and the encoding is no longer than \<^verbatim>\<open>Msgsize\<close> promises. Keys, node names and values are
  shorter than \<open>2 ^ 32\<close> bytes, and the value is not an empty slice.\<close>

theorem LogEntry_wire:
  assumes "msgp_lib L" and "entry_small z" and "e_Value z \<noteq> Some []"
  shows "LogEntry_UnmarshalMsg L zero_LogEntry (LogEntry_MarshalMsg L z [] @ rest)
           = Inr (z\<lparr>e_Delta := if f_eq (e_Delta z) f_zero then f_zero else e_Delta z\<rparr>, rest)
         \<and> length (LogEntry_MarshalMsg L z []) \<le> LogEntry_Msgsize L z"
  using msgp_lib.LogEntry_roundtrip [OF assms] msgp_lib.LogEntry_size [OF assms(1), of z "[]"] by simp

definition demo_entry :: LogEntry where
  "demo_entry = \<lparr>e_Seq = 7, e_TS = Timestamp 5 1, e_BornAt = 3, e_Op = MsgSet, e_Key = ''k'', e_NodeID = '''',
     e_Value = Some [0xA1, 0x61], e_Delta = f_zero, e_TTL = 20\<rparr>"

theorem LogEntry_wire_witness:
  "LogEntry_UnmarshalMsg wire zero_LogEntry (LogEntry_MarshalMsg wire demo_entry [] @ [0xC0]) = Inr (demo_entry, [0xC0])"
proof -
  have "entry_small demo_entry" and "e_Value demo_entry \<noteq> Some []" and "e_Delta demo_entry = f_zero"
    by (simp_all add: demo_entry_def entry_small_def)
  with LogEntry_wire [OF wire.msgp_lib_axioms, of demo_entry "[0xC0]"] show ?thesis
    by (simp add: demo_entry_def)
qed

text \<open>C14: Batches survive the wire: decoding an encoded batch, whatever bytes follow it, gives back the batch, with its
  handshake or without, and the bytes that follow, with both decoders; the encoding is no longer than
  \<^verbatim>\<open>Msgsize\<close> promises.\<close>

theorem Batch_wire:
  assumes "msgp_lib L" and "batch_small z"
  shows "Batch_UnmarshalMsg L zero_Batch (Batch_MarshalMsg L z [] @ rest) = Inr (z, rest) \<and>
         Batch_DecodeMsg L (Bytes L) zero_Batch (Batch_MarshalMsg L z [] @ rest) = Inr (z, rest) \<and>
         length (Batch_MarshalMsg L z []) \<le> Batch_Msgsize L z"
  using msgp_lib.Batch_roundtrip [OF assms] msgp_lib.Batch_size [OF assms(1), of z "[]"] by simp

theorem Batch_wire_witness:
  "Batch_UnmarshalMsg wire zero_Batch (Batch_MarshalMsg wire \<lparr>b_FromNode = ''n1'', b_Entries = [ [1, 2], []],
       b_Handshake = Some \<lparr>h_LastSeenSeq = 4, h_AuthToken = ''secret''\<rparr>\<rparr> [] @ [0xC0])
   = Inr (\<lparr>b_FromNode = ''n1'', b_Entries = [ [1, 2], []],
       b_Handshake = Some \<lparr>h_LastSeenSeq = 4, h_AuthToken = ''secret''\<rparr>\<rparr>, [0xC0])"
  using Batch_wire [OF wire.msgp_lib_axioms] by (simp add: batch_small_def)

end
