(* ===== verification/Delta_Log.thy ===== *)
theory Delta_Log
  imports Codec_Laws
begin

text \<open>
  The delta log of \<^verbatim>\<open>src/log.go\<close>: a ring of entry descriptors over a circular byte buffer. The entries are
  encoded by the codec of the theory \<^verbatim>\<open>Codecs\<close>, so the operations take the MessagePack library as an argument. A
  call that panics in Go returns its panic. The condition variable only wakes the replicators up; it is
  modelled in the theory \<^verbatim>\<open>Wakeup\<close>.

  The lemmas relate the log to its specification, the list of all encoded entries ever appended: while every
  entry is small enough for the buffer to hold one entry more than the ring has descriptors, the log serves exactly the
  retained entries.
\<close>

record entryInfo =
  offset :: uint32
  elength :: uint32

record DeltaLog =
  l_index :: "entryInfo list"
  l_data :: bytes
  l_head :: uint64
  l_bufHead :: uint32
  l_capacity :: uint64
  l_bufCap :: uint32

definition NewDeltaLog :: "uint64 \<Rightarrow> DeltaLog" where
  "NewDeltaLog capacity =
     (let bufSize = (if capacity < 100000 then ucast (capacity * 256) else 256 * 1024 * 1024)
      in \<lparr>l_index = replicate (unat capacity) \<lparr>offset = 0, elength = 0\<rparr>, l_data = replicate (unat bufSize) 0,
          l_head = 1, l_bufHead = 0, l_capacity = capacity, l_bufCap = bufSize\<rparr>)"

text \<open>Writing a byte sequence at a position of a buffer that has room for it.\<close>

definition write_at :: "nat \<Rightarrow> bytes \<Rightarrow> bytes \<Rightarrow> bytes" where
  "write_at i out data = take i data @ out @ drop (i + length out) data"

text \<open>\<^verbatim>\<open>Append\<close>: the encoder writes into the buffer when \<^verbatim>\<open>msgp.Require\<close> finds room for the announced size, and
  into fresh memory, leaving the buffer as it is, otherwise.\<close>

definition Append :: "msgp \<Rightarrow> LogEntry \<Rightarrow> DeltaLog \<Rightarrow> gopanic + DeltaLog \<times> uint64" where
  "Append L entry l =
     (let entry = entry\<lparr>e_Seq := l_head l\<rparr>;
          sz = LogEntry_Msgsize L entry;
          start = (if l_bufHead l + of_nat sz > l_bufCap l then 0 else l_bufHead l)
      in if start > l_bufCap l then Inl SliceBounds
         else if l_capacity l = 0 then Inl DivideByZero
         else let out = LogEntry_MarshalMsg L entry [];
                  actualLen = of_nat (length out);
                  data = (if sz \<le> unat (l_bufCap l) - unat start then write_at (unat start) out (l_data l)
                          else l_data l)
              in Inr (l\<lparr>l_index := (l_index l)[unat (l_head l mod l_capacity l) :=
                                      \<lparr>offset = start, elength = actualLen\<rparr>],
                        l_data := data, l_bufHead := start + actualLen, l_head := l_head l + 1\<rparr>,
                      e_Seq entry))"

text \<open>The loop of \<^verbatim>\<open>GetEntriesRaw\<close> for the remaining number of rounds.\<close>

fun raw_loop :: "DeltaLog \<Rightarrow> uint64 \<Rightarrow> int \<Rightarrow> nat \<Rightarrow> nat \<Rightarrow> bytes list \<Rightarrow> int \<Rightarrow> gopanic + bytes list" where
  "raw_loop l startSeq maxBytes i 0 res currentBytes = Inr res"
| "raw_loop l startSeq maxBytes i (Suc n) res currentBytes =
     (if l_capacity l = 0 then Inl DivideByZero
      else let info = l_index l ! unat ((startSeq + of_nat i) mod l_capacity l);
               len = int (unat (elength info));
               end = offset info + elength info
           in if res \<noteq> [] \<and> currentBytes + len > maxBytes then Inr res
              else if offset info > end \<or> unat end > length (l_data l) then Inl SliceBounds
              else raw_loop l startSeq maxBytes (Suc i) n
                     (res @ [take (unat (elength info)) (drop (unat (offset info)) (l_data l))])
                     (currentBytes + len))"

definition GetEntriesRaw :: "DeltaLog \<Rightarrow> uint64 \<Rightarrow> int \<Rightarrow> int \<Rightarrow> gopanic + bytes list" where
  "GetEntriesRaw l startSeq limit maxBytes =
     (if startSeq \<ge> l_head l then Inr []
      else let earliest = (if l_head l > l_capacity l then l_head l - l_capacity l else 1);
               startSeq = (if startSeq < earliest then earliest else startSeq);
               count = sint (l_head l - startSeq);
               count = (if count > limit then limit else count)
           in if count < 0 then Inl MakeSliceLen
              else raw_loop l startSeq maxBytes 0 (nat count) [] 0)"

definition Head :: "DeltaLog \<Rightarrow> uint64" where
  "Head l = l_head l - 1"

text \<open>The entries appended one after the other.\<close>

fun Appends :: "msgp \<Rightarrow> LogEntry list \<Rightarrow> DeltaLog \<Rightarrow> gopanic + DeltaLog" where
  "Appends L [] l = Inr l"
| "Appends L (e # es) l = (case Append L e l of Inl p \<Rightarrow> Inl p | Inr (l', _) \<Rightarrow> Appends L es l')"

section \<open>The layout of the circular buffer\<close>

text \<open>Regions, given by offset and length, that follow each other without gaps from one position to another.\<close>

fun contig :: "nat \<Rightarrow> (nat \<times> nat) list \<Rightarrow> nat \<Rightarrow> bool" where
  "contig x [] y \<longleftrightarrow> x = y"
| "contig x (r # rs) y \<longleftrightarrow> fst r = x \<and> contig (x + snd r) rs y"

definition room :: "(nat \<times> nat) list \<Rightarrow> nat" where
  "room rs = sum_list (map snd rs)"

lemma contig_room: "contig x rs y \<Longrightarrow> y = x + room rs"
proof (induction rs arbitrary: x)
  case (Cons r rs)
  then have "y = x + snd r + room rs" by auto
  then show ?case by (simp add: room_def)
qed (simp add: room_def)

lemma contig_snoc: "contig x (rs @ [r]) y \<longleftrightarrow> contig x rs (fst r) \<and> y = fst r + snd r"
  by (induction rs arbitrary: x) auto

lemma contig_bounds: "contig x rs y \<Longrightarrow> r \<in> set rs \<Longrightarrow> x \<le> fst r \<and> fst r + snd r \<le> y"
proof (induction rs arbitrary: x)
  case (Cons r' rs)
  then show ?case using contig_room [of "x + snd r'" rs y] by fastforce
qed simp

lemma room_le: "\<forall>r \<in> set rs. snd r \<le> M \<Longrightarrow> room rs \<le> length rs * M"
  by (induction rs) (auto simp: room_def)

lemma room_append [simp]: "room (rs @ rs') = room rs + room rs'"
  by (simp add: room_def)

text \<open>The regions of the retained entries, oldest first: those of the previous lap (\<open>A\<close>), which end close to the
  end of the buffer and start after the write position \<open>h\<close>, and those of the current lap (\<open>B\<close>), which end
  at the write position.\<close>

definition layout :: "nat \<Rightarrow> nat \<Rightarrow> nat \<Rightarrow> (nat \<times> nat) list \<Rightarrow> bool" where
  "layout M h c rs \<longleftrightarrow> h \<le> c \<and> (\<forall>r \<in> set rs. snd r \<le> M) \<and>
     (\<exists>A B a b E. rs = A @ B \<and> contig b B h \<and>
        (A \<noteq> [] \<longrightarrow> b = 0 \<and> contig a A E \<and> h \<le> a \<and> E \<le> c \<and> c < E + M))"

lemma layout_empty: "layout M 0 c []"
  by (simp add: layout_def)

lemma layout_tl:
  assumes "layout M h c (r # rs)"
  shows "layout M h c rs"
proof -
  obtain A B a b E where AB: "r # rs = A @ B" "contig b B h"
    and A: "A \<noteq> [] \<Longrightarrow> b = 0 \<and> contig a A E \<and> h \<le> a \<and> E \<le> c \<and> c < E + M"
    using assms unfolding layout_def by blast
  have "\<exists>A B a b E. rs = A @ B \<and> contig b B h \<and>
      (A \<noteq> [] \<longrightarrow> b = 0 \<and> contig a A E \<and> h \<le> a \<and> E \<le> c \<and> c < E + M)"
  proof (cases A)
    case Nil
    with AB have "contig (b + snd r) rs h" by auto
    then show ?thesis by (intro exI [of _ "[]"] exI [of _ rs]) auto
  next
    case (Cons r' A')
    with AB A have "rs = A' @ B" "b = 0" "contig (a + snd r) A' E" "h \<le> a + snd r" "E \<le> c" "c < E + M" by auto
    with AB(2) show ?thesis by blast
  qed
  with assms show ?thesis by (simp add: layout_def)
qed

lemma layout_step:
  assumes lay: "layout M h c rs" and k: "length rs \<le> k" "(k + 2) * M \<le> c" and len: "len \<le> sz" "sz \<le> M"
    and start: "start = (if h + sz > c then 0 else h)"
  shows "layout M (start + len) c (rs @ [(start, len)])"
    and "\<forall>r \<in> set rs. fst r + snd r \<le> start \<or> start + len \<le> fst r"
    and "start + sz \<le> c"
proof -
  obtain A B a b E where rs: "rs = A @ B" and B: "contig b B h"
    and A: "A \<noteq> [] \<Longrightarrow> b = 0 \<and> contig a A E \<and> h \<le> a \<and> E \<le> c \<and> c < E + M"
    using lay unfolding layout_def by blast
  have small: "\<forall>r \<in> set rs. snd r \<le> M" and hc: "h \<le> c" using lay by (auto simp: layout_def)
  have "room A + room B \<le> length rs * M" using room_le [OF small] rs by simp
  also have "\<dots> \<le> k * M" using k(1) by simp
  finally have sum: "room A + room B \<le> k * M" .
  have c: "k * M + 2 * M \<le> c" using k(2) by (simp add: algebra_simps)
  have h: "h = b + room B" using B by (rule contig_room)
  have "layout M (start + len) c (rs @ [(start, len)]) \<and>
    (\<forall>r \<in> set rs. fst r + snd r \<le> start \<or> start + len \<le> fst r) \<and> start + sz \<le> c"
  proof (cases "h + sz > c")
    case False
    then have s: "start = h" using start by simp
    have a: "A \<noteq> [] \<Longrightarrow> h + len \<le> a" using A contig_room [of a A E] sum c h len by fastforce
    have "contig b (B @ [(h, len)]) (h + len)" using B by (simp add: contig_snoc)
    moreover have "A \<noteq> [] \<longrightarrow> b = 0 \<and> contig a A E \<and> h + len \<le> a \<and> E \<le> c \<and> c < E + M" using A a by blast
    moreover have "rs @ [(h, len)] = A @ (B @ [(h, len)])" using rs by simp
    ultimately have "layout M (h + len) c (rs @ [(h, len)])"
      unfolding layout_def using small len False by fastforce
    moreover have "fst r + snd r \<le> h \<or> h + len \<le> fst r" if "r \<in> set rs" for r
    proof (cases "r \<in> set A")
      case True
      then have "A \<noteq> []" by auto
      then show ?thesis using A a contig_bounds [OF _ True] by fastforce
    next
      case False
      then show ?thesis using that rs contig_bounds [OF B] by auto
    qed
    ultimately show ?thesis using s False by simp
  next
    case True
    then have s: "start = 0" using start by simp
    have "A = []" using A h sum c True len by fastforce
    then have rsB: "rs = B" "room A = 0" using rs by (simp_all add: room_def)
    have b: "M < b" using h sum c True len rsB by simp
    have "contig 0 [(0, len)] len" by simp
    moreover have "B \<noteq> [] \<longrightarrow> 0 = 0 \<and> contig b B h \<and> len \<le> b \<and> h \<le> c \<and> c < h + M"
      using B b hc True len by simp
    ultimately have "layout M len c (rs @ [(0, len)])"
      unfolding layout_def using small len c rsB(1) by fastforce
    moreover have "len \<le> fst r" if "r \<in> set rs" for r
      using that rsB contig_bounds [OF B, of r] b len by simp
    ultimately show ?thesis using s c len by simp
  qed
  then show "layout M (start + len) c (rs @ [(start, len)])"
    and "\<forall>r \<in> set rs. fst r + snd r \<le> start \<or> start + len \<le> fst r" and "start + sz \<le> c" by blast+
qed

lemma length_write_at [simp]: "i + length out \<le> length data \<Longrightarrow> length (write_at i out data) = length data"
  by (simp add: write_at_def)

lemma write_at_same:
  "i + length out \<le> length data \<Longrightarrow> take (length out) (drop i (write_at i out data)) = out"
  by (simp add: write_at_def)

lemma write_at_other:
  assumes "i + length out \<le> length data" and "o1 + n \<le> i \<or> i + length out \<le> o1" and "o1 + n \<le> length data"
  shows "take n (drop o1 (write_at i out data)) = take n (drop o1 data)"
proof (rule nth_equalityI)
  show "length (take n (drop o1 (write_at i out data))) = length (take n (drop o1 data))"
    using assms by simp
next
  fix j assume "j < length (take n (drop o1 (write_at i out data)))"
  then have j: "j < n" "o1 + j < length data" using assms by simp_all
  then have "write_at i out data ! (o1 + j) = data ! (o1 + j)"
    using assms by (auto simp: write_at_def nth_append)
  then show "take n (drop o1 (write_at i out data)) ! j = take n (drop o1 data) ! j"
    using j assms by simp
qed

lemma mod_neq: "a < b \<Longrightarrow> b - a < (m :: nat) \<Longrightarrow> a mod m \<noteq> b mod m"
  by (metis diff_is_0_eq dvd_imp_le mod_eq_dvd_iff_nat nat_less_le not_le zero_less_diff less_imp_le)

section \<open>The log and its specification\<close>

text \<open>A region holds the encoded entry at a position of the history, and the entry's descriptor says so.\<close>

definition region_ok :: "DeltaLog \<Rightarrow> bytes list \<Rightarrow> nat \<Rightarrow> nat \<times> nat \<Rightarrow> bool" where
  "region_ok l hist q r \<longleftrightarrow>
     q < length hist \<and>
     l_index l ! (Suc q mod unat (l_capacity l)) = \<lparr>offset = of_nat (fst r), elength = of_nat (snd r)\<rparr> \<and>
     fst r + snd r \<le> unat (l_bufCap l) \<and> length (hist ! q) = snd r \<and>
     take (snd r) (drop (fst r) (l_data l)) = hist ! q"

definition regions_ok :: "DeltaLog \<Rightarrow> bytes list \<Rightarrow> (nat \<times> nat) list \<Rightarrow> bool" where
  "regions_ok l hist rs \<longleftrightarrow> (\<forall>j < length rs. region_ok l hist (length hist - length rs + j) (rs ! j))"

text \<open>\<open>log_rel M l hist rs\<close>: the log \<open>l\<close> has been given the encoded entries \<open>hist\<close>, and the regions of the
  retained ones are \<open>rs\<close>; \<open>M\<close> bounds the announced size of an entry.\<close>

definition log_rel :: "nat \<Rightarrow> DeltaLog \<Rightarrow> bytes list \<Rightarrow> (nat \<times> nat) list \<Rightarrow> bool" where
  "log_rel M l hist rs \<longleftrightarrow>
     unat (l_head l) = Suc (length hist) \<and> length hist < 2 ^ 62 \<and>
     0 < unat (l_capacity l) \<and> length (l_index l) = unat (l_capacity l) \<and>
     length (l_data l) = unat (l_bufCap l) \<and> unat (l_bufCap l) < 2 ^ 31 \<and>
     (unat (l_capacity l) + 1) * M \<le> unat (l_bufCap l) \<and>
     layout M (unat (l_bufHead l)) (unat (l_bufCap l)) rs \<and>
     length rs = min (unat (l_capacity l)) (length hist) \<and> regions_ok l hist rs"

text \<open>Giving up the descriptor that the next entry overwrites.\<close>

definition evict :: "nat \<Rightarrow> 'a list \<Rightarrow> 'a list" where
  "evict cap rs = (if length rs = cap then tl rs else rs)"

lemma regions_ok_tl:
  assumes "regions_ok l hist rs" and "length rs \<le> length hist"
  shows "regions_ok l hist (tl rs)"
proof (cases rs)
  case (Cons r rs')
  then have "length hist - length rs' + j = length hist - length rs + Suc j" if "j < length rs'" for j
    using assms(2) that by simp
  with assms(1) Cons show ?thesis by (auto simp: regions_ok_def)
qed (simp add: regions_ok_def)

lemma log_rel_evict:
  assumes rel: "log_rel M l hist rs" and rs0: "rs0 = evict (unat (l_capacity l)) rs"
  shows "layout M (unat (l_bufHead l)) (unat (l_bufCap l)) rs0"
    and "length rs0 = min (unat (l_capacity l) - 1) (length hist)"
    and "regions_ok l hist rs0"
proof -
  let ?cap = "unat (l_capacity l)"
  have cap: "0 < ?cap" and len: "length rs = min ?cap (length hist)"
    and lay: "layout M (unat (l_bufHead l)) (unat (l_bufCap l)) rs" and ok: "regions_ok l hist rs"
    using rel unfolding log_rel_def by blast+
  show "layout M (unat (l_bufHead l)) (unat (l_bufCap l)) rs0"
    using lay layout_tl [of M _ _ "hd rs" "tl rs"] rs0 cap by (cases rs) (auto simp: evict_def)
  show "length rs0 = min (?cap - 1) (length hist)"
    using len cap rs0 by (auto simp: evict_def)
  show "regions_ok l hist rs0"
    using ok regions_ok_tl [OF ok] len rs0 by (simp add: evict_def)
qed

lemma evict_old_index:
  assumes "length rs0 = min (cap - 1) n" and "0 < cap" and "j < length rs0"
  shows "Suc (n - length rs0 + j) mod cap \<noteq> Suc n mod (cap :: nat)"
proof (rule mod_neq)
  show "Suc (n - length rs0 + j) < Suc n" using assms by linarith
  show "Suc n - Suc (n - length rs0 + j) < cap" using assms by linarith
qed

text \<open>The operation keeps the relation: no panic, and the encoded entry joins the history.\<close>

lemma region_ok_append:
  assumes ok: "region_ok l hist q r" and q: "Suc q mod unat (l_capacity l) \<noteq> Suc (length hist) mod unat (l_capacity l)"
    and sep: "fst r + snd r \<le> start \<or> start + length out \<le> fst r"
    and fits: "start + length out \<le> length (l_data l)" and len: "length (l_data l) = unat (l_bufCap l)"
    and l': "l_capacity l' = l_capacity l" "l_bufCap l' = l_bufCap l" "l_data l' = write_at start out (l_data l)"
      "l_index l' = (l_index l)[Suc (length hist) mod unat (l_capacity l) := info]"
  shows "region_ok l' (hist @ [out]) q r"
  using ok q sep fits len write_at_other [OF fits, of "fst r" "snd r"]
  by (simp add: region_ok_def l' nth_append)

lemma regions_ok_append:
  assumes ok: "regions_ok l hist rs" and len: "length rs = min (unat (l_capacity l) - 1) (length hist)"
    and cap: "0 < unat (l_capacity l)" "length (l_index l) = unat (l_capacity l)"
    and sep: "\<forall>r \<in> set rs. fst r + snd r \<le> start \<or> start + length out \<le> fst r"
    and fits: "start + length out \<le> length (l_data l)" "length (l_data l) = unat (l_bufCap l)"
    and l': "l_capacity l' = l_capacity l" "l_bufCap l' = l_bufCap l" "l_data l' = write_at start out (l_data l)"
      "l_index l' = (l_index l)[Suc (length hist) mod unat (l_capacity l) :=
          \<lparr>offset = of_nat start, elength = of_nat (length out)\<rparr>]"
  shows "regions_ok l' (hist @ [out]) (rs @ [(start, length out)])"
  unfolding regions_ok_def
proof (intro allI impI)
  fix j assume j: "j < length (rs @ [(start, length out)])"
  show "region_ok l' (hist @ [out]) (length (hist @ [out]) - length (rs @ [(start, length out)]) + j)
      ((rs @ [(start, length out)]) ! j)"
  proof (cases "j < length rs")
    case True
    then have "region_ok l hist (length hist - length rs + j) (rs ! j)" using ok by (simp add: regions_ok_def)
    from region_ok_append [OF this evict_old_index [OF len cap(1) True] _ fits l'] sep True
    show ?thesis by (simp add: nth_append)
  next
    case False
    then have "j = length rs" using j by simp
    then show ?thesis
      using len cap fits write_at_same [OF fits(1)] by (simp add: region_ok_def l' nth_append)
  qed
qed

lemma unat_add_less: "unat (x :: 32 word) + n < 2 ^ 32 \<Longrightarrow> unat (x + of_nat n) = unat x + n"
  by (simp add: unat_word_ariths unat_of_nat)

context msgp_lib
begin

lemma Append_rel:
  assumes rel: "log_rel M l hist rs" and sz: "LogEntry_Msgsize L e \<le> M" and n: "Suc (length hist) < 2 ^ 62"
    and out: "out = LogEntry_MarshalMsg L (e\<lparr>e_Seq := of_nat (Suc (length hist))\<rparr>) []"
  shows "\<exists>l' rs'. Append L e l = Inr (l', of_nat (Suc (length hist))) \<and> log_rel M l' (hist @ [out]) rs' \<and>
           l_capacity l' = l_capacity l"
proof -
  let ?cap = "unat (l_capacity l)" and ?c = "unat (l_bufCap l)" and ?h = "unat (l_bufHead l)"
  define rs0 where "rs0 = evict ?cap rs"
  define size where "size = LogEntry_Msgsize L (e\<lparr>e_Seq := l_head l\<rparr>)"
  define start where "start = (if ?h + size > ?c then 0 else ?h)"
  have facts: "unat (l_head l) = Suc (length hist)" "0 < ?cap" "length (l_index l) = ?cap"
      "length (l_data l) = ?c" "?c < 2 ^ 31" "(?cap + 1) * M \<le> ?c"
    using rel unfolding log_rel_def by blast+
  note ev = log_rel_evict [OF rel rs0_def]
  have "l_head l = of_nat (unat (l_head l))" by simp
  then have head: "l_head l = of_nat (Suc (length hist))" unfolding facts(1) .
  have "size = LogEntry_Msgsize L e" by (simp add: size_def LogEntry_Msgsize_def)
  then have size: "length out \<le> size" "size \<le> M"
    using LogEntry_size [of "e\<lparr>e_Seq := l_head l\<rparr>" "[]"] sz by (simp_all add: out head size_def)
  have k: "length rs0 \<le> ?cap - 1" "(?cap - 1 + 2) * M \<le> ?c"
    using ev(2) facts by simp_all
  note step = layout_step [OF ev(1) k size start_def]
  have hc: "?h \<le> ?c" using ev(1) by (simp add: layout_def)
  have "M \<le> ?c" using facts(6) by simp
  then have "?h + size < 2 ^ 32" using hc size facts(5) by simp
  then have wrap: "l_bufHead l + of_nat size > l_bufCap l \<longleftrightarrow> ?h + size > ?c"
    by (simp add: word_less_nat_alt unat_add_less)
  have st: "(if l_bufHead l + of_nat size > l_bufCap l then 0 else l_bufHead l) = of_nat start"
    by (simp add: wrap start_def)
  have start: "start + size \<le> ?c" by (rule step(3))
  then have ust: "unat (of_nat start :: 32 word) = start" using facts(5) by (simp add: unat_of_nat)
  have cap0: "l_capacity l \<noteq> 0" using facts(2) by auto
  have idx: "unat (l_head l mod l_capacity l) = Suc (length hist) mod ?cap" by (simp add: unat_mod facts(1))
  define l' where "l' = l\<lparr>l_index := (l_index l)[Suc (length hist) mod ?cap :=
        \<lparr>offset = of_nat start, elength = of_nat (length out)\<rparr>],
      l_data := write_at start out (l_data l), l_bufHead := of_nat start + of_nat (length out), l_head := l_head l + 1\<rparr>"
  have "\<not> of_nat start > l_bufCap l" using start ust by (simp add: word_less_nat_alt)
  moreover have "size \<le> ?c - start" using start by simp
  moreover have out': "LogEntry_MarshalMsg L (e\<lparr>e_Seq := l_head l\<rparr>) [] = out" by (simp only: out head)
  ultimately have "Append L e l = Inr (l', l_head l)"
    unfolding Append_def Let_def size_def [symmetric] st out'
    using cap0 by (simp add: ust idx l'_def)
  then have app: "Append L e l = Inr (l', of_nat (Suc (length hist)))" by (simp only: head)
  have fits: "start + length out \<le> length (l_data l)" using start size facts by simp
  have "regions_ok l' (hist @ [out]) (rs0 @ [(start, length out)])"
    using regions_ok_append [OF ev(3,2) facts(2,3) step(2) fits facts(4), of l'] by (simp add: l'_def)
  moreover have "unat (l_bufHead l') = start + length out"
    using unat_add_less [of "of_nat start" "length out"] ust start size facts(5) by (simp add: l'_def)
  moreover have "unat (l_head l') = Suc (Suc (length hist))"
  proof -
    have "l_head l' = of_nat (Suc (Suc (length hist)))" by (simp add: l'_def head)
    also have "unat \<dots> = Suc (Suc (length hist)) mod 2 ^ 64" unfolding unat_of_nat by simp
    finally show ?thesis using n by simp
  qed
  ultimately have "log_rel M l' (hist @ [out]) (rs0 @ [(start, length out)])"
    using step(1) facts n ev(2) fits unfolding log_rel_def by (auto simp: l'_def)
  with app show ?thesis by (auto simp: l'_def)
qed

end

text \<open>The specification of a read: entries are gathered until the next one would pass the limit on bytes; the first one is
  always taken.\<close>

fun gather :: "int \<Rightarrow> bool \<Rightarrow> int \<Rightarrow> bytes list \<Rightarrow> bytes list" where
  "gather maxBytes started current [] = []"
| "gather maxBytes started current (e # es) =
     (if started \<and> current + int (length e) > maxBytes then []
      else e # gather maxBytes True (current + int (length e)) es)"

definition log_read :: "nat \<Rightarrow> bytes list \<Rightarrow> uint64 \<Rightarrow> int \<Rightarrow> int \<Rightarrow> bytes list" where
  "log_read cap hist startSeq limit maxBytes =
     gather maxBytes False 0 (take (nat limit) (drop (max (unat startSeq - 1) (length hist - cap)) hist))"

lemma log_rel_region:
  assumes "log_rel M l hist rs" and "length hist - unat (l_capacity l) \<le> q" and "q < length hist"
  shows "\<exists>r. region_ok l hist q r"
proof -
  have len: "length rs = min (unat (l_capacity l)) (length hist)" and "regions_ok l hist rs"
    using assms(1) unfolding log_rel_def by blast+
  moreover define j where "j = q - (length hist - length rs)"
  ultimately have "j < length rs" "length hist - length rs + j = q" using assms(2,3) by linarith+
  with \<open>regions_ok l hist rs\<close> show ?thesis unfolding regions_ok_def by blast
qed

lemma region_words:
  assumes "region_ok l hist q r" and "unat (l_bufCap l) < 2 ^ 31"
  shows "unat (of_nat (fst r) :: uint32) = fst r" and "unat (of_nat (snd r) :: uint32) = snd r"
    and "unat (of_nat (fst r) + of_nat (snd r) :: uint32) = fst r + snd r"
    and "uint (of_nat (snd r) :: uint32) = int (snd r)"
proof -
  have b: "fst r + snd r < 2 ^ 31" using assms by (simp add: region_ok_def)
  then show "unat (of_nat (fst r) :: uint32) = fst r" and u: "unat (of_nat (snd r) :: uint32) = snd r"
    by (simp_all add: unat_of_nat)
  have "uint (of_nat (snd r) :: uint32) = int (unat (of_nat (snd r) :: uint32))" by simp
  then show "uint (of_nat (snd r) :: uint32) = int (snd r)" unfolding u .
  have "of_nat (fst r) + of_nat (snd r) = (of_nat (fst r + snd r) :: uint32)" by simp
  also have "unat \<dots> = (fst r + snd r) mod 2 ^ 32" unfolding unat_of_nat by simp
  finally show "unat (of_nat (fst r) + of_nat (snd r) :: uint32) = fst r + snd r" using b by simp
qed

lemma raw_loop_rel:
  assumes rel: "log_rel M l hist rs" and "length hist - unat (l_capacity l) \<le> q0"
    and "q0 + i + n \<le> length hist" and start: "unat start = Suc q0"
  shows "raw_loop l start maxBytes i n res cur
           = Inr (res @ gather maxBytes (res \<noteq> []) cur (take n (drop (q0 + i) hist)))"
  using assms(2,3)
proof (induction n arbitrary: i res cur)
  case 0
  then show ?case by simp
next
  case (Suc n)
  let ?q = "q0 + i"
  have facts: "length hist < 2 ^ 62" "0 < unat (l_capacity l)" "length (l_data l) = unat (l_bufCap l)" "unat (l_bufCap l) < 2 ^ 31"
    using rel unfolding log_rel_def by blast+
  obtain r where r: "region_ok l hist ?q r" using log_rel_region [OF rel] Suc.prems by force
  note w = region_words [OF r facts(4)]
  have "start = of_nat (unat start)" by simp
  then have "start + of_nat i = of_nat (Suc ?q)" unfolding start by simp
  moreover have "unat (of_nat (Suc ?q) :: uint64) = Suc ?q mod 2 ^ 64" unfolding unat_of_nat by simp
  ultimately have "unat ((start + of_nat i) mod l_capacity l) = Suc ?q mod unat (l_capacity l)"
    using Suc.prems facts(1) by (simp add: unat_mod del: of_nat_Suc)
  then have info: "l_index l ! unat ((start + of_nat i) mod l_capacity l)
      = \<lparr>offset = of_nat (fst r), elength = of_nat (snd r)\<rparr>"
    using r by (simp add: region_ok_def)
  have e: "drop ?q hist = hist ! ?q # drop (Suc ?q) hist" "length (hist ! ?q) = snd r"
      "take (snd r) (drop (fst r) (l_data l)) = hist ! ?q" "fst r + snd r \<le> unat (l_bufCap l)"
    using r Suc.prems by (simp_all add: region_ok_def Cons_nth_drop_Suc)
  have cap: "l_capacity l \<noteq> 0" using facts(2) by auto
  have fits: "\<not> (of_nat (fst r) > (of_nat (fst r) + of_nat (snd r) :: uint32))"
    by (simp add: word_less_nat_alt w)
  show ?case
    using Suc.IH [of "Suc i" "res @ [hist ! ?q]" "cur + int (snd r)"] Suc.prems cap fits facts(3)
    using e(4) by (auto simp: info Let_def w e(1-3))
qed

lemma GetEntriesRaw_rel:
  assumes rel: "log_rel M l hist rs" and "0 \<le> limit"
  shows "GetEntriesRaw l startSeq limit maxBytes = Inr (log_read (unat (l_capacity l)) hist startSeq limit maxBytes)"
proof (cases "startSeq \<ge> l_head l")
  case True
  then have "length hist \<le> unat startSeq - 1" using rel by (simp add: log_rel_def word_le_nat_alt)
  then show ?thesis using True by (simp add: GetEntriesRaw_def log_read_def)
next
  case False
  let ?cap = "unat (l_capacity l)"
  define q0 where "q0 = max (unat startSeq - 1) (length hist - ?cap)"
  define earliest where "earliest = (if l_head l > l_capacity l then l_head l - l_capacity l else 1)"
  define start where "start = (if startSeq < earliest then earliest else startSeq)"
  have facts: "unat (l_head l) = Suc (length hist)" "length hist < 2 ^ 62" "0 < ?cap"
    using rel unfolding log_rel_def by blast+
  have ear: "unat earliest = Suc (length hist - ?cap)"
    using facts by (simp add: earliest_def word_less_nat_alt unat_sub word_le_nat_alt Suc_diff_le)
  have "unat startSeq < Suc (length hist)" using False facts(1) by (simp add: word_less_nat_alt not_le)
  then have q0: "q0 < Suc (length hist)" and us: "unat start = Suc q0"
    using ear facts by (auto simp: q0_def start_def word_less_nat_alt)
  then have q0': "q0 \<le> length hist" by simp
  have le: "start \<le> l_head l" using us q0 facts by (simp add: word_le_nat_alt)
  have diff: "unat (l_head l - start) = length hist - q0" using le us facts by (simp add: unat_sub)
  have "l_head l - start = of_int (int (unat (l_head l - start)))" by simp
  then have "l_head l - start = of_int (int (length hist - q0))" unfolding diff .
  then have count: "sint (l_head l - start) = int (length hist - q0)"
    using sint_of_int64 [of "int (length hist - q0)"] facts(2) by simp
  define N where "N = (if int (length hist - q0) > limit then limit else int (length hist - q0))"
  have "q0 + 0 + nat N \<le> length hist" using q0' assms(2) by (auto simp: N_def)
  moreover have "length hist - ?cap \<le> q0" by (simp add: q0_def)
  ultimately have loop: "raw_loop l start maxBytes 0 (nat N) [] 0 = Inr (gather maxBytes False 0 (take (nat N) (drop q0 hist)))"
    using raw_loop_rel [OF rel _ _ us, of 0 "nat N" maxBytes "[]" 0] by simp
  have "take (nat N) (drop q0 hist) = take (nat limit) (drop q0 hist)" using assms(2) by (simp add: N_def)
  moreover have "\<not> N < 0" using assms(2) by (simp add: N_def)
  ultimately show ?thesis
    unfolding GetEntriesRaw_def Let_def earliest_def [symmetric] start_def [symmetric] count N_def [symmetric]
      log_read_def q0_def [symmetric]
    using False loop by simp
qed

text \<open>The encodings of a sequence of entries, numbered from \<open>i + 1\<close>.\<close>

fun encodings :: "msgp \<Rightarrow> nat \<Rightarrow> LogEntry list \<Rightarrow> bytes list" where
  "encodings L i [] = []"
| "encodings L i (e # es) = LogEntry_MarshalMsg L (e\<lparr>e_Seq := of_nat (Suc i)\<rparr>) [] # encodings L (Suc i) es"

lemma length_encodings [simp]: "length (encodings L i es) = length es"
  by (induction es arbitrary: i) simp_all

lemma NewDeltaLog_bufCap: "unat (l_bufCap (NewDeltaLog capacity)) < 2 ^ 31"
proof -
  have "unat (ucast (capacity * 256) :: uint32) < 2 ^ 31" if "capacity < 100000"
  proof -
    have "unat capacity < 100000" using that by (simp add: word_less_nat_alt)
    moreover have "unat (capacity * 256) = unat capacity * 256 mod 2 ^ 64"
      by (simp add: unat_word_ariths)
    ultimately have "unat (capacity * 256) < 2 ^ 31" by simp
    moreover have "unat (ucast (capacity * 256) :: uint32) \<le> unat (capacity * 256)"
      by (simp add: unsigned_ucast_eq take_bit_nat_less_eq_self)
    ultimately show ?thesis by simp
  qed
  then show ?thesis by (auto simp: NewDeltaLog_def Let_def)
qed

lemma NewDeltaLog_rel:
  assumes "0 < capacity" and "(unat capacity + 1) * M \<le> unat (l_bufCap (NewDeltaLog capacity))"
  shows "log_rel M (NewDeltaLog capacity) [] []"
proof -
  have "0 < unat capacity" using assms(1) by (simp add: word_less_nat_alt)
  then show ?thesis
    using assms(2) NewDeltaLog_bufCap [of capacity] unfolding log_rel_def regions_ok_def
    by (simp add: NewDeltaLog_def Let_def layout_empty)
qed

context msgp_lib
begin

lemma Appends_rel:
  assumes "log_rel M l hist rs" and "\<forall>e \<in> set es. LogEntry_Msgsize L e \<le> M" and "length hist + length es < 2 ^ 62"
  shows "\<exists>l' rs'. Appends L es l = Inr l' \<and> l_capacity l' = l_capacity l \<and>
           log_rel M l' (hist @ encodings L (length hist) es) rs'"
  using assms
proof (induction es arbitrary: l hist rs)
  case Nil
  then show ?case by auto
next
  case (Cons e es)
  let ?out = "LogEntry_MarshalMsg L (e\<lparr>e_Seq := of_nat (Suc (length hist))\<rparr>) []"
  have "LogEntry_Msgsize L e \<le> M" "Suc (length hist) < 2 ^ 62" using Cons.prems(2,3) by auto
  from Append_rel [OF Cons.prems(1) this refl] obtain l1 rs1 where
    l1: "Append L e l = Inr (l1, of_nat (Suc (length hist)))" "log_rel M l1 (hist @ [?out]) rs1" "l_capacity l1 = l_capacity l"
    by blast
  from Cons.IH [OF l1(2)] Cons.prems(2,3) l1(1,3) show ?case by (auto simp del: of_nat_Suc)
qed

end

section \<open>Properties\<close>

text \<open>C9: The delta log implements its specification: when every entry's announced size is at most \<open>M\<close> and the buffer has
  room for one such entry more than the log has places, appending never panics, numbers the entries from 1, and a read returns the
  exact bytes of the retained entries from the requested one on (or from the earliest retained one), in order, up to the limits on entries and
  bytes, with at least one entry if there is any.\<close>

theorem delta_log_refines:
  assumes "msgp_lib L" and "0 < capacity" and "(unat capacity + 1) * M \<le> unat (l_bufCap (NewDeltaLog capacity))"
    and "\<forall>e \<in> set es. LogEntry_Msgsize L e \<le> M" and "length es < 2 ^ 62" and "0 \<le> limit"
  shows "\<exists>l. Appends L es (NewDeltaLog capacity) = Inr l \<and> Head l = of_nat (length es) \<and>
           GetEntriesRaw l startSeq limit maxBytes
             = Inr (log_read (unat capacity) (encodings L 0 es) startSeq limit maxBytes)"
proof -
  have "length ([] :: bytes list) + length es < 2 ^ 62" using assms(5) by simp
  from msgp_lib.Appends_rel [OF assms(1) NewDeltaLog_rel [OF assms(2,3)] assms(4) this] obtain l rs where
    l: "Appends L es (NewDeltaLog capacity) = Inr l" "l_capacity l = capacity" "log_rel M l (encodings L 0 es) rs"
    by (auto simp: NewDeltaLog_def Let_def)
  have h: "unat (l_head l) = Suc (length es)" using l(3) by (simp add: log_rel_def)
  have "l_head l = of_nat (unat (l_head l))" by simp
  then have "Head l = of_nat (length es)" unfolding h by (simp add: Head_def)
  with l GetEntriesRaw_rel [OF l(3) assms(6)] show ?thesis by auto
qed

theorem delta_log_refines_witness:
  "\<exists>l. Appends wire [demo_entry, demo_entry, demo_entry] (NewDeltaLog 2) = Inr l \<and> Head l = 3 \<and>
     GetEntriesRaw l 1 10 4096 = Inr (log_read 2 (encodings wire 0 [demo_entry, demo_entry, demo_entry]) 1 10 4096)"
proof -
  have "unat (l_bufCap (NewDeltaLog 2)) = 512" by (simp add: NewDeltaLog_def Let_def)
  moreover have "LogEntry_Msgsize wire demo_entry \<le> 150"
    by (simp add: LogEntry_Msgsize_def Timestamp_Msgsize_def MsgType_Msgsize_def demo_entry_def wire_def)
  ultimately show ?thesis
    using delta_log_refines [OF wire.msgp_lib_axioms, of 2 150 "[demo_entry, demo_entry, demo_entry]" 10 1 4096] by simp
qed

text \<open>C36: An entry that does not fit the buffer crashes the node: \<^verbatim>\<open>Append\<close> accepts an entry whose encoding is longer than the
  whole buffer, without storing its bytes, and the next read of that entry slices beyond the buffer and panics.\<close>

theorem oversized_entry_panics:
  assumes "0 < capacity" and "1 \<le> limit"
    and "unat (l_bufCap (NewDeltaLog capacity)) < length (LogEntry_MarshalMsg L (e\<lparr>e_Seq := 1\<rparr>) [])"
    and "length (LogEntry_MarshalMsg L (e\<lparr>e_Seq := 1\<rparr>) []) < 2 ^ 32"
    and "length (LogEntry_MarshalMsg L (e\<lparr>e_Seq := 1\<rparr>) []) \<le> LogEntry_Msgsize L (e\<lparr>e_Seq := 1\<rparr>)"
  shows "\<exists>l. Append L e (NewDeltaLog capacity) = Inr (l, 1) \<and> GetEntriesRaw l 1 limit maxBytes = Inl SliceBounds"
proof -
  let ?l = "NewDeltaLog capacity" and ?out = "LogEntry_MarshalMsg L (e\<lparr>e_Seq := 1\<rparr>) []"
  have new: "l_head ?l = 1" "l_bufHead ?l = 0" "l_capacity ?l = capacity" "length (l_data ?l) = unat (l_bufCap ?l)"
      "length (l_index ?l) = unat capacity"
    by (simp_all add: NewDeltaLog_def Let_def)
  have cap: "capacity \<noteq> 0" "0 < unat capacity" using assms(1) by (auto simp: word_less_nat_alt)
  define l where "l = ?l\<lparr>l_index := (l_index ?l)[unat (1 mod capacity) := \<lparr>offset = 0, elength = of_nat (length ?out)\<rparr>],
      l_bufHead := of_nat (length ?out), l_head := 2\<rparr>"
  have app: "Append L e ?l = Inr (l, 1)"
    using assms(3,5) cap by (simp add: Append_def Let_def new l_def)
  have "unat (1 mod capacity) < unat capacity" unfolding unat_mod using cap(2) by (rule mod_less_divisor)
  then have info: "l_index l ! unat (1 mod capacity) = \<lparr>offset = 0, elength = of_nat (length ?out)\<rparr>"
    by (simp add: l_def new)
  have len: "unat (of_nat (length ?out) :: uint32) = length ?out" using assms(4) by (simp add: unat_of_nat)
  have l: "l_head l = 2" "l_capacity l = capacity" "length (l_data l) = unat (l_bufCap ?l)" by (simp_all add: l_def new)
  have ear: "(if 2 > capacity then 2 - capacity else 1) = 1"
  proof (cases "capacity = 1")
    case False
    moreover have "capacity = of_nat (unat capacity)" by simp
    ultimately have "unat capacity \<noteq> 1" by (metis of_nat_1)
    then have "\<not> 2 > capacity" using cap by (simp add: word_less_nat_alt)
    then show ?thesis by simp
  qed simp
  have loop: "raw_loop l 1 maxBytes 0 (Suc n) [] 0 = Inl SliceBounds" for n
    using assms(3) cap info by (cases "capacity = 1") (simp_all add: l Let_def len)
  obtain n where "nat (if sint (2 - 1 :: uint64) > limit then limit else sint (2 - 1 :: uint64)) = Suc n"
    using assms(2) by (cases "limit = 1") auto
  then have "GetEntriesRaw l 1 limit maxBytes = Inl SliceBounds"
    unfolding GetEntriesRaw_def Let_def l ear
    using loop assms(2) by (simp add: word_le_nat_alt del: raw_loop.simps)
  with app show ?thesis by blast
qed

theorem oversized_entry_panics_witness:
  "\<exists>l. Append wire (demo_entry\<lparr>e_Key := replicate 300 CHR ''k''\<rparr>) (NewDeltaLog 1) = Inr (l, 1) \<and>
     GetEntriesRaw l 1 1000 8388608 = Inl SliceBounds"
proof -
  let ?e = "demo_entry\<lparr>e_Key := replicate 300 CHR ''k''\<rparr>"
  have "unat (l_bufCap (NewDeltaLog 1)) = 256" by (simp add: NewDeltaLog_def Let_def)
  moreover have "length (LogEntry_MarshalMsg wire (?e\<lparr>e_Seq := 1\<rparr>) []) \<le> LogEntry_Msgsize wire (?e\<lparr>e_Seq := 1\<rparr>)"
    using wire.LogEntry_size [of "?e\<lparr>e_Seq := 1\<rparr>" "[]"] by simp
  moreover have "LogEntry_Msgsize wire (?e\<lparr>e_Seq := 1\<rparr>) < 1000"
    by (simp add: LogEntry_Msgsize_def Timestamp_Msgsize_def MsgType_Msgsize_def demo_entry_def wire_def)
  moreover have "length (AppendString wire [] (e_Key ?e)) \<ge> 300" by (simp add: wire_def)
  then have "256 < length (LogEntry_MarshalMsg wire (?e\<lparr>e_Seq := 1\<rparr>) [])"
    by (simp add: wire.LogEntry_Marshal_append)
  ultimately show ?thesis
    using oversized_entry_panics [of 1 1000 wire ?e 8388608] by simp
qed

lemma overwritten_log:
  assumes "msgp_lib L" and "2 \<le> capacity"
    and "out1 = LogEntry_MarshalMsg L (e1\<lparr>e_Seq := 1\<rparr>) []" and "out2 = LogEntry_MarshalMsg L (e2\<lparr>e_Seq := 2\<rparr>) []"
    and "length out1 = length out2"
    and "LogEntry_Msgsize L e1 \<le> unat (l_bufCap (NewDeltaLog capacity))"
    and "LogEntry_Msgsize L e2 \<le> unat (l_bufCap (NewDeltaLog capacity))"
    and "unat (l_bufCap (NewDeltaLog capacity)) < length out1 + LogEntry_Msgsize L e2"
  shows "\<exists>l. Appends L [e1, e2] (NewDeltaLog capacity) = Inr l \<and> l_head l = 3 \<and> l_capacity l = capacity \<and>
    length (l_data l) < 2 ^ 31 \<and> length out2 \<le> length (l_data l) \<and> take (length out2) (l_data l) = out2 \<and>
    (\<forall>k < 2. l_index l ! unat ((1 + of_nat k) mod capacity) = \<lparr>offset = 0, elength = of_nat (length out2)\<rparr>)"
proof -
  let ?l = "NewDeltaLog capacity"
  define C n where "C = unat (l_bufCap ?l)" and "n = length out2"
  have new: "l_head ?l = 1" "l_bufHead ?l = 0" "l_capacity ?l = capacity" "length (l_data ?l) = C"
      "length (l_index ?l) = unat capacity" "unat (l_bufCap ?l) = C"
    by (simp_all add: NewDeltaLog_def Let_def C_def)
  have cap: "2 \<le> unat capacity" "capacity \<noteq> 0" using assms(2) by (auto simp: word_le_nat_alt)
  have size: "LogEntry_Msgsize L (e\<lparr>e_Seq := q\<rparr>) = LogEntry_Msgsize L e" for e q by (simp add: LogEntry_Msgsize_def)
  have n: "length out1 = n" "n \<le> LogEntry_Msgsize L e2" "LogEntry_Msgsize L e1 \<le> C" "LogEntry_Msgsize L e2 \<le> C"
      "C < n + LogEntry_Msgsize L e2"
    using assms(4-8) msgp_lib.LogEntry_size [OF assms(1), of "e2\<lparr>e_Seq := 2\<rparr>" "[]"] by (simp_all add: n_def C_def size)
  have C: "C < 2 ^ 31" unfolding C_def by (rule NewDeltaLog_bufCap)
  have w: "unat (of_nat m :: uint32) = m" if "m < 2 ^ 32" for m using that by (simp add: unat_of_nat)
  define l1 where "l1 = ?l\<lparr>l_index := (l_index ?l)[unat (1 mod capacity) := \<lparr>offset = 0, elength = of_nat n\<rparr>],
      l_data := write_at 0 out1 (l_data ?l), l_bufHead := of_nat n, l_head := 2\<rparr>"
  have "\<not> of_nat (LogEntry_Msgsize L e1) > l_bufCap ?l"
    using w [of "LogEntry_Msgsize L e1"] n(3) C by (simp add: word_less_nat_alt new)
  then have app1: "Append L e1 ?l = Inr (l1, 1)"
    using cap n(1,3) assms(3) by (simp add: Append_def Let_def new size l1_def)
  have l1: "l_head l1 = 2" "l_bufHead l1 = of_nat n" "l_bufCap l1 = l_bufCap ?l" "l_capacity l1 = capacity"
      "l_data l1 = write_at 0 out1 (l_data ?l)"
      "l_index l1 = (l_index ?l)[unat (1 mod capacity) := \<lparr>offset = 0, elength = of_nat n\<rparr>]"
    by (simp_all add: l1_def new)
  define l2 where "l2 = l1\<lparr>l_index := (l_index l1)[unat (2 mod capacity) := \<lparr>offset = 0, elength = of_nat n\<rparr>],
      l_data := write_at 0 out2 (l_data l1), l_bufHead := of_nat n, l_head := 3\<rparr>"
  have "of_nat n + of_nat (LogEntry_Msgsize L e2) = (of_nat (n + LogEntry_Msgsize L e2) :: uint32)" by simp
  moreover have "n + LogEntry_Msgsize L e2 < 2 ^ 32" using n(2,4) C by simp
  ultimately have "of_nat n + of_nat (LogEntry_Msgsize L e2) > l_bufCap ?l"
    unfolding word_less_nat_alt new using w [of "n + LogEntry_Msgsize L e2"] n(5) by (simp only:)
  then have app2: "Append L e2 l1 = Inr (l2, 2)"
    using cap n(4) assms(4) by (simp add: Append_def Let_def l1 size new l2_def n_def)
  define i1 i2 where "i1 = unat (1 mod capacity)" and "i2 = unat (2 mod capacity)"
  have "i1 = 1 mod unat capacity" "i2 = 2 mod unat capacity" unfolding i1_def i2_def unat_mod by simp_all
  then have i: "i1 < unat capacity" "i2 < unat capacity" "i1 \<noteq> i2"
    using cap(1) mod_neq [of 1 2 "unat capacity"] by simp_all
  have "l_index l2 = (l_index ?l)[i1 := \<lparr>offset = 0, elength = of_nat n\<rparr>, i2 := \<lparr>offset = 0, elength = of_nat n\<rparr>]"
    by (simp add: l2_def l1 i1_def i2_def)
  then have idx: "l_index l2 ! i1 = \<lparr>offset = 0, elength = of_nat n\<rparr>" "l_index l2 ! i2 = \<lparr>offset = 0, elength = of_nat n\<rparr>"
    using i by (simp_all add: new)
  have l2: "l_head l2 = 3" "l_capacity l2 = capacity" "length (l_data l2) = C" "take n (l_data l2) = out2"
    using n(2,4) new(4) n(1) by (simp_all add: l2_def l1 write_at_def n_def)
  have "l_index l2 ! unat ((1 + of_nat k) mod capacity) = \<lparr>offset = 0, elength = of_nat n\<rparr>" if "k < 2" for k
    using that idx by (cases k) (simp_all add: less_Suc_eq i1_def i2_def)
  with app1 app2 l2 C n(2,4) show ?thesis unfolding n_def by (intro exI [of _ l2]) simp
qed



end
