(* ===== verification/Metrics.thy ===== *)
theory Metrics
  imports Float64 "HOL-Library.Signed_Division"
begin

text \<open>
  The metrics of \<^verbatim>\<open>src/metrics.go\<close>. \<^verbatim>\<open>Stat.Record\<close> is lock-free: it adds to two counters atomically and raises a
  maximum with a compare-and-swap loop. \<open>Record\<close> is one undisturbed call; \<open>rec_step\<close> is one atomic action of one of
  several calls that run at once, and a run is given by the sequence of goroutines that take a step.
\<close>

record Stat =
  s_Count :: int64
  s_Sum :: int64
  s_Max :: int64

definition Record :: "int64 \<Rightarrow> Stat \<Rightarrow> Stat" where
  "Record d s = \<lparr>s_Count = s_Count s + 1, s_Sum = s_Sum s + d,
     s_Max = (if sint d \<le> sint (s_Max s) then s_Max s else d)\<rparr>"

text \<open>Where a call of \<^verbatim>\<open>Record\<close> stands: before the first addition, before the second, before loading the maximum,
  before the compare-and-swap with the loaded maximum, and returned.\<close>

datatype rec_pc = RCount int64 | RSum int64 | RLoad int64 | RCas int64 int64 | RDone

fun rec_action :: "Stat \<Rightarrow> rec_pc \<Rightarrow> Stat \<times> rec_pc" where
  "rec_action s (RCount d) = (s\<lparr>s_Count := s_Count s + 1\<rparr>, RSum d)"
| "rec_action s (RSum d) = (s\<lparr>s_Sum := s_Sum s + d\<rparr>, RLoad d)"
| "rec_action s (RLoad d) = (s, if sint d \<le> sint (s_Max s) then RDone else RCas d (s_Max s))"
| "rec_action s (RCas d oldMax) =
     (if s_Max s = oldMax then (s\<lparr>s_Max := d\<rparr>, RDone) else (s, RLoad d))"
| "rec_action s RDone = (s, RDone)"

definition rec_step :: "nat \<Rightarrow> Stat \<times> rec_pc list \<Rightarrow> Stat \<times> rec_pc list" where
  "rec_step i c = (if i < length (snd c)
     then (case rec_action (fst c) (snd c ! i) of (s, pc) \<Rightarrow> (s, (snd c)[i := pc])) else c)"

record MetricsTracker =
  SetLat :: Stat
  GetLat :: Stat
  IncrLat :: Stat
  ReplicateLat :: Stat
  PeakAlloc :: uint64
  PeakHeapAlloc :: uint64
  PeakSys :: uint64
  m_stopped :: bool

definition zero_Stat :: Stat where
  "zero_Stat = \<lparr>s_Count = 0, s_Sum = 0, s_Max = 0\<rparr>"

definition NewMetricsTracker :: MetricsTracker where
  "NewMetricsTracker = \<lparr>SetLat = zero_Stat, GetLat = zero_Stat, IncrLat = zero_Stat, ReplicateLat = zero_Stat,
     PeakAlloc = 0, PeakHeapAlloc = 0, PeakSys = 0, m_stopped = False\<rparr>"

text \<open>One tick of \<^verbatim>\<open>memMonitor\<close> with the three readings of \<^verbatim>\<open>runtime.ReadMemStats\<close>.\<close>

definition memMonitor_tick :: "uint64 \<Rightarrow> uint64 \<Rightarrow> uint64 \<Rightarrow> MetricsTracker \<Rightarrow> MetricsTracker" where
  "memMonitor_tick alloc heapAlloc sys m =
     (let m = (if alloc > PeakAlloc m then m\<lparr>PeakAlloc := alloc\<rparr> else m);
          m = (if heapAlloc > PeakHeapAlloc m then m\<lparr>PeakHeapAlloc := heapAlloc\<rparr> else m)
      in if sys > PeakSys m then m\<lparr>PeakSys := sys\<rparr> else m)"

definition metrics_Stop :: "MetricsTracker \<Rightarrow> gopanic + MetricsTracker" where
  "metrics_Stop m = (if m_stopped m then Inl CloseOfClosedChannel else Inr (m\<lparr>m_stopped := True\<rparr>))"

record Summary =
  sum_Metric :: string
  sum_Average :: int64
  sum_Peak :: int64
  sum_Count :: int64
  sum_PeakMemMB :: float64
  sum_PeakHeapMB :: float64

definition zero_Summary :: "string \<Rightarrow> Summary" where
  "zero_Summary name = \<lparr>sum_Metric = name, sum_Average = 0, sum_Peak = 0, sum_Count = 0,
     sum_PeakMemMB = f_zero, sum_PeakHeapMB = f_zero\<rparr>"

text \<open>Go's integer division truncates towards zero and wraps.\<close>

definition summarize :: "string \<Rightarrow> Stat \<Rightarrow> Summary" where
  "summarize name s =
     (let count = s_Count s
      in if count = 0 then zero_Summary name
         else let avg = of_int (sint (s_Sum s) sdiv sint count)
              in (zero_Summary name)\<lparr>sum_Count := count, sum_Average := avg, sum_Peak := s_Max s\<rparr>)"

text \<open>Division by 1024 of the float of an integer, which is exact: the magnitude is a multiple of \<open>2 ^ 1074\<close> units.\<close>

definition f_div1024 :: "float64 \<Rightarrow> float64" where
  "f_div1024 f = f_make (f_neg f) (f_mag f div 1024)"

definition GetSummary :: "MetricsTracker \<Rightarrow> Summary list" where
  "GetSummary m =
     [summarize ''Set'' (SetLat m), summarize ''Get'' (GetLat m), summarize ''Incr'' (IncrLat m),
      summarize ''Replication'' (ReplicateLat m)]
     @ [(zero_Summary ''Memory (Peak)'')\<lparr>
          sum_PeakMemMB := f_div1024 (f_div1024 (f_of_int (uint (PeakAlloc m)))),
          sum_PeakHeapMB := f_div1024 (f_div1024 (f_of_int (uint (PeakHeapAlloc m))))\<rparr>]"

section \<open>Concurrent calls\<close>

text \<open>What a call still has to add, and the duration of a call that has not returned.\<close>

fun rec_pending :: "rec_pc \<Rightarrow> int64 \<times> int64" where
  "rec_pending (RCount d) = (1, d)"
| "rec_pending (RSum d) = (0, d)"
| "rec_pending pc = (0, 0)"

fun rec_dur :: "rec_pc \<Rightarrow> int64 option" where
  "rec_dur (RCount d) = Some d"
| "rec_dur (RSum d) = Some d"
| "rec_dur (RLoad d) = Some d"
| "rec_dur (RCas d m) = Some d"
| "rec_dur RDone = None"

lemma sum_list_update_group:
  fixes f :: "'b \<Rightarrow> 'a :: ab_group_add"
  shows "i < length xs \<Longrightarrow> sum_list (map f (xs[i := x])) = sum_list (map f xs) + f x - f (xs ! i)"
  by (induction xs arbitrary: i) (auto split: nat.split simp: nth_Cons)

lemma pending_shift:
  fixes a :: "'a :: ab_group_add"
  assumes "a' + p' = a + p" and "a + S = T"
  shows "a' + (S + p' - p) = T"
proof -
  have "a' = a + p - p'" using assms(1) by (metis add_diff_cancel_right')
  then show ?thesis by (simp add: algebra_simps flip: assms(2))
qed

text \<open>What is known of a call with duration \<open>d\<close> when the maximum is \<open>m\<close>.\<close>

definition pc_ok :: "int64 \<Rightarrow> int64 \<Rightarrow> rec_pc \<Rightarrow> bool" where
  "pc_ok m d pc \<longleftrightarrow> (case pc of RDone \<Rightarrow> sint d \<le> sint m | RCas d' m' \<Rightarrow> d' = d \<and> sint m' < sint d | _ \<Rightarrow> rec_dur pc = Some d)"

text \<open>The invariant: what is counted and what is pending add up; the maximum is the start value or a recorded duration, it
  is not below the durations of returned calls, and a call that is about to swap has a duration above the
  maximum it loaded.\<close>

definition rec_inv :: "Stat \<Rightarrow> int64 list \<Rightarrow> Stat \<times> rec_pc list \<Rightarrow> bool" where
  "rec_inv s0 ds c \<longleftrightarrow> length (snd c) = length ds \<and>
     s_Count (fst c) + sum_list (map (fst \<circ> rec_pending) (snd c)) = s_Count s0 + of_nat (length ds) \<and>
     s_Sum (fst c) + sum_list (map (snd \<circ> rec_pending) (snd c)) = s_Sum s0 + sum_list ds \<and>
     sint (s_Max s0) \<le> sint (s_Max (fst c)) \<and>
     s_Max (fst c) \<in> insert (s_Max s0) (set ds) \<and>
     (\<forall>i < length ds. pc_ok (s_Max (fst c)) (ds ! i) (snd c ! i))"

lemma pc_ok_mono: "pc_ok m d pc \<Longrightarrow> sint m \<le> sint m' \<Longrightarrow> pc_ok m' d pc"
  by (auto simp: pc_ok_def split: rec_pc.splits)

text \<open>One action adds what it takes off the pending amounts and does not lower the maximum.\<close>

lemma rec_action_ok:
  assumes "rec_action s pc = (s', pc')" and "pc_ok (s_Max s) d pc"
  shows "s_Count s' + fst (rec_pending pc') = s_Count s + fst (rec_pending pc)"
    and "s_Sum s' + snd (rec_pending pc') = s_Sum s + snd (rec_pending pc)"
    and "sint (s_Max s) \<le> sint (s_Max s')" and "s_Max s' = s_Max s \<or> s_Max s' = d" and "pc_ok (s_Max s') d pc'"
  using assms by (cases pc; auto simp: pc_ok_def split: if_splits)+

lemma rec_step_inv:
  assumes "rec_inv s0 ds c"
  shows "rec_inv s0 ds (rec_step i c)"
proof (cases "i < length (snd c)")
  case True
  obtain s pcs where c: "c = (s, pcs)" by (cases c)
  obtain s' pc' where a: "rec_action s (pcs ! i) = (s', pc')" by fastforce
  have step: "rec_step i c = (s', pcs[i := pc'])" using True by (simp add: rec_step_def c a)
  have inv: "length pcs = length ds"
      "s_Count s + sum_list (map (fst \<circ> rec_pending) pcs) = s_Count s0 + of_nat (length ds)"
      "s_Sum s + sum_list (map (snd \<circ> rec_pending) pcs) = s_Sum s0 + sum_list ds"
      "sint (s_Max s0) \<le> sint (s_Max s)" "s_Max s \<in> insert (s_Max s0) (set ds)"
      and ok: "\<And>j. j < length ds \<Longrightarrow> pc_ok (s_Max s) (ds ! j) (pcs ! j)"
    using assms by (simp_all add: rec_inv_def c)
  have i: "i < length ds" "i < length pcs" using True inv(1) by (simp_all add: c)
  note act = rec_action_ok [OF a ok [OF i(1)]]
  have "pc_ok (s_Max s') (ds ! j) (pcs[i := pc'] ! j)" if "j < length ds" for j
    using act(3,5) pc_ok_mono [OF ok [OF that]] i(2) by (cases "j = i") simp_all
  moreover have "s_Max s' \<in> insert (s_Max s0) (set ds)"
    using act(4) inv(5) i(1) by (auto simp: in_set_conv_nth)
  moreover have "s_Count s' + sum_list (map (fst \<circ> rec_pending) (pcs[i := pc'])) = s_Count s0 + of_nat (length ds)"
    using pending_shift [OF act(1) inv(2)] i(2) by (simp add: sum_list_update_group del: map_update)
  moreover have "s_Sum s' + sum_list (map (snd \<circ> rec_pending) (pcs[i := pc'])) = s_Sum s0 + sum_list ds"
    using pending_shift [OF act(2) inv(3)] i(2) by (simp add: sum_list_update_group del: map_update)
  ultimately show ?thesis
    using inv(1,4) act(3) unfolding rec_inv_def step by simp
qed (use assms in \<open>simp add: rec_step_def\<close>)

lemma rec_run_inv: "rec_inv s0 ds c \<Longrightarrow> rec_inv s0 ds (fold rec_step sched c)"
  by (induction sched arbitrary: c) (simp_all add: rec_step_inv)

lemma rec_start_inv: "rec_inv s0 ds (s0, map RCount ds)"
proof -
  have "sum_list (map (\<lambda>x. 1) ds) = (of_nat (length ds) :: int64)" by (induction ds) simp_all
  then show ?thesis by (simp add: rec_inv_def comp_def pc_ok_def)
qed

text \<open>C29: No recording is lost: whatever the interleaving of concurrent \<^verbatim>\<open>Record\<close> calls, once all of them have
  returned the count and the sum are those of all the calls and the maximum is the greatest of the old maximum and
  all durations.\<close>

theorem Record_linear:
  assumes "fold rec_step sched (s0, map RCount ds) = (s, pcs)" and "\<forall>pc \<in> set pcs. pc = RDone"
  shows "s_Count s = s_Count s0 + of_nat (length ds) \<and> s_Sum s = s_Sum s0 + sum_list ds \<and>
         sint (s_Max s) = Max (sint ` insert (s_Max s0) (set ds))"
proof -
  have inv: "rec_inv s0 ds (s, pcs)" using rec_run_inv [OF rec_start_inv, of s0 ds sched] assms(1) by simp
  have pcs: "pcs = replicate (length ds) RDone"
    using inv assms(2) by (intro replicate_eqI) (simp_all add: rec_inv_def)
  then have "s_Count s = s_Count s0 + of_nat (length ds)" "s_Sum s = s_Sum s0 + sum_list ds"
    using inv by (simp_all add: rec_inv_def sum_list_replicate)
  moreover have "\<forall>d \<in> set ds. sint d \<le> sint (s_Max s)"
    using inv pcs by (auto simp: rec_inv_def in_set_conv_nth pc_ok_def)
  then have "sint (s_Max s) = Max (sint ` insert (s_Max s0) (set ds))"
    using inv by (intro Max_eqI [symmetric]) (auto simp: rec_inv_def)
  ultimately show ?thesis by blast
qed

theorem Record_linear_witness:
  "fold rec_step [0, 1, 0, 1, 0, 1, 0, 1, 1, 1] (zero_Stat, map RCount [5, 9]) =
     (\<lparr>s_Count = 2, s_Sum = 14, s_Max = 9\<rparr>, [RDone, RDone]) \<and> sint (9 :: int64) = Max (sint ` {0, 5, 9 :: int64})"
proof -
  have run: "fold rec_step [0, 1, 0, 1, 0, 1, 0, 1, 1, 1] (zero_Stat, map RCount [5, 9]) =
     (\<lparr>s_Count = 2, s_Sum = 14, s_Max = 9\<rparr>, [RDone, RDone])"
    by (simp add: rec_step_def zero_Stat_def)
  from Record_linear [OF run] show ?thesis using run by (simp add: zero_Stat_def)
qed

section \<open>The retry loop ends\<close>

text \<open>A compare-and-swap that has to fail (its loaded maximum is stale) weighs more than a load, one that
  will succeed weighs less.\<close>

fun rec_weight :: "int64 \<Rightarrow> rec_pc \<Rightarrow> nat" where
  "rec_weight m (RCount d) = 4"
| "rec_weight m (RSum d) = 3"
| "rec_weight m (RLoad d) = 2"
| "rec_weight m (RCas d m') = (if m' = m then 1 else 3)"
| "rec_weight m RDone = 0"

definition rec_measure :: "Stat \<times> rec_pc list \<Rightarrow> nat \<times> nat" where
  "rec_measure c = (sum_list (map (\<lambda>pc. of_bool (pc \<noteq> RDone)) (snd c)),
     sum_list (map (rec_weight (s_Max (fst c))) (snd c)))"

lemma sum_list_update_less:
  fixes f :: "'b \<Rightarrow> nat"
  shows "i < length xs \<Longrightarrow> f x < f (xs ! i) \<Longrightarrow> sum_list (map f (xs[i := x])) < sum_list (map f xs)"
proof (induction xs arbitrary: i)
  case (Cons y xs)
  then show ?case by (cases i) simp_all
qed simp

lemma sum_list_update_same:
  fixes f :: "'b \<Rightarrow> nat"
  shows "i < length xs \<Longrightarrow> f x = f (xs ! i) \<Longrightarrow> sum_list (map f (xs[i := x])) = sum_list (map f xs)"
proof (induction xs arbitrary: i)
  case (Cons y xs)
  then show ?case by (cases i) simp_all
qed simp

lemma rec_action_progress:
  assumes "rec_action s pc = (s', pc')" and "pc \<noteq> RDone"
  shows "pc' = RDone \<or> s_Max s' = s_Max s \<and> rec_weight (s_Max s) pc' < rec_weight (s_Max s) pc"
  using assms by (cases pc) (auto split: if_splits)

lemma rec_step_progress:
  assumes "i < length (snd c)" and "snd c ! i \<noteq> RDone"
  shows "(rec_measure (rec_step i c), rec_measure c) \<in> less_than <*lex*> less_than"
proof -
  obtain s pcs where c: "c = (s, pcs)" by (cases c)
  obtain s' pc' where a: "rec_action s (pcs ! i) = (s', pc')" by fastforce
  have step: "rec_step i c = (s', pcs[i := pc'])" using assms(1) by (simp add: rec_step_def c a)
  have i: "i < length pcs" "pcs ! i \<noteq> RDone" using assms by (simp_all add: c)
  show ?thesis
  proof (cases "pc' = RDone")
    case True
    have "sum_list (map (\<lambda>pc. of_bool (pc \<noteq> RDone)) (pcs[i := pc'])) < sum_list (map (\<lambda>pc. of_bool (pc \<noteq> RDone) :: nat) pcs)"
      by (rule sum_list_update_less) (simp_all add: i True)
    then show ?thesis unfolding step rec_measure_def by (simp add: c del: map_update)
  next
    case False
    with rec_action_progress [OF a i(2)] have w: "s_Max s' = s_Max s" "rec_weight (s_Max s) pc' < rec_weight (s_Max s) (pcs ! i)"
      by simp_all
    have "sum_list (map (\<lambda>pc. of_bool (pc \<noteq> RDone)) (pcs[i := pc'])) = sum_list (map (\<lambda>pc. of_bool (pc \<noteq> RDone) :: nat) pcs)"
      by (rule sum_list_update_same) (simp_all add: i False)
    moreover have "sum_list (map (rec_weight (s_Max s)) (pcs[i := pc'])) < sum_list (map (rec_weight (s_Max s)) pcs)"
      by (rule sum_list_update_less) (simp_all add: i w)
    ultimately show ?thesis unfolding step rec_measure_def using w(1) by (simp add: c del: map_update)
  qed
qed

text \<open>C30: The retry loop of \<^verbatim>\<open>Record\<close> ends: concurrent calls cannot keep each other retrying for ever, since there is no infinite run
  in which every step is taken by a call that has not returned.\<close>

theorem Record_terminates:
  "\<not> (\<exists>run sched. \<forall>k. sched k < length (snd (run k)) \<and> snd (run k) ! sched k \<noteq> RDone \<and>
        run (Suc k) = rec_step (sched k) (run k))"
proof
  assume "\<exists>run sched. \<forall>k. sched k < length (snd (run k)) \<and> snd (run k) ! sched k \<noteq> RDone \<and>
        run (Suc k) = rec_step (sched k) (run k)"
  then obtain run where "\<forall>k. (rec_measure (run (Suc k)), rec_measure (run k)) \<in> less_than <*lex*> less_than"
    using rec_step_progress by metis
  then have "\<exists>f. \<forall>k. (f (Suc k), f k) \<in> less_than <*lex*> less_than"
    by (intro exI [of _ "\<lambda>k. rec_measure (run k)"])
  then show False
    using wf_iff_no_infinite_down_chain [THEN iffD1, OF wf_lex_prod [OF wf_less_than wf_less_than]] by (rule notE [rotated])
qed

section \<open>Summaries\<close>

text \<open>The summary is right: after recording a non-empty sequence of non-negative durations whose sum fits,
  \<^verbatim>\<open>summarize\<close> reports their number, the greatest of them, and their mean rounded down, which is not above the
  greatest.\<close>

theorem summarize_mean:
  assumes "ds \<noteq> []" and "\<forall>d \<in> set ds. 0 \<le> sint d" and "sum_list (map sint ds) < 2 ^ 63" and "length ds < 2 ^ 63"
  shows "let s = summarize name (fold Record ds zero_Stat)
         in sint (sum_Count s) = int (length ds) \<and>
            sint (sum_Average s) = sum_list (map sint ds) div int (length ds) \<and>
            sint (sum_Peak s) = Max (sint ` set ds) \<and> sint (sum_Average s) \<le> sint (sum_Peak s)"
proof -
  have sum0: "0 \<le> sum_list (map sint xs)" if "\<forall>d \<in> set xs. 0 \<le> sint d" for xs :: "int64 list"
    using that by (induction xs) auto
  have fold: "s_Count (fold Record xs s) = s_Count s + of_nat (length xs)"
      "s_Sum (fold Record xs s) = s_Sum s + of_int (sum_list (map sint xs))" for xs s
    by (induction xs arbitrary: s) (simp_all add: Record_def)
  have "sint (s_Max (fold Record xs s)) = fold max (map sint xs) (sint (s_Max s))" for xs s
    by (induction xs arbitrary: s) (simp_all add: Record_def max_def)
  then have max: "sint (s_Max (fold Record xs s)) = Max (insert (sint (s_Max s)) (sint ` set xs))" for xs s
    using Max.set_eq_fold [of "sint (s_Max s)" "map sint xs"] by simp
  let ?s = "fold Record ds zero_Stat" and ?S = "sum_list (map sint ds)" and ?n = "int (length ds)"
  have S: "0 \<le> ?S" using sum0 assms(2) by blast
  have n: "0 < ?n" using assms(1) by simp
  have count: "sint (s_Count ?s) = ?n"
    using sint_of_int64 [of ?n] assms(4) fold [of ds zero_Stat] by (simp add: zero_Stat_def)
  have sum: "sint (s_Sum ?s) = ?S"
    using sint_of_int64 [of ?S] S assms(3) fold [of ds zero_Stat] by (simp add: zero_Stat_def)
  have "Max (sint ` set ds) \<in> sint ` set ds" using assms(1) by (intro Max_in) simp_all
  then have "0 \<le> Max (sint ` set ds)" using assms(2) by auto
  then have "Max (insert 0 (sint ` set ds)) = Max (sint ` set ds)"
    using assms(1) by (simp add: Max_insert del: image_set)
  then have peak: "sint (s_Max ?s) = Max (sint ` set ds)" using max [of ds zero_Stat] by (simp add: zero_Stat_def)
  have "?S \<le> ?n * Max (sint ` set ds)"
    using sum_list_mono [of ds sint "\<lambda>_. Max (sint ` set ds)"] by (simp add: sum_list_triv)
  then have le: "?S div ?n \<le> Max (sint ` set ds)"
    using zdiv_mono1 [OF _ n] n by fastforce
  have "?S div ?n \<le> ?S div 1" using S n by (intro zdiv_mono2) (simp_all add: Suc_le_eq)
  moreover have "0 \<le> ?S div ?n" using S n by (simp add: pos_imp_zdiv_nonneg_iff)
  ultimately have "sint (of_int (?S div ?n) :: int64) = ?S div ?n"
    using assms(3) by (intro sint_of_int64) simp_all
  moreover have "?S sdiv ?n = ?S div ?n" using S n by (simp add: signed_divide_int_def sgn_if)
  ultimately have avg: "sint (of_int (?S sdiv ?n) :: int64) = ?S div ?n" by simp
  have "s_Count ?s \<noteq> 0" using count n by auto
  then show ?thesis
    using count sum peak le avg by (simp add: summarize_def Let_def zero_Summary_def)
qed

theorem summarize_mean_witness:
  "sint (sum_Average (summarize ''Set'' (fold Record [5, 9, 9] zero_Stat))) = (23 :: int) div 3 \<and>
   sint (sum_Count (summarize ''Set'' (fold Record [5, 9, 9] zero_Stat))) = 3"
  using summarize_mean [of "[5, 9, 9]" "''Set''"] by (simp add: Let_def del: fold_simps)

text \<open>Peaks only grow and are the greatest readings: after any sequence of ticks the three peaks are the
  greatest of their old values and of all readings.\<close>

theorem memMonitor_peaks:
  "let m' = fold (\<lambda>(a, h, s). memMonitor_tick a h s) ticks m
   in PeakAlloc m' = fold max (map fst ticks) (PeakAlloc m) \<and>
      PeakHeapAlloc m' = fold max (map (fst \<circ> snd) ticks) (PeakHeapAlloc m) \<and>
      PeakSys m' = fold max (map (snd \<circ> snd) ticks) (PeakSys m) \<and>
      SetLat m' = SetLat m \<and> ReplicateLat m' = ReplicateLat m"
  by (induction ticks arbitrary: m) (auto simp: memMonitor_tick_def Let_def max_def not_less split: if_splits)

end
