(* ===== verification/Client.thy ===== *)
theory Client
  imports Codec_Laws
begin

text \<open>
  The client side of \<^verbatim>\<open>src/transport.go\<close>: the pool of outgoing connections, the handshake on the first batch of each
  connection, the janitor that closes idle connections, and the pool of encoding buffers. The network is
  represented by the outcomes of dialling and writing, which are arguments. Two fields are not in the source: connections are
  numbered in the order they are opened, and the batches written to them are recorded.
\<close>

record clientConn =
  cc_id :: nat
  cc_lastUsed :: int64
  cc_handshakeDone :: bool

record StreamClient =
  conns :: "string \<rightharpoonup> clientConn"
  cl_authToken :: string
  cl_stopped :: bool
  cl_next :: nat
  cl_open :: "nat set"
  cl_written :: "(nat \<times> Batch) list"

definition NewStreamClient :: "string \<Rightarrow> StreamClient" where
  "NewStreamClient authToken = \<lparr>conns = Map.empty, cl_authToken = authToken, cl_stopped = False, cl_next = 0,
     cl_open = {}, cl_written = []\<rparr>"

text \<open>\<^verbatim>\<open>dial\<close>: a pooled connection is used again; otherwise a new one is opened and, unless another goroutine has
  registered one meanwhile (\<open>dial_register\<close>), put into the pool.\<close>

definition dial_lookup :: "string \<Rightarrow> int64 \<Rightarrow> StreamClient \<Rightarrow> StreamClient \<times> clientConn option" where
  "dial_lookup nodeID now c =
     (case conns c nodeID of
        Some cc \<Rightarrow> (let cc = cc\<lparr>cc_lastUsed := now\<rparr> in (c\<lparr>conns := (conns c)(nodeID \<mapsto> cc)\<rparr>, Some cc))
      | None \<Rightarrow> (c, None))"

definition dial_register :: "string \<Rightarrow> int64 \<Rightarrow> StreamClient \<Rightarrow> StreamClient \<times> clientConn" where
  "dial_register nodeID now c =
     (let cc = \<lparr>cc_id = cl_next c, cc_lastUsed = now, cc_handshakeDone = False\<rparr>;
          c = c\<lparr>cl_next := Suc (cl_next c)\<rparr>
      in case conns c nodeID of
           Some existing \<Rightarrow> (c, existing)
         | None \<Rightarrow> (c\<lparr>conns := (conns c)(nodeID \<mapsto> cc), cl_open := insert (cc_id cc) (cl_open c)\<rparr>, cc))"

definition dial :: "string \<Rightarrow> int64 \<Rightarrow> goerr option \<Rightarrow> int64 \<Rightarrow> StreamClient \<Rightarrow> StreamClient \<times> (goerr + clientConn)" where
  "dial nodeID now1 dialled now2 c =
     (case dial_lookup nodeID now1 c of
        (c, Some cc) \<Rightarrow> (c, Inr cc)
      | (c, None) \<Rightarrow>
          (case dialled of
             Some e \<Rightarrow> (c, Inl e)
           | None \<Rightarrow> (let (c, cc) = dial_register nodeID now2 c in (c, Inr cc))))"

text \<open>Closing a connection and taking it out of the pool.\<close>

definition drop_conn :: "string \<Rightarrow> nat \<Rightarrow> StreamClient \<Rightarrow> StreamClient" where
  "drop_conn nodeID i c =
     (case conns c nodeID of
        Some current \<Rightarrow>
          if cc_id current = i then c\<lparr>conns := (conns c)(nodeID := None), cl_open := cl_open c - {i}\<rparr>
          else c\<lparr>cl_open := cl_open c - {i}\<rparr>
      | None \<Rightarrow> c\<lparr>cl_open := cl_open c - {i}\<rparr>)"

text \<open>\<^verbatim>\<open>SendBatch\<close>, with the outcome of dialling and of the write. The connection is a shared object: setting its
  handshake flag is seen through the pool.\<close>

definition SendBatch ::
  "string \<Rightarrow> Batch \<Rightarrow> uint64 \<Rightarrow> int64 \<Rightarrow> goerr option \<Rightarrow> int64 \<Rightarrow> goerr option \<Rightarrow> StreamClient \<Rightarrow> StreamClient \<times> goerr option" where
  "SendBatch nodeID batch lastSeenPeerSeq now1 dialled now2 wrote c =
     (case dial nodeID now1 dialled now2 c of
        (c, Inl e) \<Rightarrow> (c, Some e)
      | (c, Inr cc) \<Rightarrow>
          (let (batch, c) =
             (if \<not> cc_handshakeDone cc
              then (batch\<lparr>b_Handshake := Some \<lparr>h_LastSeenSeq = lastSeenPeerSeq, h_AuthToken = cl_authToken c\<rparr>\<rparr>,
                    c\<lparr>conns := (conns c)(nodeID \<mapsto> cc\<lparr>cc_handshakeDone := True\<rparr>)\<rparr>)
              else (batch, c));
               c = c\<lparr>cl_written := cl_written c @ [(cc_id cc, batch)]\<rparr>
           in case wrote of
                Some e \<Rightarrow> (drop_conn nodeID (cc_id cc) c, Some e)
              | None \<Rightarrow> (c, None)))"

definition conn_idle :: "int64 \<Rightarrow> clientConn \<Rightarrow> bool" where
  "conn_idle now cc \<longleftrightarrow> sint (now - cc_lastUsed cc) > 120000000000"

definition client_janitor :: "int64 \<Rightarrow> StreamClient \<Rightarrow> StreamClient" where
  "client_janitor now c =
     c\<lparr>conns := (\<lambda>n. case conns c n of Some cc \<Rightarrow> if conn_idle now cc then None else Some cc | None \<Rightarrow> None),
       cl_open := cl_open c - {cc_id cc | n cc. conns c n = Some cc \<and> conn_idle now cc}\<rparr>"

definition CloseConn :: "string \<Rightarrow> StreamClient \<Rightarrow> StreamClient" where
  "CloseConn nodeID c =
     (case conns c nodeID of
        Some cc \<Rightarrow> c\<lparr>conns := (conns c)(nodeID := None), cl_open := cl_open c - {cc_id cc}\<rparr>
      | None \<Rightarrow> c)"

definition client_Close :: "StreamClient \<Rightarrow> gopanic + StreamClient" where
  "client_Close c =
     (if cl_stopped c then Inl CloseOfClosedChannel
      else Inr (c\<lparr>cl_stopped := True, conns := Map.empty, cl_open := cl_open c - {cc_id cc | n cc. conns c n = Some cc}\<rparr>))"

text \<open>The pool of buffers, of which the capacities matter: a buffer above 16 MB is not kept.\<close>

definition putBatchBuffer :: "nat \<Rightarrow> nat list \<Rightarrow> nat list" where
  "putBatchBuffer cap pool = (if cap \<le> 16 * 1024 * 1024 then cap # pool else pool)"

section \<open>Runs of a client\<close>

datatype client_op =
    CSend string Batch uint64 int64 "goerr option" int64 "goerr option"
  | CJanitor int64
  | CCloseConn string

fun client_step :: "client_op \<Rightarrow> StreamClient \<Rightarrow> StreamClient" where
  "client_step (CSend n b q t1 d t2 w) c = fst (SendBatch n b q t1 d t2 w c)"
| "client_step (CJanitor t) c = client_janitor t c"
| "client_step (CCloseConn n) c = CloseConn n c"

text \<open>The first batch written to a connection carries the handshake and the later ones carry what they were
  given.\<close>

definition handshakes_ok :: "string \<Rightarrow> (nat \<times> Batch) list \<Rightarrow> bool" where
  "handshakes_ok token ws \<longleftrightarrow>
     (\<forall>j < length ws. fst (ws ! j) \<notin> fst ` set (take j ws) \<longrightarrow>
        (\<exists>h. b_Handshake (snd (ws ! j)) = Some h \<and> h_AuthToken h = token))"

text \<open>The invariant of the pool: pooled connections are open, numbered below the next number and pooled under one name,
  and a connection has its handshake done exactly if something was written to it.\<close>

definition pool_inv :: "StreamClient \<Rightarrow> bool" where
  "pool_inv c \<longleftrightarrow>
     (\<forall>n cc. conns c n = Some cc \<longrightarrow> cc_id cc < cl_next c \<and> cc_id cc \<in> cl_open c \<and>
        (cc_handshakeDone cc \<longleftrightarrow> cc_id cc \<in> fst ` set (cl_written c))) \<and>
     (\<forall>n n' cc cc'. conns c n = Some cc \<and> conns c n' = Some cc' \<and> cc_id cc = cc_id cc' \<longrightarrow> n = n') \<and>
     (\<forall>w \<in> set (cl_written c). fst w < cl_next c) \<and> handshakes_ok (cl_authToken c) (cl_written c)"

lemma handshakes_ok_snoc:
  "handshakes_ok token (ws @ [w]) \<longleftrightarrow> handshakes_ok token ws \<and>
     (fst w \<notin> fst ` set ws \<longrightarrow> (\<exists>h. b_Handshake (snd w) = Some h \<and> h_AuthToken h = token))"
  by (auto simp: handshakes_ok_def nth_append less_Suc_eq)

lemma pool_inv_new: "pool_inv (NewStreamClient token)"
  by (simp add: pool_inv_def NewStreamClient_def handshakes_ok_def)

lemma pool_inv_drop:
  assumes "pool_inv c" and "conns c n = Some cc" and "cc_id cc = i"
  shows "pool_inv (c\<lparr>conns := (conns c)(n := None), cl_open := cl_open c - {i}\<rparr>)"
proof -
  have "cc_id cc' \<noteq> i" if "conns c n' = Some cc'" "n' \<noteq> n" for n' cc'
    using assms that unfolding pool_inv_def by blast
  then show ?thesis using assms(1) by (simp add: pool_inv_def)
qed

lemma pool_inv_touch:
  assumes "pool_inv c" and "conns c n = Some cc"
  shows "pool_inv (c\<lparr>conns := (conns c)(n \<mapsto> cc\<lparr>cc_lastUsed := t\<rparr>)\<rparr>)"
proof -
  define W where "W = fst ` set (cl_written c)"
  have all: "\<And>n cc. conns c n = Some cc \<Longrightarrow> cc_id cc < cl_next c \<and> cc_id cc \<in> cl_open c \<and> (cc_handshakeDone cc \<longleftrightarrow> cc_id cc \<in> W)"
    and uniq: "\<And>n n' cc cc'. conns c n = Some cc \<Longrightarrow> conns c n' = Some cc' \<Longrightarrow> cc_id cc = cc_id cc' \<Longrightarrow> n = n'"
    and rest: "\<forall>w \<in> set (cl_written c). fst w < cl_next c" "handshakes_ok (cl_authToken c) (cl_written c)"
    using assms(1) unfolding pool_inv_def W_def [symmetric] by blast+
  show ?thesis
    unfolding pool_inv_def using all uniq [OF assms(2)] uniq rest all [OF assms(2)]
    by (simp add: W_def [symmetric]) metis
qed

lemma dial_inv:
  assumes "pool_inv c" and "dial n t1 d t2 c = (c', r)"
  shows "pool_inv c'" and "r = Inr cc \<Longrightarrow> conns c' n = Some cc" and "cl_authToken c' = cl_authToken c"
proof -
  have "pool_inv c' \<and> (\<forall>cc. r = Inr cc \<longrightarrow> conns c' n = Some cc) \<and> cl_authToken c' = cl_authToken c"
  proof (cases "conns c n")
    case None
    show ?thesis
    proof (cases d)
      case None': None
      have "\<forall>w \<in> set (cl_written c). fst w < cl_next c" and "\<forall>n cc. conns c n = Some cc \<longrightarrow> cc_id cc < cl_next c"
        using assms(1) unfolding pool_inv_def by blast+
      then have "cl_next c \<notin> fst ` set (cl_written c)" and "\<forall>n cc. conns c n = Some cc \<longrightarrow> cc_id cc \<noteq> cl_next c"
        by fastforce+
      moreover define cc where "cc = \<lparr>cc_id = cl_next c, cc_lastUsed = t2, cc_handshakeDone = False\<rparr>"
      moreover have "c' = c\<lparr>cl_next := Suc (cl_next c), conns := (conns c)(n \<mapsto> cc),
          cl_open := insert (cl_next c) (cl_open c)\<rparr>" "r = Inr cc"
        using assms(2) None None' by (auto simp: dial_def dial_lookup_def dial_register_def Let_def cc_def)
      ultimately show ?thesis
        using assms(1) unfolding pool_inv_def by (auto simp: less_Suc_eq split: if_splits) blast
    next
      case (Some e)
      with assms None show ?thesis by (auto simp: dial_def dial_lookup_def)
    qed
  next
    case (Some cc)
    then have "c' = c\<lparr>conns := (conns c)(n \<mapsto> cc\<lparr>cc_lastUsed := t1\<rparr>)\<rparr>" "r = Inr (cc\<lparr>cc_lastUsed := t1\<rparr>)"
      using assms(2) by (simp_all add: dial_def dial_lookup_def Let_def)
    then show ?thesis using pool_inv_touch [OF assms(1) Some] by simp
  qed
  then show "pool_inv c'" and "r = Inr cc \<Longrightarrow> conns c' n = Some cc" and "cl_authToken c' = cl_authToken c" by auto
qed

text \<open>A batch written to a pooled connection.\<close>

lemma pool_inv_write:
  assumes "pool_inv c" and "conns c n = Some cc"
    and "\<not> cc_handshakeDone cc \<Longrightarrow> \<exists>h. b_Handshake b = Some h \<and> h_AuthToken h = cl_authToken c"
  shows "pool_inv (c\<lparr>conns := (conns c)(n \<mapsto> cc\<lparr>cc_handshakeDone := True\<rparr>), cl_written := cl_written c @ [(cc_id cc, b)]\<rparr>)"
proof -
  have "handshakes_ok (cl_authToken c) (cl_written c @ [(cc_id cc, b)])"
    using assms by (auto simp: handshakes_ok_snoc pool_inv_def)
  moreover have "cc_id cc' \<noteq> cc_id cc" if "conns c n' = Some cc'" "n' \<noteq> n" for n' cc'
    using assms that by (auto simp: pool_inv_def)
  ultimately show ?thesis
    using assms(1,2) by (auto simp: pool_inv_def split: if_splits)
qed

lemma SendBatch_inv:
  assumes "pool_inv c"
  shows "pool_inv (fst (SendBatch n b q t1 d t2 w c)) \<and> cl_authToken (fst (SendBatch n b q t1 d t2 w c)) = cl_authToken c"
proof -
  obtain c1 r where dial: "dial n t1 d t2 c = (c1, r)" by fastforce
  note inv = dial_inv [OF assms dial]
  show ?thesis
  proof (cases r)
    case (Inl e)
    with dial inv show ?thesis by (simp add: SendBatch_def)
  next
    case (Inr cc)
    then have cc: "conns c1 n = Some cc" using inv(2) by blast
    define b' where "b' = (if \<not> cc_handshakeDone cc
      then b\<lparr>b_Handshake := Some \<lparr>h_LastSeenSeq = q, h_AuthToken = cl_authToken c1\<rparr>\<rparr> else b)"
    define c2 where "c2 = c1\<lparr>conns := (conns c1)(n \<mapsto> cc\<lparr>cc_handshakeDone := True\<rparr>), cl_written := cl_written c1 @ [(cc_id cc, b')]\<rparr>"
    have inv2: "pool_inv c2"
      unfolding c2_def by (rule pool_inv_write [OF inv(1) cc]) (simp add: b'_def)
    have same: "cc\<lparr>cc_handshakeDone := True\<rparr> = cc" if "cc_handshakeDone cc" using that by (cases cc) simp
    have send: "SendBatch n b q t1 d t2 w c = (case w of Some e \<Rightarrow> (drop_conn n (cc_id cc) c2, Some e) | None \<Rightarrow> (c2, None))"
      using dial Inr cc same by (auto simp: SendBatch_def b'_def c2_def fun_upd_idem split: option.split)
    have "pool_inv (drop_conn n (cc_id cc) c2)"
      using pool_inv_drop [OF inv2, of n "cc\<lparr>cc_handshakeDone := True\<rparr>" "cc_id cc"] by (simp add: drop_conn_def c2_def)
    moreover have "cl_authToken (drop_conn n (cc_id cc) c2) = cl_authToken c2"
      by (simp add: drop_conn_def Let_def split: option.split)
    ultimately show ?thesis
      using inv2 inv(3) by (simp add: send split: option.split) (simp add: c2_def)
  qed
qed

lemma janitor_inv:
  assumes "pool_inv c"
  shows "pool_inv (client_janitor t c)"
proof -
  have conns: "conns (client_janitor t c) n = Some cc \<longleftrightarrow> conns c n = Some cc \<and> \<not> conn_idle t cc" for n cc
    by (auto simp: client_janitor_def split: option.splits)
  have uniq: "n = n'" if "conns c n = Some cc" "conns c n' = Some cc'" "cc_id cc = cc_id cc'" for n n' cc cc'
    using assms that unfolding pool_inv_def by blast
  have "cc_id cc \<in> cl_open (client_janitor t c)" if "conns c n = Some cc" "\<not> conn_idle t cc" for n cc
  proof -
    have "cc_id cc \<in> cl_open c" using assms that(1) unfolding pool_inv_def by blast
    moreover have "\<not> (\<exists>n' cc'. cc_id cc = cc_id cc' \<and> conns c n' = Some cc' \<and> conn_idle t cc')"
      using uniq [OF that(1)] that by (metis option.inject)
    ultimately show ?thesis by (simp add: client_janitor_def)
  qed
  moreover have "cl_next (client_janitor t c) = cl_next c" "cl_written (client_janitor t c) = cl_written c"
    "cl_authToken (client_janitor t c) = cl_authToken c" by (simp_all add: client_janitor_def)
  ultimately show ?thesis
    using assms unfolding pool_inv_def conns by metis
qed

lemma CloseConn_inv: "pool_inv c \<Longrightarrow> pool_inv (CloseConn n c)"
  by (cases "conns c n") (simp_all add: CloseConn_def pool_inv_drop)

lemma client_step_inv: "pool_inv c \<Longrightarrow> pool_inv (client_step x c) \<and> cl_authToken (client_step x c) = cl_authToken c"
proof (cases x)
  case (CCloseConn n)
  then show "pool_inv c \<Longrightarrow> ?thesis" by (simp add: CloseConn_inv) (simp add: CloseConn_def split: option.split)
qed (simp_all add: SendBatch_inv janitor_inv, simp add: client_janitor_def)

lemma client_run_inv:
  "pool_inv (fold client_step xs (NewStreamClient token)) \<and> cl_authToken (fold client_step xs (NewStreamClient token)) = token"
proof -
  have "pool_inv (fold client_step xs c) \<and> cl_authToken (fold client_step xs c) = cl_authToken c" if "pool_inv c" for c
    using that by (induction xs arbitrary: c) (simp_all add: client_step_inv)
  from this [OF pool_inv_new [of token]] show ?thesis by (simp add: NewStreamClient_def)
qed

lemma pool_inv_handshakes: "pool_inv c \<Longrightarrow> handshakes_ok (cl_authToken c) (cl_written c)"
  by (simp add: pool_inv_def)

text \<open>C20: Authentication comes first: in every run of a client, over any sends, failures, idle closings and node departures, the
  first batch written to each connection carries a handshake with the configured token.\<close>

theorem handshake_first:
  "handshakes_ok token (cl_written (fold client_step xs (NewStreamClient token)))"
  using client_run_inv [of xs token] pool_inv_handshakes by metis

section \<open>What travels on one connection\<close>

definition conn_batches :: "nat \<Rightarrow> (nat \<times> Batch) list \<Rightarrow> Batch list" where
  "conn_batches i ws = map snd (filter (\<lambda>w. fst w = i) ws)"

text \<open>A session of batches that a server with the token accepts: the first one carries a handshake, and every handshake carries the
  token.\<close>

definition session_ok :: "string \<Rightarrow> Batch list \<Rightarrow> bool" where
  "session_ok token bs \<longleftrightarrow> (\<forall>b \<in> set bs. \<forall>h. b_Handshake b = Some h \<longrightarrow> h_AuthToken h = token) \<and>
     (bs \<noteq> [] \<longrightarrow> b_Handshake (hd bs) \<noteq> None)"

text \<open>The replicator passes batches without a handshake.\<close>

fun plain_op :: "client_op \<Rightarrow> bool" where
  "plain_op (CSend n b q t1 d t2 w) \<longleftrightarrow> b_Handshake b = None"
| "plain_op (CJanitor t) \<longleftrightarrow> True"
| "plain_op (CCloseConn n) \<longleftrightarrow> True"

definition tokens_ok :: "StreamClient \<Rightarrow> bool" where
  "tokens_ok c \<longleftrightarrow> (\<forall>w \<in> set (cl_written c). \<forall>h. b_Handshake (snd w) = Some h \<longrightarrow> h_AuthToken h = cl_authToken c)"

lemma tokens_ok_step: "plain_op x \<Longrightarrow> tokens_ok c \<Longrightarrow> tokens_ok (client_step x c)"
proof (cases x)
  case (CSend n b q t1 d t2 w)
  assume *: "plain_op x" "tokens_ok c"
  obtain c1 r where dial: "dial n t1 d t2 c = (c1, r)" by fastforce
  have "cl_written c1 = cl_written c" "cl_authToken c1 = cl_authToken c"
    using dial by (auto simp: dial_def dial_lookup_def dial_register_def Let_def split: option.splits)
  moreover have "cl_written (drop_conn n i c') = cl_written c'" "cl_authToken (drop_conn n i c') = cl_authToken c'" for i c'
    by (simp_all add: drop_conn_def split: option.split)
  ultimately show ?thesis
    using * CSend dial by (auto simp: SendBatch_def tokens_ok_def Let_def split: sum.splits option.splits)
next
  case (CCloseConn n)
  then show "tokens_ok c \<Longrightarrow> ?thesis" by (simp add: CloseConn_def tokens_ok_def split: option.split)
qed (simp add: client_janitor_def tokens_ok_def)

lemma tokens_ok_run: "list_all plain_op xs \<Longrightarrow> tokens_ok c \<Longrightarrow> tokens_ok (fold client_step xs c)"
  by (induction xs arbitrary: c) (simp_all add: tokens_ok_step)

lemma handshakes_ok_conn:
  assumes "handshakes_ok token ws" and "conn_batches i ws \<noteq> []"
  shows "b_Handshake (hd (conn_batches i ws)) \<noteq> None"
  using assms
proof (induction ws rule: rev_induct)
  case (snoc w ws)
  show ?case
  proof (cases "conn_batches i ws = []")
    case True
    then have "i \<notin> fst ` set ws" by (auto simp: conn_batches_def filter_empty_conv)
    with snoc.prems True show ?thesis
      by (auto simp: conn_batches_def handshakes_ok_snoc split: if_splits)
  next
    case False
    with snoc show ?thesis by (auto simp: handshakes_ok_snoc conn_batches_def)
  qed
qed (simp add: conn_batches_def)

lemma client_session_ok:
  assumes "list_all plain_op xs"
  shows "session_ok token (conn_batches i (cl_written (fold client_step xs (NewStreamClient token))))"
proof -
  have "tokens_ok (NewStreamClient token)" by (simp add: tokens_ok_def NewStreamClient_def)
  from tokens_ok_run [OF assms this] have *: "tokens_ok (fold client_step xs (NewStreamClient token))" .
  have "handshakes_ok token (cl_written (fold client_step xs (NewStreamClient token)))"
    using client_run_inv [of xs token] pool_inv_handshakes by metis
  from handshakes_ok_conn [OF this, of i] * client_run_inv [of xs token] show ?thesis
    by (auto simp: session_ok_def tokens_ok_def conn_batches_def)
qed

end
