(* ===== verification/Node.thy ===== *)
theory Node
  imports Store Delta_Log Metrics Client
begin

text \<open>
  The node of \<^verbatim>\<open>src/capacitor.go\<close>: its state, the public operations, the handler of replicated entries, and the
  replication to a peer. The general-purpose encoder \<^verbatim>\<open>github.com/vmihailenco/msgpack\<close>, which is not part of the repository, is
  a parameter. Readings of the wall clock come from a stream (\<open>c_walls\<close>, read at the position \<open>c_ticks\<close>) about which
  nothing is assumed; where Go's \<^verbatim>\<open>&&\<close> skips a reading the model may make it. An operation whose log append can panic returns the
  panic.
\<close>

section \<open>Data\<close>

text \<open>The encoder: \<^verbatim>\<open>Marshal\<close>, and \<^verbatim>\<open>Unmarshal\<close> into a variable of type \<^verbatim>\<open>any\<close> and into a destination of a given
  type.\<close>

datatype 't dest = PtrString | PtrBytes | PtrOther 't | NotPtr

record ('o, 't) msgpack =
  mpMarshal :: "'o any \<Rightarrow> goerr + bytes"
  mpUnmarshal :: "bytes \<Rightarrow> 'o any"
  mpUnmarshalInto :: "bytes \<Rightarrow> 't dest \<Rightarrow> goerr + 'o any"
  mpTypeOf :: "'o \<Rightarrow> 't"

record 'o Capacitor =
  c_nodeID :: string
  c_store :: "'o store"
  c_hlc :: HLC
  c_log :: DeltaLog
  c_client :: StreamClient
  c_metrics :: MetricsTracker
  c_authToken :: string
  c_peerSeqs :: "string \<rightharpoonup> uint64"
  c_peerStops :: "string \<rightharpoonup> nat"
  c_streamAddr :: string
  c_stopped :: bool
  c_serverStopped :: bool
  c_ctxDone :: bool
  c_disableMetrics :: bool
  c_running :: "(nat \<times> string \<times> string) list"
  c_stopsClosed :: "nat set"
  c_walls :: "nat \<Rightarrow> int64"
  c_ticks :: nat

definition tick :: "'o Capacitor \<Rightarrow> 'o Capacitor \<times> int64" where
  "tick f = (f\<lparr>c_ticks := Suc (c_ticks f)\<rparr>, c_walls f (c_ticks f))"

text \<open>\<^verbatim>\<open>time.Since\<close>, which saturates.\<close>

definition time_Since :: "int64 \<Rightarrow> int64 \<Rightarrow> int64" where
  "time_Since now start = clamp_int64 (sint now - sint start)"

definition start_timer :: "'o Capacitor \<Rightarrow> 'o Capacitor \<times> int64" where
  "start_timer f = (if \<not> c_disableMetrics f then tick f else (f, 0))"

definition record_lat ::
  "((Stat \<Rightarrow> Stat) \<Rightarrow> MetricsTracker \<Rightarrow> MetricsTracker) \<Rightarrow> int64 \<Rightarrow> 'o Capacitor \<Rightarrow> 'o Capacitor" where
  "record_lat upd start f =
     (if \<not> c_disableMetrics f
      then (let (f, now) = tick f in f\<lparr>c_metrics := upd (Record (time_Since now start)) (c_metrics f)\<rparr>)
      else f)"

text \<open>\<^verbatim>\<open>f.hlc.Now()\<close>.\<close>

definition hlc_Now :: "'o Capacitor \<Rightarrow> 'o Capacitor \<times> Timestamp" where
  "hlc_Now f = (let (f, wall) = tick f; (h, ts) = Now (c_hlc f) wall in (f\<lparr>c_hlc := h\<rparr>, ts))"

definition log_Append :: "msgp \<Rightarrow> LogEntry \<Rightarrow> 'o Capacitor \<Rightarrow> gopanic + 'o Capacitor" where
  "log_Append L e f = (case Append L e (c_log f) of Inl p \<Rightarrow> Inl p | Inr (l, _) \<Rightarrow> Inr (f\<lparr>c_log := l\<rparr>))"

section \<open>Public operations\<close>

definition millisecond :: int64 where
  "millisecond = 1000000"

definition Capacitor_Set ::
  "msgp \<Rightarrow> ('o, 't) msgpack \<Rightarrow> string \<Rightarrow> 'o any \<Rightarrow> int64 \<Rightarrow> 'o Capacitor \<Rightarrow> gopanic + 'o Capacitor \<times> goerr option" where
  "Capacitor_Set L mp key value ttl f =
     (let (f, start) = start_timer f;
          (f, ts) = hlc_Now f;
          f = f\<lparr>c_store := store_set key value ts ttl (c_store f)\<rparr>
      in case mpMarshal mp value of
           Inl e \<Rightarrow> Inr (f, Some e)
         | Inr binVal \<Rightarrow>
             (let (f, bornAt) = tick f
              in case log_Append L (zero_LogEntry\<lparr>e_TS := ts, e_BornAt := bornAt, e_Op := MsgSet, e_Key := key,
                     e_Value := Some binVal, e_TTL := of_int (sint ttl sdiv sint millisecond)\<rparr>) f of
                   Inl p \<Rightarrow> Inl p
                 | Inr f \<Rightarrow> Inr (record_lat SetLat_update start f, None)))"

definition Capacitor_Delete :: "msgp \<Rightarrow> string \<Rightarrow> 'o Capacitor \<Rightarrow> gopanic + 'o Capacitor" where
  "Capacitor_Delete L key f =
     (let (f, start) = start_timer f;
          (f, ts) = hlc_Now f;
          f = f\<lparr>c_store := store_delete key ts (c_store f)\<rparr>;
          (f, bornAt) = tick f
      in case log_Append L (zero_LogEntry\<lparr>e_TS := ts, e_BornAt := bornAt, e_Op := MsgDelete, e_Key := key\<rparr>) f of
           Inl p \<Rightarrow> Inl p
         | Inr f \<Rightarrow> Inr (record_lat SetLat_update start f))"

text \<open>The bytes of a value, where the code drops the encoder's error.\<close>

definition marshal_or_nil :: "('o, 't) msgpack \<Rightarrow> 'o any \<Rightarrow> bytes" where
  "marshal_or_nil mp v = (case mpMarshal mp v of Inl e \<Rightarrow> [] | Inr b \<Rightarrow> b)"

definition getInternal :: "('o, 't) msgpack \<Rightarrow> 'o any \<Rightarrow> string" where
  "getInternal mp val =
     (case val of
        ANil \<Rightarrow> ''''
      | AString v \<Rightarrow> v
      | ABytes v \<Rightarrow> string_of_bytes v
      | AOther v \<Rightarrow> string_of_bytes (marshal_or_nil mp val))"

definition Capacitor_Get :: "('o, 't) msgpack \<Rightarrow> string \<Rightarrow> 'o Capacitor \<Rightarrow> 'o Capacitor \<times> string" where
  "Capacitor_Get mp key f =
     (let (f, start) = start_timer f;
          (f, now) = tick f;
          res = getInternal mp (store_get (c_store f) now key)
      in (record_lat GetLat_update start f, res))"

definition Capacitor_Exists :: "string \<Rightarrow> 'o Capacitor \<Rightarrow> 'o Capacitor \<times> bool" where
  "Capacitor_Exists key f =
     (let (f, start) = start_timer f;
          (f, now) = tick f;
          res = store_exists (c_store f) now key
      in (record_lat GetLat_update start f, res))"

text \<open>\<^verbatim>\<open>getScanInternal\<close> for a destination that is no pointer or a pointer that is not nil: the value stored in the
  destination, or the error.\<close>

definition getScanInternal :: "('o, 't) msgpack \<Rightarrow> string \<Rightarrow> 't dest \<Rightarrow> 'o any \<Rightarrow> goerr + 'o any" where
  "getScanInternal mp key dest rawVal =
     (if rawVal = ANil then Inl (ErrKeyNotFound key)
      else if (case (dest, rawVal) of
                 (PtrString, AString v) \<Rightarrow> True
               | (PtrBytes, ABytes v) \<Rightarrow> True
               | (PtrOther t, AOther v) \<Rightarrow> mpTypeOf mp v = t
               | _ \<Rightarrow> False) then Inr rawVal
      else case dest of
             PtrString \<Rightarrow> Inr (AString (case rawVal of
                 AString v \<Rightarrow> v | ABytes v \<Rightarrow> string_of_bytes v | _ \<Rightarrow> string_of_bytes (marshal_or_nil mp rawVal)))
           | PtrBytes \<Rightarrow> Inr (ABytes (case rawVal of
                 ABytes v \<Rightarrow> v | AString v \<Rightarrow> bytes_of_string v | _ \<Rightarrow> marshal_or_nil mp rawVal))
           | _ \<Rightarrow> (case rawVal of
                 ABytes v \<Rightarrow> mpUnmarshalInto mp v dest
               | AString v \<Rightarrow> mpUnmarshalInto mp (bytes_of_string v) dest
               | _ \<Rightarrow> (case mpMarshal mp rawVal of Inl e \<Rightarrow> Inl e | Inr b \<Rightarrow> mpUnmarshalInto mp b dest)))"

definition Capacitor_GetScan ::
  "('o, 't) msgpack \<Rightarrow> string \<Rightarrow> 't dest \<Rightarrow> 'o Capacitor \<Rightarrow> 'o Capacitor \<times> (goerr + 'o any)" where
  "Capacitor_GetScan mp key dest f =
     (let (f, start) = start_timer f;
          (f, now) = tick f;
          res = getScanInternal mp key dest (store_get (c_store f) now key)
      in (record_lat GetLat_update start f, res))"

definition Capacitor_IncrementBy :: "msgp \<Rightarrow> string \<Rightarrow> int64 \<Rightarrow> 'o Capacitor \<Rightarrow> gopanic + 'o Capacitor \<times> int64" where
  "Capacitor_IncrementBy L key delta f =
     (let (f, start) = start_timer f;
          (s, val) = store_increment key (c_nodeID f) (f_of_int (sint delta)) (c_store f);
          f = f\<lparr>c_store := s\<rparr>;
          nodeVal = store_getNodeCount (c_store f) key (c_nodeID f);
          (f, ts) = hlc_Now f;
          (f, bornAt) = tick f
      in case log_Append L (zero_LogEntry\<lparr>e_TS := ts, e_BornAt := bornAt, e_Op := MsgIncr, e_Key := key,
             e_Delta := nodeVal, e_NodeID := c_nodeID f\<rparr>) f of
           Inl p \<Rightarrow> Inl p
         | Inr f \<Rightarrow> Inr (record_lat IncrLat_update start f, f_to_int64 val))"

definition Capacitor_Increment :: "msgp \<Rightarrow> string \<Rightarrow> 'o Capacitor \<Rightarrow> gopanic + 'o Capacitor \<times> int64" where
  "Capacitor_Increment L key f = Capacitor_IncrementBy L key 1 f"

definition Capacitor_GetCount :: "string \<Rightarrow> 'o Capacitor \<Rightarrow> int64" where
  "Capacitor_GetCount key f = f_to_int64 (store_getAggregateCount (c_store f) key)"

fun Capacitor_IncrementParallel ::
  "msgp \<Rightarrow> string list \<Rightarrow> (string \<rightharpoonup> int64) \<Rightarrow> 'o Capacitor \<Rightarrow> gopanic + 'o Capacitor \<times> (string \<rightharpoonup> int64)" where
  "Capacitor_IncrementParallel L [] res f = Inr (f, res)"
| "Capacitor_IncrementParallel L (k # keys) res f =
     (case Capacitor_Increment L k f of
        Inl p \<Rightarrow> Inl p
      | Inr (f, val) \<Rightarrow> Capacitor_IncrementParallel L keys (res(k \<mapsto> val)) f)"

definition Capacitor_IncrementMetric :: "msgp \<Rightarrow> string \<Rightarrow> float64 \<Rightarrow> 'o Capacitor \<Rightarrow> gopanic + 'o Capacitor \<times> Metric" where
  "Capacitor_IncrementMetric L key delta f =
     (let (s, m) = store_incrementMetric key (c_nodeID f) delta (c_store f);
          f = f\<lparr>c_store := s\<rparr>;
          (f, ts) = hlc_Now f
      in case log_Append L (zero_LogEntry\<lparr>e_TS := ts, e_Op := MsgMetric, e_Key := key, e_Delta := delta,
             e_NodeID := c_nodeID f\<rparr>) f of
           Inl p \<Rightarrow> Inl p
         | Inr f \<Rightarrow> Inr (f, m))"

definition Capacitor_GetMetric :: "string \<Rightarrow> 'o Capacitor \<Rightarrow> Metric" where
  "Capacitor_GetMetric key f = store_getAggregateMetric (c_store f) key"

text \<open>The argument is the order in which Go iterates over the map.\<close>

fun Capacitor_IncrementMetricParallel ::
  "msgp \<Rightarrow> (string \<times> float64) list \<Rightarrow> (string \<rightharpoonup> Metric) \<Rightarrow> 'o Capacitor \<Rightarrow> gopanic + 'o Capacitor \<times> (string \<rightharpoonup> Metric)" where
  "Capacitor_IncrementMetricParallel L [] res f = Inr (f, res)"
| "Capacitor_IncrementMetricParallel L ((k, d) # keys) res f =
     (case Capacitor_IncrementMetric L k d f of
        Inl p \<Rightarrow> Inl p
      | Inr (f, m) \<Rightarrow> Capacitor_IncrementMetricParallel L keys (res(k \<mapsto> m)) f)"

definition Capacitor_IncrementSlidingWindow ::
  "msgp \<Rightarrow> string \<Rightarrow> int64 \<Rightarrow> 'o Capacitor \<Rightarrow> gopanic + 'o Capacitor \<times> int64" where
  "Capacitor_IncrementSlidingWindow L key window f =
     (let (f, ts) = hlc_Now f;
          (f, now) = tick f;
          (s, count) = store_incrementSlidingWindow key (Physical ts) window now (c_store f);
          f = f\<lparr>c_store := s\<rparr>
      in case log_Append L (zero_LogEntry\<lparr>e_TS := ts, e_Op := MsgWindow, e_Key := key, e_NodeID := c_nodeID f\<rparr>) f of
           Inl p \<Rightarrow> Inl p
         | Inr f \<Rightarrow> Inr (f, count))"

definition Capacitor_GetMetrics :: "'o Capacitor \<Rightarrow> Summary list" where
  "Capacitor_GetMetrics f = GetSummary (c_metrics f)"

section \<open>Replicated entries\<close>

text \<open>What an entry does to the store once the clock has accepted it; an operation code the switch does not know
  only advances the sequence number.\<close>

definition apply_entry :: "('o, 't) msgpack \<Rightarrow> LogEntry \<Rightarrow> 'o store \<Rightarrow> 'o store" where
  "apply_entry mp e s =
     store_updatePeerSeq (e_NodeID e) (e_Seq e)
       (if e_Op e = MsgSet then store_set (e_Key e) (mpUnmarshal mp (slice (e_Value e))) (e_TS e) (e_TTL e * millisecond) s
        else if e_Op e = MsgIncr then store_setNodeCount (e_Key e) (e_NodeID e) (e_Delta e) s
        else if e_Op e = MsgMetric then fst (store_incrementMetric (e_Key e) (e_NodeID e) (e_Delta e) s)
        else if e_Op e = MsgWindow then store_addWindowTimestamp (e_Key e) (Physical (e_TS e)) s
        else if e_Op e = MsgDelete then store_delete (e_Key e) (e_TS e) s
        else s)"

definition applyRemoteEntry :: "('o, 't) msgpack \<Rightarrow> LogEntry \<Rightarrow> 'o Capacitor \<Rightarrow> 'o Capacitor" where
  "applyRemoteEntry mp e f =
     (let f = (if sint (e_BornAt e) > 0
               then (let (f, now) = tick f
                     in f\<lparr>c_metrics := ReplicateLat_update (Record (time_Since now (e_BornAt e))) (c_metrics f)\<rparr>)
               else f);
          (f, wall) = tick f
      in case Update (c_hlc f) wall (e_TS e) of
           (h, Inl err) \<Rightarrow> f\<lparr>c_hlc := h\<rparr>
         | (h, Inr _) \<Rightarrow> f\<lparr>c_hlc := h, c_store := apply_entry mp e (c_store f)\<rparr>)"

section \<open>Replication to a peer\<close>

definition startPeerReplicator :: "string \<Rightarrow> string \<Rightarrow> 'o Capacitor \<Rightarrow> 'o Capacitor" where
  "startPeerReplicator nodeID addr f =
     (if addr = '''' then f
      else if c_peerStops f nodeID \<noteq> None then f
      else let stop = length (c_running f)
           in f\<lparr>c_peerStops := (c_peerStops f)(nodeID \<mapsto> stop), c_running := c_running f @ [(stop, nodeID, addr)]\<rparr>)"

definition stopPeerReplicator :: "string \<Rightarrow> 'o Capacitor \<Rightarrow> 'o Capacitor" where
  "stopPeerReplicator nodeID f =
     (let f = (case c_peerStops f nodeID of
                 Some stop \<Rightarrow> f\<lparr>c_peerStops := (c_peerStops f)(nodeID := None), c_stopsClosed := insert stop (c_stopsClosed f)\<rparr>
               | None \<Rightarrow> f)
      in f\<lparr>c_peerSeqs := (c_peerSeqs f)(nodeID := None)\<rparr>)"

definition NodeMeta :: "'o Capacitor \<Rightarrow> bytes" where
  "NodeMeta f = bytes_of_string (c_streamAddr f)"

definition NotifyJoin :: "string \<Rightarrow> bytes \<Rightarrow> 'o Capacitor \<Rightarrow> 'o Capacitor" where
  "NotifyJoin name meta f =
     (if name = c_nodeID f then f else startPeerReplicator name (string_of_bytes meta) f)"

definition NotifyLeave :: "string \<Rightarrow> 'o Capacitor \<Rightarrow> 'o Capacitor" where
  "NotifyLeave name f = stopPeerReplicator name (f\<lparr>c_client := CloseConn name (c_client f)\<rparr>)"

text \<open>The decision of one round of the inner loop of \<^verbatim>\<open>peerReplicatorLoop\<close>, made under the log's lock: return, wait on the condition
  variable, or replicate.\<close>

datatype replicator_move = RReturn | RWait | RReplicate

definition last_seq :: "string \<Rightarrow> 'o Capacitor \<Rightarrow> uint64" where
  "last_seq nodeID f =
     (case c_peerSeqs f nodeID of Some q \<Rightarrow> q | None \<Rightarrow> store_getPeerSeq (c_store f) nodeID)"

definition peerReplicatorLoop_poll :: "string \<Rightarrow> nat \<Rightarrow> 'o Capacitor \<Rightarrow> replicator_move" where
  "peerReplicatorLoop_poll nodeID stop f =
     (if stop \<in> c_stopsClosed f then RReturn
      else if c_ctxDone f then RReturn
      else if l_head (c_log f) > last_seq nodeID f + 1 then RReplicate
      else RWait)"

text \<open>\<^verbatim>\<open>replicateToPeer\<close> with the outcome of dialling and of the write.\<close>

definition replicateToPeer ::
  "string \<Rightarrow> goerr option \<Rightarrow> goerr option \<Rightarrow> 'o Capacitor \<Rightarrow> gopanic + 'o Capacitor" where
  "replicateToPeer nodeID dialled wrote f =
     (let lastSeq = last_seq nodeID f;
          f = f\<lparr>c_peerSeqs := (c_peerSeqs f)(nodeID \<mapsto> lastSeq)\<rparr>
      in case GetEntriesRaw (c_log f) (lastSeq + 1) 1000 (8 * 1024 * 1024) of
           Inl p \<Rightarrow> Inl p
         | Inr rawEntries \<Rightarrow>
             (if rawEntries = [] then Inr f
              else let batch = \<lparr>b_FromNode = c_nodeID f, b_Entries = rawEntries, b_Handshake = None\<rparr>;
                       lastSeenRemote = store_getPeerSeq (c_store f) nodeID;
                       (f, now1) = tick f;
                       (f, now2) = tick f
                   in case SendBatch nodeID batch lastSeenRemote now1 dialled now2 wrote (c_client f) of
                        (c, None) \<Rightarrow> Inr (f\<lparr>c_client := c,
                            c_peerSeqs := (c_peerSeqs f)(nodeID \<mapsto> lastSeq + of_nat (length rawEntries))\<rparr>)
                      | (c, Some e) \<Rightarrow> Inr (f\<lparr>c_client := c\<rparr>)))"

section \<open>Construction and shutdown\<close>

record Config =
  cfg_NodeID :: string
  cfg_AdvertiseAddr :: string
  cfg_LogSize :: uint64
  cfg_AuthToken :: string
  cfg_DisableMetrics :: bool

definition JoinHostPort :: "string \<Rightarrow> string \<Rightarrow> string" where
  "JoinHostPort host port =
     (if colon \<in> set host \<or> CHR ''%'' \<in> set host then ''['' @ host @ '']:'' @ port else host @ '':'' @ port)"

text \<open>\<^verbatim>\<open>New\<close>: the defaults, the node, the advertised address, and the whole with the outcomes of opening the store, of listening (the
  port), and of creating the member list (the address its configuration advertises). Joining the peers comes after that, and its
  result is dropped.\<close>

definition New_defaults :: "string \<Rightarrow> int \<Rightarrow> Config \<Rightarrow> Config" where
  "New_defaults hostname unix cfg =
     (let cfg = (if cfg_NodeID cfg = '''' then cfg\<lparr>cfg_NodeID := hostname @ ''-'' @ fmt_int unix\<rparr> else cfg)
      in if cfg_LogSize cfg = 0 then cfg\<lparr>cfg_LogSize := 1000000\<rparr> else cfg)"

definition New_node :: "Config \<Rightarrow> 'o store \<Rightarrow> int64 \<Rightarrow> (nat \<Rightarrow> int64) \<Rightarrow> 'o Capacitor" where
  "New_node cfg s wall walls =
     \<lparr>c_nodeID = cfg_NodeID cfg, c_store = s, c_hlc = NewHLC wall, c_log = NewDeltaLog (cfg_LogSize cfg),
      c_client = NewStreamClient (cfg_AuthToken cfg), c_metrics = NewMetricsTracker,
      c_authToken = cfg_AuthToken cfg, c_peerSeqs = Map.empty, c_peerStops = Map.empty,
      c_streamAddr = '''', c_stopped = False, c_serverStopped = False, c_ctxDone = False,
      c_disableMetrics = cfg_DisableMetrics cfg, c_running = [], c_stopsClosed = {}, c_walls = walls, c_ticks = 0\<rparr>"

definition advertised :: "string \<Rightarrow> Config \<Rightarrow> string" where
  "advertised mlAddr cfg =
     (let advertiseAddr = cfg_AdvertiseAddr cfg;
          advertiseAddr = (if advertiseAddr = '''' then mlAddr else advertiseAddr)
      in if advertiseAddr = '''' \<or> advertiseAddr = ''0.0.0.0'' then ''127.0.0.1'' else advertiseAddr)"

definition New ::
  "string \<Rightarrow> int \<Rightarrow> (goerr + 'o store) \<Rightarrow> int64 \<Rightarrow> (goerr + string) \<Rightarrow> (goerr + string) \<Rightarrow> (nat \<Rightarrow> int64) \<Rightarrow> Config
     \<Rightarrow> goerr + 'o Capacitor" where
  "New hostname unix opened wall listened created walls cfg =
     (let cfg = New_defaults hostname unix cfg
      in case opened of
           Inl e \<Rightarrow> Inl e
         | Inr s \<Rightarrow>
             (let cp = New_node cfg s wall walls
              in case listened of
                   Inl e \<Rightarrow> Inl e
                 | Inr port \<Rightarrow>
                     (let cp = cp\<lparr>c_streamAddr := JoinHostPort ''127.0.0.1'' port\<rparr>
                      in case created of
                           Inl e \<Rightarrow> Inl e
                         | Inr mlAddr \<Rightarrow> Inr (cp\<lparr>c_streamAddr := JoinHostPort (advertised mlAddr cfg) port\<rparr>))))"

definition server_Stop :: "'o Capacitor \<Rightarrow> gopanic + 'o Capacitor" where
  "server_Stop f = (if c_serverStopped f then Inl CloseOfClosedChannel else Inr (f\<lparr>c_serverStopped := True\<rparr>))"

text \<open>\<^verbatim>\<open>Close\<close> up to the closing of the store, which the theory \<^verbatim>\<open>Persist\<close> adds.\<close>

definition Capacitor_Close :: "'o Capacitor \<Rightarrow> gopanic + 'o Capacitor" where
  "Capacitor_Close f =
     (let f = f\<lparr>c_ctxDone := True\<rparr>
      in if c_stopped f then Inl CloseOfClosedChannel
         else let f = f\<lparr>c_stopped := True\<rparr>
              in case metrics_Stop (c_metrics f) of
                   Inl p \<Rightarrow> Inl p
                 | Inr m \<Rightarrow>
                     (case server_Stop (f\<lparr>c_metrics := m\<rparr>) of
                        Inl p \<Rightarrow> Inl p
                      | Inr f \<Rightarrow>
                          (case client_Close (c_client f) of
                             Inl p \<Rightarrow> Inl p
                           | Inr c \<Rightarrow> Inr (f\<lparr>c_client := c\<rparr>))))"

end
