(* ===== verification/Registers.thy ===== *)
theory Registers
  imports Store Convergence
begin

text \<open>
  Last-write-wins registers: \<^verbatim>\<open>store.set\<close>, \<^verbatim>\<open>store.delete\<close>, \<^verbatim>\<open>store.get\<close>, \<^verbatim>\<open>store.exists\<close> and the pruning of
  expired keys. A write takes effect exactly when its timestamp is above the one the register holds;
  replicas that received the same writes and deletes agree, provided no two different writes to a key
  carry the same timestamp; a tie is resolved by arrival order, so it does not converge.
\<close>

section \<open>Register operations as data\<close>

datatype 'o reg_op = RSet string "'o any" Timestamp int64 | RDel string Timestamp

fun reg_key :: "'o reg_op \<Rightarrow> string" where
  "reg_key (RSet key value ts ttl) = key"
| "reg_key (RDel key ts) = key"

fun reg_ts :: "'o reg_op \<Rightarrow> Timestamp" where
  "reg_ts (RSet key value ts ttl) = ts"
| "reg_ts (RDel key ts) = ts"

fun apply_reg :: "'o reg_op \<Rightarrow> 'o store \<Rightarrow> 'o store" where
  "apply_reg (RSet key value ts ttl) s = store_set key value ts ttl s"
| "apply_reg (RDel key ts) s = store_delete key ts s"

text \<open>The value a register operation writes.\<close>

fun reg_val :: "'o reg_op \<Rightarrow> 'o valWithTS" where
  "reg_val (RSet key value ts ttl) =
     \<lparr>vValue = value, vTimestamp = ts, vExpiresAt = (if sint ttl > 0 then Physical ts + ttl else 0),
      vDeleted = False\<rparr>"
| "reg_val (RDel key ts) =
     \<lparr>vValue = ANil, vTimestamp = ts, vExpiresAt = Physical ts + hour, vDeleted = True\<rparr>"

definition shard_reg :: "'o reg_op \<Rightarrow> 'o storeShard \<Rightarrow> 'o storeShard" where
  "shard_reg x sh =
     (if (case cache sh (reg_key x) of Some v \<Rightarrow> reg_ts x \<le> vTimestamp v | None \<Rightarrow> False) then sh
      else sh\<lparr>cache := (cache sh)(reg_key x \<mapsto> reg_val x), dirty := insert (reg_key x) (dirty sh)\<rparr>)"

lemma shard_reg_RSet: "shard_reg (RSet key value ts ttl) = shard_set key value ts ttl"
  by (rule ext) (simp add: shard_reg_def shard_set_def Let_def split: option.split)

lemma shard_reg_RDel: "shard_reg (RDel key ts) = shard_delete key ts"
  by (rule ext) (simp add: shard_reg_def shard_delete_def Let_def split: option.split)

lemma apply_reg_shard: "apply_reg x s = at_shard (reg_key x) (shard_reg x) s"
  by (cases x) (simp_all add: store_set_def store_delete_def shard_reg_RSet shard_reg_RDel)

lemma vTimestamp_reg_val [simp]: "vTimestamp (reg_val x) = reg_ts x"
  by (cases x) simp_all

text \<open>Two writes to one key with one timestamp have to be the same write.\<close>

definition reg_compat :: "'o reg_op \<Rightarrow> 'o reg_op \<Rightarrow> bool" where
  "reg_compat x y \<longleftrightarrow> (reg_key x = reg_key y \<and> reg_ts x = reg_ts y \<longrightarrow> x = y)"

definition reg_wins :: "'o reg_op \<Rightarrow> 'o valWithTS option \<Rightarrow> bool" where
  "reg_wins x c \<longleftrightarrow> (case c of None \<Rightarrow> True | Some v \<Rightarrow> vTimestamp v < reg_ts x)"

lemma shard_reg_wins:
  "shard_reg x sh =
     (if reg_wins x (cache sh (reg_key x))
      then sh\<lparr>cache := (cache sh)(reg_key x \<mapsto> reg_val x), dirty := insert (reg_key x) (dirty sh)\<rparr> else sh)"
  by (auto simp: shard_reg_def reg_wins_def split: option.split)

lemma reg_wins_simps [simp]:
  "reg_wins x None" "reg_wins x (Some (reg_val y)) \<longleftrightarrow> reg_ts y < reg_ts x"
  by (simp_all add: reg_wins_def)

lemma reg_wins_mono: "reg_wins x c \<Longrightarrow> reg_ts x \<le> reg_ts y \<Longrightarrow> reg_wins y c"
  by (auto simp: reg_wins_def split: option.splits)

lemma shard_reg_absorb:
  assumes "reg_key x = reg_key y" and "reg_ts x < reg_ts y"
  shows "shard_reg y (shard_reg x sh) = shard_reg y sh" and "shard_reg x (shard_reg y sh) = shard_reg y sh"
proof -
  have "reg_wins x c \<Longrightarrow> reg_wins y c" for c using reg_wins_mono assms(2) by (metis less_imp_le)
  then show "shard_reg y (shard_reg x sh) = shard_reg y sh"
    using assms by (simp add: shard_reg_wins)
  have "\<not> reg_wins y c \<Longrightarrow> \<not> reg_wins x c" for c using reg_wins_mono assms(2) by (metis less_imp_le)
  then show "shard_reg x (shard_reg y sh) = shard_reg y sh"
    using assms by (simp add: shard_reg_wins)
qed

lemma shard_reg_commute:
  assumes "reg_compat x y"
  shows "shard_reg x (shard_reg y sh) = shard_reg y (shard_reg x sh)"
proof (cases "reg_key x = reg_key y")
  case True
  then consider "x = y" | "reg_ts x < reg_ts y" | "reg_ts y < reg_ts x"
    using assms unfolding reg_compat_def by (metis neqE)
  then show ?thesis by cases (simp_all add: shard_reg_absorb True)
next
  case False
  then show ?thesis by (simp add: shard_reg_wins fun_upd_twist insert_commute)
qed

interpretation reg: replicated apply_reg "\<lambda>_. True" reg_compat "\<lambda>_. True"
proof unfold_locales
  fix s :: "'a store" and a b :: "'a reg_op"
  assume "reg_compat a b"
  then show "apply_reg a (apply_reg b s) = apply_reg b (apply_reg a s)"
    unfolding apply_reg_shard by (intro at_shard_commute shard_reg_commute)
next
  fix s :: "'a store" and a :: "'a reg_op"
  show "apply_reg a (apply_reg a s) = apply_reg a s"
    unfolding apply_reg_shard
    by (rule at_shard_idem) (simp add: shard_reg_wins)
qed simp

section \<open>Properties\<close>

text \<open>Registers converge: replicas that start alike and receive the same writes and deletes, each in its own order
  and with any repetitions, hold the same cache and dirty set, provided different writes to a key
  have different timestamps.\<close>

theorem registers_converge:
  assumes "set xs = set ys" and "\<forall>x \<in> set xs. \<forall>y \<in> set xs. reg_compat x y"
  shows "fold apply_reg xs s = fold apply_reg ys s"
  using assms by (intro reg.converge) (auto simp: reg.coherent_def)

text \<open>Timestamps of one node are never equal (they strictly increase); here two nodes' clocks give different timestamps.\<close>

theorem registers_converge_witness:
  "fold apply_reg [RSet ''k'' (AString ''a'') (Timestamp 5 0) 0, RDel ''k'' (Timestamp 5 1)] emptyStore
   = fold apply_reg [RDel ''k'' (Timestamp 5 1), RSet ''k'' (AString ''a'') (Timestamp 5 0) 0,
                     RDel ''k'' (Timestamp 5 1)] (emptyStore :: nat store)"
  by (rule registers_converge) (auto simp: reg_compat_def)

text \<open>C37: A tie between two writes is not resolved: when two different values are written to a key with equal
  timestamps, each replica keeps the one that arrived first, so replicas that saw the two writes in
  different orders disagree for good.\<close>

theorem register_tie_diverges:
  assumes "v \<noteq> w" and "cache (getShard s key) key = None"
  shows "store_get (fold apply_reg [RSet key v ts 0, RSet key w ts 0] s) now key = v \<and>
         store_get (fold apply_reg [RSet key w ts 0, RSet key v ts 0] s) now key = w"
  using assms by (simp add: apply_reg_shard store_get_def expired_def shard_reg_wins reg_wins_def)

theorem register_tie_diverges_witness:
  "store_get (fold apply_reg [RSet ''k'' (AString ''a'') (Timestamp 5 0) 0,
      RSet ''k'' (AString ''b'') (Timestamp 5 0) 0] (emptyStore :: nat store)) 6 ''k'' = AString ''a''"
  using register_tie_diverges [of "AString ''a''" "AString ''b''" "emptyStore :: nat store" "''k''" "Timestamp 5 0" 6]
  by (simp add: emptyStore_def newStoreShard_def getShard_def)

text \<open>The last write among a list of register operations on one key: the first of those with the greatest
  timestamp.\<close>

fun lww_winner :: "'o valWithTS option \<Rightarrow> 'o reg_op list \<Rightarrow> 'o valWithTS option" where
  "lww_winner c [] = c"
| "lww_winner c (x # xs) = lww_winner (if reg_wins x c then Some (reg_val x) else c) xs"

lemma cache_apply_reg:
  "cache (getShard (apply_reg x s) key) key =
     (if reg_key x = key \<and> reg_wins x (cache (getShard s key) key) then Some (reg_val x)
      else cache (getShard s key) key)"
  by (auto simp: apply_reg_shard getShard_at_shard shard_reg_wins)

text \<open>The sharded store implements one register per key: what is held under a key after any sequence of
  writes and deletes, on this and other keys, is decided by the operations on that key alone.\<close>

lemma cache_apply_regs:
  "cache (getShard (fold apply_reg xs s) key) key
     = lww_winner (cache (getShard s key) key) (filter (\<lambda>x. reg_key x = key) xs)"
  by (induction xs arbitrary: s) (simp_all add: cache_apply_reg)

lemma lww_winner_Some:
  "lww_winner (Some v) xs = Some w \<Longrightarrow> vTimestamp v \<le> vTimestamp w \<and> (\<forall>x \<in> set xs. reg_ts x \<le> vTimestamp w)
     \<and> (w = v \<or> (\<exists>x \<in> set xs. w = reg_val x))"
proof (induction xs arbitrary: v)
  case Nil
  then show ?case by simp
next
  case (Cons x xs)
  show ?case
  proof (cases "reg_wins x (Some v)")
    case True
    then have "lww_winner (Some (reg_val x)) xs = Some w" using Cons.prems by simp
    then have "vTimestamp (reg_val x) \<le> vTimestamp w \<and> (\<forall>x \<in> set xs. reg_ts x \<le> vTimestamp w)
      \<and> (w = reg_val x \<or> (\<exists>x \<in> set xs. w = reg_val x))" by (rule Cons.IH)
    with True show ?thesis by (auto simp: reg_wins_def)
  next
    case False
    with Cons show ?thesis by (fastforce simp: reg_wins_def)
  qed
qed

text \<open>C21: Last write wins: after any sequence of writes and deletes, over all keys and shards, the entry held for a key that was
  written is the one written by an operation on that key whose timestamp is the greatest, be it a
  value or a tombstone.\<close>

theorem last_write_wins:
  assumes "cache (getShard s key) key = None" and "x \<in> set xs" and "reg_key x = key"
  shows "\<exists>y \<in> set xs. reg_key y = key \<and> reg_ts x \<le> reg_ts y \<and>
           (\<forall>z \<in> set xs. reg_key z = key \<longrightarrow> reg_ts z \<le> reg_ts y) \<and>
           cache (getShard (fold apply_reg xs s) key) key = Some (reg_val y)"
proof -
  obtain z zs where zs: "filter (\<lambda>x. reg_key x = key) xs = z # zs"
    using assms(2,3) by (metis (mono_tags, lifting) filter_empty_conv neq_Nil_conv)
  then have mem: "y \<in> set (z # zs) \<longleftrightarrow> y \<in> set xs \<and> reg_key y = key" for y
    unfolding zs [symmetric] by auto
  have c: "cache (getShard (fold apply_reg xs s) key) key = lww_winner (Some (reg_val z)) zs"
    using assms(1) zs by (simp add: cache_apply_regs)
  moreover obtain w where w: "lww_winner (Some (reg_val z)) zs = Some w"
  proof -
    have "lww_winner (Some v) us \<noteq> None" for v :: "'a valWithTS" and us
      by (induction us arbitrary: v) auto
    then show ?thesis using that by blast
  qed
  moreover have "\<exists>y \<in> set (z # zs). w = reg_val y \<and> (\<forall>u \<in> set (z # zs). reg_ts u \<le> reg_ts y)"
    using lww_winner_Some [OF w] by auto
  ultimately show ?thesis using mem assms(2,3) by metis
qed

theorem last_write_wins_witness:
  "cache (getShard (fold apply_reg [RSet ''k'' (AString ''a'') (Timestamp 5 3) 0,
      RDel ''k'' (Timestamp 4 9)] (emptyStore :: nat store)) ''k'') ''k''
   = Some (reg_val (RSet ''k'' (AString ''a'') (Timestamp 5 3) 0))"
proof -
  have n: "cache (getShard (emptyStore :: nat store) ''k'') ''k'' = None"
    by (simp add: emptyStore_def newStoreShard_def getShard_def)
  have less: "\<not> Timestamp 5 3 \<le> Timestamp 4 9" by (simp add: less_eq_Timestamp_def)
  show ?thesis
    using last_write_wins [OF n, of "RDel ''k'' (Timestamp 4 9)"
        "[RSet ''k'' (AString ''a'') (Timestamp 5 3) 0, RDel ''k'' (Timestamp 4 9)]"] less
    by (auto simp del: fold_simps)
qed

section \<open>Expiry and the janitor\<close>

text \<open>A key written with a positive time to live is readable up to and including the instant its timestamp plus the
  time to live, and neither readable nor reported to exist after that; without a time to live it does
  not expire (provided the write wins and the sum does not overflow).\<close>

theorem set_expires:
  assumes "reg_wins (RSet key v ts ttl) (cache (getShard s key) key)"
    and "0 \<le> sint (Physical ts)" and "0 \<le> sint ttl" and "sint (Physical ts) + sint ttl < 2 ^ 63"
  shows "store_get (store_set key v ts ttl s) now key =
           (if sint ttl > 0 \<and> sint now > sint (Physical ts) + sint ttl then ANil else v) \<and>
         store_exists (store_set key v ts ttl s) now key =
           (if sint ttl > 0 \<and> sint now > sint (Physical ts) + sint ttl then False else True)"
proof -
  have sum: "sint (Physical ts + ttl) = sint (Physical ts) + sint ttl"
    using assms by (intro sint_add64) simp_all
  have c: "cache (getShard (store_set key v ts ttl s) key) key = Some (reg_val (RSet key v ts ttl))"
    using cache_apply_reg [of "RSet key v ts ttl" s key] assms(1) by simp
  show ?thesis
    using sum assms(2) unfolding store_get_def store_exists_def c by (auto simp: expired_def)
qed

theorem set_expires_witness:
  "store_get (store_set ''k'' (AString ''a'') (Timestamp 5 0) 10 (emptyStore :: nat store)) 15 ''k'' = AString ''a'' \<and>
   store_get (store_set ''k'' (AString ''a'') (Timestamp 5 0) 10 (emptyStore :: nat store)) 16 ''k'' = ANil"
proof -
  have w: "reg_wins (RSet ''k'' (AString ''a'') (Timestamp 5 0) 10) (cache (getShard (emptyStore :: nat store) ''k'') ''k'')"
    by (simp add: emptyStore_def newStoreShard_def getShard_def)
  show ?thesis using set_expires [OF w, of 15] set_expires [OF w, of 16] by simp
qed

lemma getShard_prune:
  "getShard (store_pruneExpiredKeys now s) key = shard_pruneExpiredKeys now (getShard s key)"
  "getShard (store_pruneStaleWindows now s) key = shard_pruneStaleWindows now (getShard s key)"
  by (simp_all add: getShard_def store_pruneExpiredKeys_def store_pruneStaleWindows_def shardIndex_less)

text \<open>C27: The janitor is invisible to readers: removing expired keys never changes what a later read returns or
  whether a key exists, for any key, and it leaves counters and peer sequence numbers alone.\<close>

theorem prune_invisible:
  assumes "sint pruned_at \<le> sint now"
  shows "store_get (store_pruneExpiredKeys pruned_at s) now key = store_get s now key \<and>
         store_exists (store_pruneExpiredKeys pruned_at s) now key = store_exists s now key \<and>
         store_getAggregateCount (store_pruneExpiredKeys pruned_at s) key = store_getAggregateCount s key \<and>
         store_getPeerSeq (store_pruneExpiredKeys pruned_at s) key = store_getPeerSeq s key"
  using assms
  by (auto simp: store_get_def store_exists_def store_getAggregateCount_def store_getPeerSeq_def getShard_prune
      shard_pruneExpiredKeys_def expired_def split: option.split)

theorem prune_invisible_witness:
  "store_get (store_pruneExpiredKeys 20 (store_set ''k'' (AString ''a'') (Timestamp 5 0) 10 (emptyStore :: nat store))) 21 ''k''
   = store_get (store_set ''k'' (AString ''a'') (Timestamp 5 0) 10 (emptyStore :: nat store)) 21 ''k''"
  using prune_invisible [of 20 21 "store_set ''k'' (AString ''a'') (Timestamp 5 0) 10 (emptyStore :: nat store)"] by simp

text \<open>C38: A tombstone holds back every older write while it is kept, but once the janitor has
  removed it (an hour after the delete) an older write that arrives late brings the deleted key back.\<close>

theorem tombstone_resurrection:
  assumes "reg_wins (RDel key ts) (cache (getShard s key) key)" and "old < ts"
    and "0 \<le> sint (Physical ts)" and "sint (Physical ts) + sint hour < 2 ^ 63"
  shows "store_get (store_set key v old 0 (store_delete key ts s)) now key = ANil \<and>
         (sint now > sint (Physical ts) + sint hour \<longrightarrow>
          store_get (store_set key v old 0 (store_pruneExpiredKeys now (store_delete key ts s))) now key = v)"
proof -
  have h: "sint hour = 3600000000000" by (simp add: hour_def)
  have sum: "sint (Physical ts + hour) = sint (Physical ts) + sint hour"
    using assms by (intro sint_add64) (simp_all add: h)
  have c: "cache (getShard (store_delete key ts s) key) key = Some (reg_val (RDel key ts))"
    using cache_apply_reg [of "RDel key ts" s key] assms(1) by simp
  have "\<not> reg_wins (RSet key v old 0) (Some (reg_val (RDel key ts)))" using assms(2) by (simp add: reg_wins_def)
  then have "cache (getShard (store_set key v old 0 (store_delete key ts s)) key) key = Some (reg_val (RDel key ts))"
    using cache_apply_reg [of "RSet key v old 0" "store_delete key ts s" key] c by simp
  moreover have "cache (getShard (store_pruneExpiredKeys now (store_delete key ts s)) key) key = None"
    if "sint now > sint (Physical ts) + sint hour"
    using c that sum assms(3) h by (simp add: getShard_prune shard_pruneExpiredKeys_def expired_def)
  then have "cache (getShard (store_set key v old 0 (store_pruneExpiredKeys now (store_delete key ts s))) key) key
      = Some (reg_val (RSet key v old 0))" if "sint now > sint (Physical ts) + sint hour"
    using cache_apply_reg [of "RSet key v old 0" _ key] that by (metis apply_reg.simps(1) reg_key.simps(1) reg_wins_simps(1))
  ultimately show ?thesis by (simp add: store_get_def expired_def)
qed

theorem tombstone_resurrection_witness:
  "store_get (store_set ''k'' (AString ''a'') (Timestamp 4 0) 0
      (store_pruneExpiredKeys (6 + hour) (store_delete ''k'' (Timestamp 5 0) (emptyStore :: nat store)))) (6 + hour) ''k''
   = AString ''a''"
proof -
  have w: "reg_wins (RDel ''k'' (Timestamp 5 0)) (cache (getShard (emptyStore :: nat store) ''k'') ''k'')"
    by (simp add: emptyStore_def newStoreShard_def getShard_def)
  show ?thesis
    using tombstone_resurrection [OF w, of "Timestamp 4 0" "AString ''a''" "6 + hour"]
    by (simp add: less_Timestamp_def hour_def)
qed

end
