(* ===== verification/Node_Laws.thy ===== *)
theory Node_Laws
  imports Node Registers
begin

text \<open>
  Properties of a single node: every timestamp in its store is at most its clock, whatever operations it runs and whatever
  entries it receives, so its own writes and deletes take effect at once. The logical counter must not be at its maximum when the
  clock is advanced.
\<close>

section \<open>What the operations do to the store and the clock\<close>

lemmas node_defs = tick_def start_timer_def record_lat_def hlc_Now_def log_Append_def Let_def

lemma record_lat_frame [simp]:
  "c_store (record_lat upd t f) = c_store f" "c_hlc (record_lat upd t f) = c_hlc f" "c_log (record_lat upd t f) = c_log f"
  "c_nodeID (record_lat upd t f) = c_nodeID f"
  by (simp_all add: node_defs)

lemma start_timer_frame:
  "start_timer f = (f', t) \<Longrightarrow> c_store f' = c_store f \<and> c_hlc f' = c_hlc f \<and> c_log f' = c_log f \<and> c_nodeID f' = c_nodeID f"
  by (auto simp: node_defs split: if_splits)

lemma hlc_Now_result:
  "hlc_Now f = (f', ts) \<Longrightarrow> \<exists>wall. Now (c_hlc f) wall = (c_hlc f', ts) \<and> c_store f' = c_store f \<and> c_log f' = c_log f \<and>
     c_nodeID f' = c_nodeID f"
  by (auto simp: node_defs split: prod.splits)

lemma tick_frame:
  "tick f = (f', t) \<Longrightarrow> c_store f' = c_store f \<and> c_hlc f' = c_hlc f \<and> c_log f' = c_log f \<and> c_nodeID f' = c_nodeID f"
  by (auto simp: tick_def)

lemma log_Append_frame:
  "log_Append L e f = Inr f' \<Longrightarrow> c_store f' = c_store f \<and> c_hlc f' = c_hlc f \<and> c_nodeID f' = c_nodeID f \<and>
     (\<exists>seq. Append L e (c_log f) = Inr (c_log f', seq))"
  by (auto simp: log_Append_def split: sum.splits prod.splits)

lemmas node_frames = start_timer_frame tick_frame

text \<open>\<^verbatim>\<open>Set\<close>: the write with a fresh timestamp, and the entry that replicates it.\<close>

definition set_entry :: "bytes \<Rightarrow> string \<Rightarrow> int64 \<Rightarrow> Timestamp \<Rightarrow> int64 \<Rightarrow> LogEntry" where
  "set_entry binVal key ttl ts bornAt = zero_LogEntry\<lparr>e_TS := ts, e_BornAt := bornAt, e_Op := MsgSet, e_Key := key,
     e_Value := Some binVal, e_TTL := of_int (sint ttl sdiv sint millisecond)\<rparr>"

lemma Set_result:
  assumes "Capacitor_Set L mp key value ttl f = Inr (f', r)"
  shows "\<exists>wall ts. Now (c_hlc f) wall = (c_hlc f', ts) \<and> c_store f' = store_set key value ts ttl (c_store f) \<and>
    (r = None \<longrightarrow> (\<exists>binVal bornAt seq. mpMarshal mp value = Inr binVal \<and>
        Append L (set_entry binVal key ttl ts bornAt) (c_log f) = Inr (c_log f', seq)))"
proof -
  obtain f1 t where f1: "start_timer f = (f1, t)" by fastforce
  obtain f2 ts where f2: "hlc_Now f1 = (f2, ts)" by fastforce
  define f3 where "f3 = f2\<lparr>c_store := store_set key value ts ttl (c_store f2)\<rparr>"
  obtain f4 b where f4: "tick f3 = (f4, b)" by fastforce
  note fr = start_timer_frame [OF f1] hlc_Now_result [OF f2] tick_frame [OF f4]
  show ?thesis
  proof (cases "mpMarshal mp value")
    case (Inl e)
    with assms f1 f2 have "f' = f3" "r \<noteq> None" by (auto simp: Capacitor_Set_def f3_def)
    with fr show ?thesis by (auto simp: f3_def)
  next
    case (Inr binVal)
    obtain f5 where f5: "log_Append L (set_entry binVal key ttl ts b) f4 = Inr f5" and "f' = record_lat SetLat_update t f5"
      using assms f1 f2 f4 Inr unfolding set_entry_def
      by (auto simp: Capacitor_Set_def f3_def [symmetric] split: sum.splits)
    with fr log_Append_frame [OF f5] Inr show ?thesis by (auto simp: f3_def) blast
  qed
qed

definition delete_entry :: "string \<Rightarrow> Timestamp \<Rightarrow> int64 \<Rightarrow> LogEntry" where
  "delete_entry key ts bornAt = zero_LogEntry\<lparr>e_TS := ts, e_BornAt := bornAt, e_Op := MsgDelete, e_Key := key\<rparr>"

lemma Delete_result:
  assumes "Capacitor_Delete L key f = Inr f'"
  shows "\<exists>wall ts bornAt seq. Now (c_hlc f) wall = (c_hlc f', ts) \<and> c_store f' = store_delete key ts (c_store f) \<and>
    Append L (delete_entry key ts bornAt) (c_log f) = Inr (c_log f', seq)"
proof -
  obtain f1 t where f1: "start_timer f = (f1, t)" by fastforce
  obtain f2 ts where f2: "hlc_Now f1 = (f2, ts)" by fastforce
  define f3 where "f3 = f2\<lparr>c_store := store_delete key ts (c_store f2)\<rparr>"
  obtain f4 b where f4: "tick f3 = (f4, b)" by fastforce
  note fr = start_timer_frame [OF f1] hlc_Now_result [OF f2] tick_frame [OF f4]
  obtain f5 where f5: "log_Append L (delete_entry key ts b) f4 = Inr f5" and "f' = record_lat SetLat_update t f5"
    using assms f1 f2 f4 unfolding delete_entry_def
    by (auto simp: Capacitor_Delete_def f3_def [symmetric] Let_def split: sum.splits)
  with fr log_Append_frame [OF f5] show ?thesis by (auto simp: f3_def)
qed

lemma IncrementBy_result:
  assumes "Capacitor_IncrementBy L key delta f = Inr (f', v)"
  shows "\<exists>wall ts. Now (c_hlc f) wall = (c_hlc f', ts) \<and>
    store_increment key (c_nodeID f) (f_of_int (sint delta)) (c_store f) = (c_store f', snd (store_increment key (c_nodeID f) (f_of_int (sint delta)) (c_store f))) \<and>
    v = f_to_int64 (snd (store_increment key (c_nodeID f) (f_of_int (sint delta)) (c_store f)))"
proof -
  obtain f1 t where f1: "start_timer f = (f1, t)" by fastforce
  obtain s val where s: "store_increment key (c_nodeID f1) (f_of_int (sint delta)) (c_store f1) = (s, val)" by fastforce
  obtain f2 ts where f2: "hlc_Now (f1\<lparr>c_store := s\<rparr>) = (f2, ts)" by fastforce
  obtain f3 b where f3: "tick f2 = (f3, b)" by fastforce
  obtain e f4 where f4: "log_Append L e f3 = Inr f4" and "f' = record_lat IncrLat_update t f4" "v = f_to_int64 val"
    using assms f1 s f2 f3 by (auto simp: Capacitor_IncrementBy_def Let_def split: sum.splits)
  with start_timer_frame [OF f1] hlc_Now_result [OF f2] tick_frame [OF f3] log_Append_frame [OF f4] s show ?thesis by auto
qed

lemma IncrementMetric_result:
  assumes "Capacitor_IncrementMetric L key delta f = Inr (f', m)"
  shows "\<exists>wall ts. Now (c_hlc f) wall = (c_hlc f', ts) \<and>
    store_incrementMetric key (c_nodeID f) delta (c_store f) = (c_store f', m)"
proof -
  obtain s m' where s: "store_incrementMetric key (c_nodeID f) delta (c_store f) = (s, m')" by fastforce
  obtain f2 ts where f2: "hlc_Now (f\<lparr>c_store := s\<rparr>) = (f2, ts)" by fastforce
  obtain e f3 where f3: "log_Append L e f2 = Inr f3" and "f' = f3" "m = m'"
    using assms s f2 by (auto simp: Capacitor_IncrementMetric_def split: sum.splits)
  with hlc_Now_result [OF f2] log_Append_frame [OF f3] s show ?thesis by auto
qed

lemma IncrementSlidingWindow_result:
  assumes "Capacitor_IncrementSlidingWindow L key window f = Inr (f', n)"
  shows "\<exists>wall ts now. Now (c_hlc f) wall = (c_hlc f', ts) \<and>
    store_incrementSlidingWindow key (Physical ts) window now (c_store f) = (c_store f', n)"
proof -
  obtain f1 ts where f1: "hlc_Now f = (f1, ts)" by fastforce
  obtain f2 now where f2: "tick f1 = (f2, now)" by fastforce
  obtain s c where s: "store_incrementSlidingWindow key (Physical ts) window now (c_store f2) = (s, c)" by fastforce
  obtain e f3 where f3: "log_Append L e (f2\<lparr>c_store := s\<rparr>) = Inr f3" and "f' = f3" "n = c"
    using assms f1 f2 s by (auto simp: Capacitor_IncrementSlidingWindow_def split: sum.splits)
  with hlc_Now_result [OF f1] tick_frame [OF f2] log_Append_frame [OF f3] s show ?thesis by auto
qed

lemma applyRemoteEntry_result:
  "\<exists>wall. case Update (c_hlc f) wall (e_TS e) of
     (h, Inl err) \<Rightarrow> c_hlc (applyRemoteEntry mp e f) = c_hlc f \<and> c_store (applyRemoteEntry mp e f) = c_store f
   | (h, Inr t) \<Rightarrow> c_hlc (applyRemoteEntry mp e f) = h \<and> c_store (applyRemoteEntry mp e f) = apply_entry mp e (c_store f)"
proof -
  define f1 where "f1 = (if sint (e_BornAt e) > 0
     then (let (f, now) = tick f in f\<lparr>c_metrics := ReplicateLat_update (Record (time_Since now (e_BornAt e))) (c_metrics f)\<rparr>)
     else f)"
  obtain f2 wall where f2: "tick f1 = (f2, wall)" by fastforce
  have "c_store f1 = c_store f" "c_hlc f1 = c_hlc f" by (simp_all add: f1_def tick_def)
  then have fr: "c_store f2 = c_store f" "c_hlc f2 = c_hlc f" using tick_frame [OF f2] by simp_all
  have eq: "applyRemoteEntry mp e f = (case Update (c_hlc f2) wall (e_TS e) of
      (h, Inl err) \<Rightarrow> f2\<lparr>c_hlc := h\<rparr> | (h, Inr _) \<Rightarrow> f2\<lparr>c_hlc := h, c_store := apply_entry mp e (c_store f2)\<rparr>)"
    unfolding applyRemoteEntry_def f1_def [symmetric] using f2 by simp
  obtain h r where u: "Update (c_hlc f) wall (e_TS e) = (h, r)" by fastforce
  have "h = c_hlc f" if "r = Inl err" for err
    using u that by (auto simp: Update_def Let_def split: if_splits)
  then show ?thesis using eq u fr by (intro exI [of _ wall]) (auto split: sum.split)
qed

section \<open>Timestamps stay below the clock\<close>

definition stamps_below :: "Timestamp \<Rightarrow> 'o store \<Rightarrow> bool" where
  "stamps_below t s \<longleftrightarrow> (\<forall>key v. cache (getShard s key) key = Some v \<longrightarrow> vTimestamp v \<le> t)"

lemma stamps_below_mono: "stamps_below t s \<Longrightarrow> t \<le> t' \<Longrightarrow> stamps_below t' s"
  unfolding stamps_below_def by (meson order_trans)

lemma stamps_below_empty: "stamps_below t emptyStore"
  by (simp add: stamps_below_def emptyStore_def newStoreShard_def getShard_def)

lemma stamps_below_reg: "stamps_below t s \<Longrightarrow> reg_ts x \<le> t \<Longrightarrow> stamps_below t (apply_reg x s)"
  by (simp add: stamps_below_def cache_apply_reg)

lemma stamps_below_at_shard:
  assumes "\<And>sh. cache (f sh) = cache sh"
  shows "stamps_below t (at_shard k f s) \<longleftrightarrow> stamps_below t s"
  by (simp add: stamps_below_def getShard_at_shard assms)

lemma cache_frames [simp]:
  "cache (shard_increment key n d sh) = cache sh" "cache (shard_setNodeCount key n d sh) = cache sh"
  "cache (shard_incrementMetric key n d sh) = cache sh" "cache (shard_updatePeerSeq n q sh) = cache sh"
  "cache (shard_addWindowTimestamp key t sh) = cache sh"
  "cache (fst (shard_incrementSlidingWindow key t w now sh)) = cache sh"
  by (simp_all add: shard_defs shard_incrementSlidingWindow_def Let_def split: option.split prod.split)

lemma stamps_below_frames [simp]:
  "stamps_below t (fst (store_increment key n d s)) \<longleftrightarrow> stamps_below t s"
  "stamps_below t (store_setNodeCount key n d s) \<longleftrightarrow> stamps_below t s"
  "stamps_below t (fst (store_incrementMetric key n d s)) \<longleftrightarrow> stamps_below t s"
  "stamps_below t (store_updatePeerSeq n q s) \<longleftrightarrow> stamps_below t s"
  "stamps_below t (store_addWindowTimestamp key u s) \<longleftrightarrow> stamps_below t s"
  "stamps_below t (fst (store_incrementSlidingWindow key u w now s)) \<longleftrightarrow> stamps_below t s"
  by (simp_all add: store_increment_def store_setNodeCount_def store_incrementMetric_def store_updatePeerSeq_def
      store_addWindowTimestamp_def store_incrementSlidingWindow_def Let_def stamps_below_at_shard)

lemma stamps_below_janitor: "stamps_below t s \<Longrightarrow> stamps_below t (janitor_tick n1 n2 s)"
  by (auto simp: stamps_below_def janitor_tick_def getShard_prune shard_pruneExpiredKeys_def shard_pruneStaleWindows_def
      split: option.splits if_splits)

lemma stamps_below_entry:
  assumes "stamps_below t s" and "e_TS e \<le> t"
  shows "stamps_below t (apply_entry mp e s)"
  using assms stamps_below_reg [of t s "RSet (e_Key e) v (e_TS e) d" for v d] stamps_below_reg [of t s "RDel (e_Key e) (e_TS e)"]
  by (simp add: apply_entry_def)

text \<open>The states a node can reach: from an empty store, by its own operations, by entries received from peers and by
  ticks of the janitor.\<close>

inductive node_reach :: "msgp \<Rightarrow> ('o, 't) msgpack \<Rightarrow> 'o Capacitor \<Rightarrow> bool" for L mp where
  reach_start: "c_store f = emptyStore \<Longrightarrow> node_reach L mp f"
| reach_Set: "node_reach L mp f \<Longrightarrow> logical (c_hlc f) \<noteq> max_int32 \<Longrightarrow>
    Capacitor_Set L mp key value ttl f = Inr (f', r) \<Longrightarrow> node_reach L mp f'"
| reach_Delete: "node_reach L mp f \<Longrightarrow> logical (c_hlc f) \<noteq> max_int32 \<Longrightarrow>
    Capacitor_Delete L key f = Inr f' \<Longrightarrow> node_reach L mp f'"
| reach_IncrementBy: "node_reach L mp f \<Longrightarrow> logical (c_hlc f) \<noteq> max_int32 \<Longrightarrow>
    Capacitor_IncrementBy L key delta f = Inr (f', v) \<Longrightarrow> node_reach L mp f'"
| reach_IncrementMetric: "node_reach L mp f \<Longrightarrow> logical (c_hlc f) \<noteq> max_int32 \<Longrightarrow>
    Capacitor_IncrementMetric L key d f = Inr (f', m) \<Longrightarrow> node_reach L mp f'"
| reach_IncrementSlidingWindow: "node_reach L mp f \<Longrightarrow> logical (c_hlc f) \<noteq> max_int32 \<Longrightarrow>
    Capacitor_IncrementSlidingWindow L key window f = Inr (f', n) \<Longrightarrow> node_reach L mp f'"
| reach_remote: "node_reach L mp f \<Longrightarrow> logical (c_hlc f) \<noteq> max_int32 \<Longrightarrow> Logical (e_TS e) \<noteq> max_int32 \<Longrightarrow>
    node_reach L mp (applyRemoteEntry mp e f)"
| reach_janitor: "node_reach L mp f \<Longrightarrow> node_reach L mp (f\<lparr>c_store := janitor_tick n1 n2 (c_store f)\<rparr>)"
| reach_Get: "node_reach L mp f \<Longrightarrow> node_reach L mp (fst (Capacitor_Get mp key f))"

lemma clock_Now: "Now h wall = (h', ts) \<Longrightarrow> logical h \<noteq> max_int32 \<Longrightarrow> ts = clock_ts h' \<and> clock_ts h < clock_ts h'"
  using Now_less [of h wall h' ts] by auto

lemma node_reach_stamps: "node_reach L mp f \<Longrightarrow> stamps_below (clock_ts (c_hlc f)) (c_store f)"
proof (induction rule: node_reach.induct)
  case (reach_start f)
  then show ?case by (simp add: stamps_below_empty)
next
  case (reach_Set f key val ttl f' r)
  from Set_result [OF reach_Set.hyps(3)] obtain wall ts where
    "Now (c_hlc f) wall = (c_hlc f', ts)" "c_store f' = store_set key val ts ttl (c_store f)" by blast
  with clock_Now reach_Set stamps_below_reg [of _ _ "RSet key val ts ttl"] show ?case
    by (metis apply_reg.simps(1) less_imp_le order_refl reg_ts.simps(1) stamps_below_mono)
next
  case (reach_Delete f key f')
  from Delete_result [OF reach_Delete.hyps(3)] obtain wall ts where
    "Now (c_hlc f) wall = (c_hlc f', ts)" "c_store f' = store_delete key ts (c_store f)" by blast
  with clock_Now reach_Delete stamps_below_reg [of _ _ "RDel key ts"] show ?case
    by (metis apply_reg.simps(2) less_imp_le order_refl reg_ts.simps(2) stamps_below_mono)
next
  case (reach_IncrementBy f key delta f' v)
  from IncrementBy_result [OF reach_IncrementBy.hyps(3)] obtain wall ts where
    "Now (c_hlc f) wall = (c_hlc f', ts)" "c_store f' = fst (store_increment key (c_nodeID f) (f_of_int (sint delta)) (c_store f))"
    by (metis fst_conv)
  with clock_Now reach_IncrementBy show ?case by (metis less_imp_le stamps_below_frames(1) stamps_below_mono)
next
  case (reach_IncrementMetric f key d f' m)
  from IncrementMetric_result [OF reach_IncrementMetric.hyps(3)] obtain wall ts where
    "Now (c_hlc f) wall = (c_hlc f', ts)" "c_store f' = fst (store_incrementMetric key (c_nodeID f) d (c_store f))"
    by (metis fst_conv)
  with clock_Now reach_IncrementMetric show ?case by (metis less_imp_le stamps_below_frames(3) stamps_below_mono)
next
  case (reach_IncrementSlidingWindow f key window f' n)
  from IncrementSlidingWindow_result [OF reach_IncrementSlidingWindow.hyps(3)] obtain wall ts now where
    "Now (c_hlc f) wall = (c_hlc f', ts)"
    "c_store f' = fst (store_incrementSlidingWindow key (Physical ts) window now (c_store f))"
    by (metis fst_conv)
  with clock_Now reach_IncrementSlidingWindow show ?case by (metis less_imp_le stamps_below_frames(6) stamps_below_mono)
next
  case (reach_remote f e)
  obtain wall where u: "case Update (c_hlc f) wall (e_TS e) of
     (h, Inl err) \<Rightarrow> c_hlc (applyRemoteEntry mp e f) = c_hlc f \<and> c_store (applyRemoteEntry mp e f) = c_store f
   | (h, Inr t) \<Rightarrow> c_hlc (applyRemoteEntry mp e f) = h \<and> c_store (applyRemoteEntry mp e f) = apply_entry mp e (c_store f)"
    by (rule exE [OF applyRemoteEntry_result])
  show ?case
  proof (cases "snd (Update (c_hlc f) wall (e_TS e))")
    case (Inl err)
    with u reach_remote show ?thesis by (simp split: prod.splits)
  next
    case (Inr t)
    then obtain h where h: "Update (c_hlc f) wall (e_TS e) = (h, Inr t)" by (metis prod.collapse)
    with Update_less [OF h] reach_remote have "clock_ts (c_hlc f) \<le> clock_ts h" "e_TS e \<le> clock_ts h" by auto
    with u h reach_remote.IH show ?thesis by (simp add: stamps_below_entry stamps_below_mono)
  qed
next
  case (reach_janitor f n1 n2)
  then show ?case by (simp add: stamps_below_janitor)
next
  case (reach_Get f key)
  obtain f1 t where f1: "start_timer f = (f1, t)" by fastforce
  obtain f2 n where f2: "tick f1 = (f2, n)" by fastforce
  from reach_Get start_timer_frame [OF f1] tick_frame [OF f2] show ?case by (simp add: Capacitor_Get_def f1 f2)
qed

lemma reg_wins_below: "stamps_below t s \<Longrightarrow> t < reg_ts x \<Longrightarrow> reg_wins x (cache (getShard s (reg_key x)) (reg_key x))"
  by (auto simp: stamps_below_def reg_wins_def split: option.split intro: order.strict_trans1)

lemma Get_value: "snd (Capacitor_Get mp key f) = getInternal mp (store_get (c_store f) (c_walls f (c_ticks f + (if c_disableMetrics f then 0 else 1))) key)"
  by (simp add: Capacitor_Get_def node_defs)

lemma Exists_value: "snd (Capacitor_Exists key f) = store_exists (c_store f) (c_walls f (c_ticks f + (if c_disableMetrics f then 0 else 1))) key"
  by (simp add: Capacitor_Exists_def node_defs)

text \<open>A log whose write position is inside its buffer accepts every entry.\<close>

lemma Append_accepts:
  assumes "l_capacity l \<noteq> 0" and "l_bufHead l \<le> l_bufCap l"
  shows "\<exists>l'. Append L e l = Inr (l', l_head l)"
  using assms by (simp add: Append_def Let_def not_less)

lemma log_Append_accepts:
  assumes "l_capacity (c_log f) \<noteq> 0" and "l_bufHead (c_log f) \<le> l_bufCap (c_log f)"
  shows "\<exists>f'. log_Append L e f = Inr f'"
  using Append_accepts [OF assms, of L e] by (auto simp: log_Append_def)

lemma Set_accepts:
  assumes "l_capacity (c_log f) \<noteq> 0" and "l_bufHead (c_log f) \<le> l_bufCap (c_log f)" and "mpMarshal mp v = Inr b"
  shows "\<exists>f'. Capacitor_Set L mp key v ttl f = Inr (f', None)"
proof -
  obtain f1 t where f1: "start_timer f = (f1, t)" by fastforce
  obtain f2 ts where f2: "hlc_Now f1 = (f2, ts)" by fastforce
  obtain f4 born where f4: "tick (f2\<lparr>c_store := store_set key v ts ttl (c_store f2)\<rparr>) = (f4, born)" by fastforce
  have "c_log f4 = c_log f"
    using start_timer_frame [OF f1] hlc_Now_result [OF f2] tick_frame [OF f4] by auto
  with assms(1,2) have "\<exists>f5. log_Append L e f4 = Inr f5" for e by (intro log_Append_accepts) simp_all
  then obtain f5 where "log_Append L (zero_LogEntry\<lparr>e_TS := ts, e_BornAt := born, e_Op := MsgSet, e_Key := key,
      e_Value := Some b, e_TTL := of_int (sint ttl sdiv sint millisecond)\<rparr>) f4 = Inr f5" by blast
  with f1 f2 f4 assms(3) show ?thesis by (simp add: Capacitor_Set_def)
qed

text \<open>A node for the examples: the encoder knows only strings.\<close>

definition demo_mp :: "(nat, unit) msgpack" where
  "demo_mp = \<lparr>mpMarshal = (\<lambda>v. case v of AString s \<Rightarrow> Inr (bytes_of_string s) | _ \<Rightarrow> Inl (ErrLib ''unsupported'')),
     mpUnmarshal = (\<lambda>b. AString (string_of_bytes b)),
     mpUnmarshalInto = (\<lambda>b d. Inr (AString (string_of_bytes b))), mpTypeOf = (\<lambda>_. ())\<rparr>"

definition demo_node :: "nat Capacitor" where
  "demo_node = New_node \<lparr>cfg_NodeID = ''n1'', cfg_AdvertiseAddr = [], cfg_LogSize = 4, cfg_AuthToken = ''secret'',
     cfg_DisableMetrics = True\<rparr> emptyStore 1000 (\<lambda>i. 1000)"

lemma demo_node_simps:
  "c_store demo_node = emptyStore" "c_hlc demo_node = NewHLC 1000" "c_log demo_node = NewDeltaLog 4"
  "c_authToken demo_node = ''secret''" "c_nodeID demo_node = ''n1''" "c_peerSeqs demo_node = Map.empty"
  "c_client demo_node = NewStreamClient ''secret''"
  by (simp_all add: demo_node_def New_node_def)

lemma demo_log: "l_capacity (NewDeltaLog 4) \<noteq> 0" "l_bufHead (NewDeltaLog 4) \<le> l_bufCap (NewDeltaLog 4)"
  by (simp_all add: NewDeltaLog_def Let_def)

section \<open>Properties\<close>

text \<open>The timestamp of a write comes from a reading of the wall clock.\<close>

lemma Set_wall:
  "Capacitor_Set L mp key v ttl f = Inr (f', r) \<Longrightarrow>
   \<exists>i ts. Now (c_hlc f) (c_walls f i) = (c_hlc f', ts) \<and> c_store f' = store_set key v ts ttl (c_store f)"
  by (auto simp: Capacitor_Set_def node_defs split: prod.splits sum.splits if_splits) blast+



text \<open>C25: After a restart a write can be lost: a node starts with the reading of the wall clock and not with the timestamps in its store. As long
  as the clock reads less than the timestamp of a stored value, a \<^verbatim>\<open>Set\<close> of the key reports success and is logged, and reads
  still return the old value.\<close>

theorem restart_write_lost:
  assumes "c_hlc f = NewHLC start" and "cache (getShard (c_store f) key) key = Some v0" and "\<not> vDeleted v0" and "vExpiresAt v0 = 0"
    and "sint start < sint (Physical (vTimestamp v0))" and "\<forall>i. sint (c_walls f i) < sint (Physical (vTimestamp v0))"
    and "Capacitor_Set L mp key v ttl f = Inr (f', None)"
  shows "snd (Capacitor_Get mp key f') = getInternal mp (vValue v0) \<and> (\<exists>e seq. e_Key e = key \<and> Append L e (c_log f) = Inr (c_log f', seq))"
proof -
  obtain i ts where n: "Now (c_hlc f) (c_walls f i) = (c_hlc f', ts)" "c_store f' = store_set key v ts ttl (c_store f)"
    using Set_wall [OF assms(7)] by blast
  have "sint (Physical ts) < sint (Physical (vTimestamp v0))"
    using n(1) assms(1,5,6) by (auto simp: Now_def NewHLC_def Let_def split: if_splits)
  then have "GreaterOrEqual (vTimestamp v0) ts" by (simp add: less_eq_Timestamp_def)
  then have "cache (getShard (c_store f') key) key = Some v0"
    using assms(2) by (simp add: n(2) store_set_def getShard_at_shard shard_set_def)
  moreover obtain b ts' born seq where "Append L (set_entry b key ttl ts' born) (c_log f) = Inr (c_log f', seq)"
    using Set_result [OF assms(7)] by blast
  moreover have "e_Key (set_entry b key ttl ts' born) = key" by (simp add: set_entry_def)
  ultimately show ?thesis using assms(3,4) by (auto simp: Get_value store_get_def expired_def)
qed

theorem restart_write_lost_witness:
  "\<exists>f'. Capacitor_Set wire demo_mp ''k'' (AString ''new'') 0
       (demo_node\<lparr>c_store := store_set ''k'' (AString ''old'') (Timestamp 2000 0) 0 emptyStore\<rparr>) = Inr (f', None) \<and>
     snd (Capacitor_Get demo_mp ''k'' f') = ''old''"
proof -
  let ?f = "demo_node\<lparr>c_store := store_set ''k'' (AString ''old'') (Timestamp 2000 0) 0 emptyStore\<rparr>"
  obtain f' where f': "Capacitor_Set wire demo_mp ''k'' (AString ''new'') 0 ?f = Inr (f', None)"
    using Set_accepts [of ?f demo_mp "AString ''new''" "bytes_of_string ''new''" wire "''k''" 0]
    by (auto simp: demo_node_simps demo_log demo_mp_def)
  have c: "cache (getShard (c_store ?f) ''k'') ''k'' = Some (reg_val (RSet ''k'' (AString ''old'') (Timestamp 2000 0) 0))"
    using cache_apply_reg [of "RSet ''k'' (AString ''old'') (Timestamp 2000 0) 0" "emptyStore :: nat store" "''k''"]
    by (simp add: emptyStore_def newStoreShard_def getShard_def)
  have "snd (Capacitor_Get demo_mp ''k'' f') = getInternal demo_mp (AString ''old'')"
    using restart_write_lost [OF _ c _ _ _ _ f', of 1000] by (simp add: demo_node_def New_node_def)
  with f' show ?thesis by (auto simp: getInternal_def)
qed

text \<open>Replication carries a write unchanged: the entry a node logs for a \<^verbatim>\<open>Set\<close> makes a peer perform the very write the node
  performed, with the same value, timestamp and time to live, provided the encoder decodes what it encoded and the time to live
  is a whole number of milliseconds.\<close>

theorem Set_replicates:
  assumes "Capacitor_Set L mp key v ttl f = Inr (f', None)" and "\<And>b. mpMarshal mp v = Inr b \<Longrightarrow> mpUnmarshal mp b = v"
    and "sint ttl = 1000000 * k" and "0 \<le> k"
  shows "\<exists>ts b bornAt seq. c_store f' = store_set key v ts ttl (c_store f) \<and>
           Append L (set_entry b key ttl ts bornAt) (c_log f) = Inr (c_log f', seq) \<and>
           (\<forall>s. apply_entry mp (set_entry b key ttl ts bornAt\<lparr>e_Seq := seq\<rparr>) s
                  = store_updatePeerSeq '''' seq (store_set key v ts ttl s))"
proof -
  obtain ts b bornAt seq where r: "c_store f' = store_set key v ts ttl (c_store f)" "mpMarshal mp v = Inr b"
      "Append L (set_entry b key ttl ts bornAt) (c_log f) = Inr (c_log f', seq)"
    using Set_result [OF assms(1)] by blast
  have "sint ttl sdiv sint millisecond = k"
    using assms(3,4) by (simp add: millisecond_def signed_divide_int_def sgn_if)
  then have "of_int (sint ttl sdiv sint millisecond) * millisecond = (of_int (sint ttl) :: int64)"
    by (simp add: assms(3) millisecond_def mult.commute)
  then have "of_int (sint ttl sdiv sint millisecond) * millisecond = ttl" by simp
  with r assms(2) show ?thesis
    by (intro exI [of _ ts] exI [of _ b] exI [of _ bornAt] exI [of _ seq])
      (simp add: apply_entry_def set_entry_def zero_LogEntry_def MsgSet_def)
qed

theorem Set_replicates_witness:
  "\<exists>f'. Capacitor_Set wire demo_mp ''k'' (AString ''v'') 20000000 demo_node = Inr (f', None) \<and>
     (\<exists>ts. c_store f' = store_set ''k'' (AString ''v'') ts 20000000 emptyStore)"
proof -
  obtain f' where f': "Capacitor_Set wire demo_mp ''k'' (AString ''v'') 20000000 demo_node = Inr (f', None)"
    using Set_accepts [of demo_node demo_mp "AString ''v''" "bytes_of_string ''v''" wire "''k''" 20000000]
    by (auto simp: demo_node_simps demo_log demo_mp_def)
  from Set_replicates [OF f', of 20] f' show ?thesis by (auto simp: demo_node_simps demo_mp_def)
qed

text \<open>A time to live below one millisecond is lost on the way: the peers' copy never expires, although the node's own copy
  does.\<close>

theorem short_ttl_lost:
  assumes "0 < sint ttl" and "sint ttl < 1000000" and "reg_wins (RSet key v ts ttl) (cache (getShard s key) key)"
    and "mpUnmarshal mp b = v" and "0 \<le> sint (Physical ts)" and "sint (Physical ts) + sint ttl < sint now"
  shows "store_get (store_set key v ts ttl s) now key = ANil \<and>
         store_get (apply_entry mp (set_entry b key ttl ts bornAt) s) now' key = v"
proof -
  have "sint (Physical ts + ttl) = sint (Physical ts) + sint ttl"
    using assms sint_range64(2) [of now] by (intro sint_add64) simp_all
  moreover have "cache (getShard (store_set key v ts ttl s) key) key = Some (reg_val (RSet key v ts ttl))"
    using cache_apply_reg [of "RSet key v ts ttl" s key] assms(3) by simp
  ultimately have own: "store_get (store_set key v ts ttl s) now key = ANil"
    using assms by (simp add: store_get_def expired_def)
  have "sint ttl sdiv sint millisecond = 0"
    using assms(1,2) by (simp add: millisecond_def signed_divide_int_def)
  then have "apply_entry mp (set_entry b key ttl ts bornAt) s = store_updatePeerSeq '''' 0 (store_set key v ts 0 s)"
    using assms(4) by (simp add: apply_entry_def set_entry_def zero_LogEntry_def MsgSet_def)
  moreover have "cache (getShard (store_set key v ts 0 s) key) key = Some (reg_val (RSet key v ts 0))"
    using cache_apply_reg [of "RSet key v ts 0" s key] reg_wins_mono [OF assms(3), of "RSet key v ts 0"] by simp
  ultimately have "store_get (apply_entry mp (set_entry b key ttl ts bornAt) s) now' key = v"
    by (simp add: store_get_def expired_def store_updatePeerSeq_def getShard_at_shard)
  with own show ?thesis by blast
qed

theorem short_ttl_lost_witness:
  "store_get (store_set ''k'' (AString ''v'') (Timestamp 5 0) 10 (emptyStore :: nat store)) 16 ''k'' = ANil \<and>
   store_get (apply_entry demo_mp (set_entry (bytes_of_string ''v'') ''k'' 10 (Timestamp 5 0) 1) emptyStore) 99 ''k'' = AString ''v''"
proof -
  have "reg_wins (RSet ''k'' (AString ''v'') (Timestamp 5 0) 10) (cache (getShard (emptyStore :: nat store) ''k'') ''k'')"
    by (simp add: emptyStore_def newStoreShard_def getShard_def)
  from short_ttl_lost [OF _ _ this, of demo_mp "bytes_of_string ''v''" 16 1 99] show ?thesis
    by (simp add: demo_mp_def)
qed

text \<open>C40: Delivering a metric entry twice counts it twice: unlike registers, counters and windows, metrics are not idempotent.\<close>

theorem metric_counts_twice:
  assumes "e_Op e = MsgMetric" and "fget (aggregateCounts (getShard s (e_Key e))) (''m:c:'' @ e_Key e) = f_of_int n"
    and "0 \<le> n" and "exact_int (n + 2)"
  shows "Count (store_getAggregateMetric (apply_entry mp e (apply_entry mp e s)) (e_Key e)) = of_int (n + 2)"
proof -
  let ?k = "''m:c:'' @ e_Key e"
  have agg: "aggregateCounts (shard_updatePeerSeq m q sh) = aggregateCounts sh" for m q and sh :: "'a storeShard"
    by (simp add: shard_updatePeerSeq_def)
  have "fget (aggregateCounts (getShard (apply_entry mp e s') (e_Key e))) ?k = f_add (fget (aggregateCounts (getShard s' (e_Key e))) ?k) (f_of_int 1)"
    for s' :: "'a store"
    using assms(1) by (simp add: apply_entry_def MsgSet_def MsgIncr_def MsgMetric_def store_updatePeerSeq_def getShard_at_shard agg
        store_incrementMetric_def Let_def shard_incrementMetric_def fbump_def)
  moreover have "exact_int n" "exact_int (n + 1)" "exact_int 1" using assms(3,4) by (auto simp: exact_int_def)
  ultimately show ?thesis
    using assms f_to_int64_of_int [OF assms(4)] by (simp add: store_getAggregateMetric_def shard_metric_def exact add.commute)
qed

theorem metric_counts_twice_witness:
  "Count (store_getAggregateMetric (apply_entry demo_mp (zero_LogEntry\<lparr>e_Op := MsgMetric, e_Key := ''m''\<rparr>)
     (apply_entry demo_mp (zero_LogEntry\<lparr>e_Op := MsgMetric, e_Key := ''m''\<rparr>) emptyStore)) ''m'') = 2"
proof -
  have "f_zero = f_of_int 0" by (simp add: f_zero_def f_of_int_def f_make_def round_mag_def bitlen.simps)
  then show ?thesis
    using metric_counts_twice [of "zero_LogEntry\<lparr>e_Op := MsgMetric, e_Key := ''m''\<rparr>" "emptyStore" 0 demo_mp]
    by (simp add: emptyStore_def newStoreShard_def getShard_def exact_int_def)
qed

end
