(* ===== verification/Cluster.thy ===== *)
theory Cluster
  imports Counters Windows Node_Laws
begin

text \<open>
  Replicas of a cluster: what entries received from peers do to a store, when all kinds of them are mixed, and what a counter
  reads once every increment of the cluster has arrived everywhere.
\<close>

section \<open>Peer sequence numbers\<close>

fun apply_seq :: "string \<times> uint64 \<Rightarrow> 'o store \<Rightarrow> 'o store" where
  "apply_seq (n, q) s = store_updatePeerSeq n q s"

lemma seqKey_inject [simp]: "seqKey m = seqKey n \<longleftrightarrow> m = n"
  by (simp add: seqKey_def)

lemma shard_updatePeerSeq_commute:
  "shard_updatePeerSeq m p (shard_updatePeerSeq n q sh) = shard_updatePeerSeq n q (shard_updatePeerSeq m p sh)"
proof (cases "m = n")
  case True
  then show ?thesis by (auto simp: shard_updatePeerSeq_def)
next
  case False
  then show ?thesis by (simp add: shard_updatePeerSeq_def fun_upd_twist insert_commute)
qed

interpretation seqs: replicated apply_seq "\<lambda>_. True" "\<lambda>_ _. True" "\<lambda>_. True"
proof unfold_locales
  fix s :: "'a store" and a b
  show "apply_seq a (apply_seq b s) = apply_seq b (apply_seq a s)"
    by (cases a; cases b) (simp add: store_updatePeerSeq_def at_shard_commute shard_updatePeerSeq_commute)
  show "apply_seq a (apply_seq a s) = apply_seq a s"
    by (cases a) (auto simp: store_updatePeerSeq_def shard_updatePeerSeq_def intro!: at_shard_idem)
qed simp

section \<open>Operations of different kinds\<close>

text \<open>Each kind of operation works on its own fields of a shard; all of them add to the dirty set.\<close>

lemma shard_frames [simp]:
  "windows (shard_reg x sh) = windows sh" "counts (shard_reg x sh) = counts sh"
  "aggregateCounts (shard_reg x sh) = aggregateCounts sh"
  "counts (shard_addWindowTimestamp k t sh) = counts sh"
  "aggregateCounts (shard_addWindowTimestamp k t sh) = aggregateCounts sh"
  "windows (shard_setNodeCount k n v sh) = windows sh"
  "windows (shard_updatePeerSeq n q sh) = windows sh" "counts (shard_updatePeerSeq n q sh) = counts sh"
  "aggregateCounts (shard_updatePeerSeq n q sh) = aggregateCounts sh"
  by (simp_all add: shard_reg_def shard_addWindowTimestamp_def shard_setNodeCount_def shard_updatePeerSeq_def Let_def
      split: option.split)

lemma windows_inv_frame: "(\<And>sh. windows (f sh) = windows sh) \<Longrightarrow> windows_inv (at_shard k f s) = windows_inv s"
  by (auto simp: windows_inv_def at_shard_def)

lemma counter_inv_frame:
  assumes "\<And>sh. counts (f sh) = counts sh" and "\<And>sh. aggregateCounts (f sh) = aggregateCounts sh"
  shows "counter_inv N B (at_shard k f s) = counter_inv N B s"
proof -
  have "counts (getShard (at_shard k f s) k') = counts (getShard s k')"
    "aggregateCounts (getShard (at_shard k f s) k') = aggregateCounts (getShard s k')" for k'
    using assms by (simp_all add: getShard_at_shard)
  then show ?thesis by (simp add: counter_inv_def counter_abs_def)
qed

text \<open>Operations of different kinds commute.\<close>

lemma shard_cross:
  "shard_reg x (shard_addWindowTimestamp k t sh) = shard_addWindowTimestamp k t (shard_reg x sh)"
  "shard_reg x (shard_setNodeCount k n v sh) = shard_setNodeCount k n v (shard_reg x sh)"
  "shard_addWindowTimestamp k t (shard_setNodeCount k' n v sh) = shard_setNodeCount k' n v (shard_addWindowTimestamp k t sh)"
  "shard_reg x (shard_updatePeerSeq m q sh) = shard_updatePeerSeq m q (shard_reg x sh)"
  "shard_addWindowTimestamp k t (shard_updatePeerSeq m q sh) = shard_updatePeerSeq m q (shard_addWindowTimestamp k t sh)"
  "shard_setNodeCount k n v (shard_updatePeerSeq m q sh) = shard_updatePeerSeq m q (shard_setNodeCount k n v sh)"
  by (simp_all add: shard_reg_wins shard_addWindowTimestamp_def shard_setNodeCount_def shard_updatePeerSeq_def Let_def
      insert_commute split: option.split)

lemmas op_shard = apply_reg_shard store_addWindowTimestamp_def store_setNodeCount_def store_updatePeerSeq_def

interpretation rw: replicated_pair apply_reg "\<lambda>_. True" reg_compat "\<lambda>_. True" apply_window "\<lambda>_. True" "\<lambda>_ _. True" windows_inv
proof unfold_locales
  fix s :: "'a store" and a :: "'a reg_op" and b
  show "windows_inv s \<Longrightarrow> windows_inv (apply_reg a s)" by (simp add: op_shard windows_inv_frame)
  show "apply_reg a (apply_window b s) = apply_window b (apply_reg a s)"
    by (cases b) (simp add: op_shard at_shard_commute shard_cross)
qed simp

interpretation rwc: replicated_pair "case_sum apply_reg apply_window" "case_sum (\<lambda>_. True) (\<lambda>_. True)"
  "pair_compat reg_compat (\<lambda>_ _. True)" "\<lambda>s. True \<and> windows_inv s"
  apply_count "count_good N B" "\<lambda>_ _. True" "counter_inv N B" for N B
proof unfold_locales
  fix s :: "'a store" and a :: "'a reg_op + string \<times> int64" and b
  show "counter_inv N B s \<Longrightarrow> counter_inv N B (case_sum apply_reg apply_window a s)"
    by (auto simp: op_shard counter_inv_frame split: sum.split)
  show "True \<and> windows_inv s \<Longrightarrow> True \<and> windows_inv (apply_count b s)"
    by (cases b) (simp add: op_shard windows_inv_frame)
  show "case_sum apply_reg apply_window a (apply_count b s) = apply_count b (case_sum apply_reg apply_window a s)"
    by (cases b) (auto simp: op_shard at_shard_commute shard_cross split: sum.split)
qed

interpretation rwcs: replicated_pair "case_sum (case_sum apply_reg apply_window) apply_count"
  "case_sum (case_sum (\<lambda>_. True) (\<lambda>_. True)) (count_good N B)"
  "pair_compat (pair_compat reg_compat (\<lambda>_ _. True)) (\<lambda>_ _. True)" "\<lambda>s. (True \<and> windows_inv s) \<and> counter_inv N B s"
  apply_seq "\<lambda>_. True" "\<lambda>_ _. True" "\<lambda>_. True" for N B
proof unfold_locales
  fix s :: "'a store" and a :: "('a reg_op + string \<times> int64) + string \<times> string \<times> int" and b
  show "(True \<and> windows_inv s) \<and> counter_inv N B s \<Longrightarrow> (True \<and> windows_inv (apply_seq b s)) \<and> counter_inv N B (apply_seq b s)"
    by (cases b) (simp add: op_shard windows_inv_frame counter_inv_frame)
  show "case_sum (case_sum apply_reg apply_window) apply_count a (apply_seq b s)
      = apply_seq b (case_sum (case_sum apply_reg apply_window) apply_count a s)"
    by (cases b) (auto simp: op_shard at_shard_commute shard_cross split: sum.split)
qed simp

section \<open>Entries received from peers\<close>

text \<open>What an entry means: a write, an event, or a partial count, and a sequence number.\<close>

type_synonym 'o entry_op = "(('o reg_op + string \<times> int64) + string \<times> string \<times> int) + string \<times> uint64"

abbreviation apply_entry_op :: "'o entry_op \<Rightarrow> 'o store \<Rightarrow> 'o store" where
  "apply_entry_op \<equiv> case_sum (case_sum (case_sum apply_reg apply_window) apply_count) apply_seq"

definition entry_ops :: "('o, 't) msgpack \<Rightarrow> LogEntry \<Rightarrow> 'o entry_op list" where
  "entry_ops mp e =
     (if e_Op e = MsgSet then
        [Inl (Inl (Inl (RSet (e_Key e) (mpUnmarshal mp (slice (e_Value e))) (e_TS e) (e_TTL e * millisecond))))]
      else if e_Op e = MsgIncr then [Inl (Inr (e_Key e, e_NodeID e, sint (f_to_int64 (e_Delta e))))]
      else if e_Op e = MsgWindow then [Inl (Inl (Inr (e_Key e, Physical (e_TS e))))]
      else if e_Op e = MsgDelete then [Inl (Inl (Inl (RDel (e_Key e) (e_TS e))))]
      else []) @ [Inr (e_NodeID e, e_Seq e)]"

text \<open>Entries that replicate state, not metric updates; partial counts are non-negative integers of nodes of the cluster.\<close>

definition entry_good :: "string set \<Rightarrow> int \<Rightarrow> LogEntry \<Rightarrow> bool" where
  "entry_good N B e \<longleftrightarrow> e_Op e \<noteq> MsgMetric \<and>
     (e_Op e = MsgIncr \<longrightarrow> e_NodeID e \<in> N \<and> (\<exists>v. 0 \<le> v \<and> v \<le> B \<and> e_Delta e = f_of_int v))"

text \<open>Two writes of one key with one timestamp are the same write.\<close>

definition entry_write :: "LogEntry \<Rightarrow> bool" where
  "entry_write e \<longleftrightarrow> e_Op e = MsgSet \<or> e_Op e = MsgDelete"

definition entry_compat :: "LogEntry \<Rightarrow> LogEntry \<Rightarrow> bool" where
  "entry_compat e e' \<longleftrightarrow>
     (entry_write e \<and> entry_write e' \<and> e_Key e = e_Key e' \<and> e_TS e = e_TS e' \<longrightarrow>
        e_Op e = e_Op e' \<and> slice (e_Value e) = slice (e_Value e') \<and> e_TTL e = e_TTL e')"

lemma entry_count_exact:
  assumes "cluster_ok N B" and "0 \<le> v" and "v \<le> B"
  shows "sint (f_to_int64 (f_of_int v)) = v"
  using assms part_exact [OF assms] by (simp add: f_to_int64_of_int sint_of_int64 cluster_ok_def)

lemma apply_entry_ops:
  assumes "cluster_ok N B" and "entry_good N B e"
  shows "apply_entry mp e s = fold apply_entry_op (entry_ops mp e) s"
  using assms by (auto simp: apply_entry_def entry_ops_def entry_good_def entry_count_exact)

lemma apply_entries_ops:
  assumes "cluster_ok N B" and "\<forall>e \<in> set es. entry_good N B e"
  shows "fold (apply_entry mp) es s = fold apply_entry_op (concat (map (entry_ops mp) es)) s"
  using assms(2) by (induction es arbitrary: s) (simp_all add: apply_entry_ops [OF assms(1)])

lemma entry_ops_good:
  assumes "cluster_ok N B" and "entry_good N B e" and "x \<in> set (entry_ops mp e)"
  shows "case_sum (case_sum (case_sum (\<lambda>_. True) (\<lambda>_. True)) (count_good N B)) (\<lambda>_. True) x"
  using assms by (auto simp: entry_ops_def entry_good_def entry_count_exact split: if_splits)

lemma entry_ops_compat:
  assumes "entry_compat e e'" and "x \<in> set (entry_ops mp e)" and "y \<in> set (entry_ops mp e')"
  shows "pair_compat (pair_compat (pair_compat reg_compat (\<lambda>_ _. True)) (\<lambda>_ _. True)) (\<lambda>_ _. True) x y"
  using assms
  by (auto simp: entry_compat_def entry_write_def entry_ops_def reg_compat_def MsgSet_def MsgDelete_def split: if_splits)

lemma entries_converge:
  assumes "counter_inv N B s" and "windows_inv s" and "set es = set es'" and "\<forall>e \<in> set es. entry_good N B e"
    and "\<forall>e \<in> set es. \<forall>e' \<in> set es. entry_compat e e'"
  shows "fold (apply_entry mp) es s = fold (apply_entry mp) es' s"
proof -
  have cl: "cluster_ok N B" using assms(1) by (simp add: counter_inv_def)
  have good': "\<forall>e \<in> set es'. entry_good N B e" using assms(3,4) by simp
  show ?thesis
    unfolding apply_entries_ops [OF cl assms(4)] apply_entries_ops [OF cl good']
  proof (rule rwcs.both.converge [where N = N and B = B])
    show "((True \<and> windows_inv s) \<and> counter_inv N B s) \<and> True" using assms by simp
    show "set (concat (map (entry_ops mp) es)) = set (concat (map (entry_ops mp) es'))" using assms(3) by simp
    show "rwcs.both.coherent N B (set (concat (map (entry_ops mp) es)))"
      unfolding rwcs.both.coherent_def set_concat set_map UN_iff ball_simps
      using assms(4,5) by (blast intro: entry_ops_good [OF cl] entry_ops_compat)
  qed
qed

text \<open>An entry whose timestamp is within the allowed offset of every reading of the receiver's wall clock is accepted.\<close>

definition accepts :: "'o Capacitor \<Rightarrow> LogEntry \<Rightarrow> bool" where
  "accepts f e \<longleftrightarrow> (\<forall>i. sint (Physical (e_TS e)) \<le> sint (c_walls f i + maxOffset (c_hlc f)))"

lemma applyRemoteEntry_accepts:
  assumes "accepts f e"
  shows "c_store (applyRemoteEntry mp e f) = apply_entry mp e (c_store f)"
    and "accepts (applyRemoteEntry mp e f) = accepts f"
proof -
  have *: "snd (Update h (c_walls f i) (e_TS e)) \<noteq> Inl err" if "maxOffset h = maxOffset (c_hlc f)" for h i err
    using assms that by (auto simp: accepts_def Update_def Let_def dest: spec [of _ i])
  define f1 where "f1 = (if sint (e_BornAt e) > 0
     then (let (f, now) = tick f in f\<lparr>c_metrics := ReplicateLat_update (Record (time_Since now (e_BornAt e))) (c_metrics f)\<rparr>)
     else f)"
  have f1: "c_store f1 = c_store f" "c_hlc f1 = c_hlc f" "c_walls f1 = c_walls f" by (simp_all add: f1_def tick_def)
  have eq: "applyRemoteEntry mp e f = (let (f, wall) = tick f1 in case Update (c_hlc f) wall (e_TS e) of
      (h, Inl err) \<Rightarrow> f\<lparr>c_hlc := h\<rparr> | (h, Inr _) \<Rightarrow> f\<lparr>c_hlc := h, c_store := apply_entry mp e (c_store f)\<rparr>)"
    unfolding applyRemoteEntry_def f1_def [symmetric] by simp
  obtain h t where u: "Update (c_hlc f) (c_walls f (c_ticks f1)) (e_TS e) = (h, Inr t)"
    using * [of "c_hlc f" "c_ticks f1"] by (metis prod.collapse sumE)
  then have "maxOffset h = maxOffset (c_hlc f)" using Update_maxOffset by (metis fst_conv)
  with u show "c_store (applyRemoteEntry mp e f) = apply_entry mp e (c_store f)"
    by (simp add: eq tick_def f1)
  have "c_walls (applyRemoteEntry mp e f) = c_walls f \<and> maxOffset (c_hlc (applyRemoteEntry mp e f)) = maxOffset (c_hlc f)"
    using u \<open>maxOffset h = maxOffset (c_hlc f)\<close> by (simp add: eq tick_def f1)
  then show "accepts (applyRemoteEntry mp e f) = accepts f"
    by (simp add: accepts_def fun_eq_iff)
qed

lemma applyRemoteEntries_accepts:
  "\<forall>e \<in> set es. accepts f e \<Longrightarrow> c_store (fold (applyRemoteEntry mp) es f) = fold (apply_entry mp) es (c_store f)"
  by (induction es arbitrary: f) (simp_all add: applyRemoteEntry_accepts)


definition demo_entries :: "LogEntry list" where
  "demo_entries =
     [demo_entry,
      zero_LogEntry\<lparr>e_Seq := 8, e_TS := Timestamp 6 0, e_Op := MsgDelete, e_Key := ''k''\<rparr>,
      zero_LogEntry\<lparr>e_Seq := 9, e_TS := Timestamp 7 0, e_Op := MsgIncr, e_Key := ''k'', e_NodeID := ''n2'', e_Delta := f_of_int 3\<rparr>,
      zero_LogEntry\<lparr>e_Seq := 10, e_TS := Timestamp 8 0, e_Op := MsgWindow, e_Key := ''k'', e_NodeID := ''n2''\<rparr>]"

lemma counter_inv_empty: "cluster_ok N B \<Longrightarrow> counter_inv N B emptyStore"
  using counter_abs_empty by (auto simp: counter_inv_def counters_ok_def cluster_ok_def intro!: exI [of _ "\<lambda>_ _. 0"])

lemma windows_inv_empty: "windows_inv emptyStore"
  by (simp add: windows_inv_def emptyStore_def newStoreShard_def ascending_def)


section \<open>Counting in a cluster\<close>

text \<open>The entry an increment logs: the node's own partial count after it.\<close>

definition incr_entry :: "string \<Rightarrow> string \<Rightarrow> float64 \<Rightarrow> uint64 \<Rightarrow> Timestamp \<Rightarrow> int64 \<Rightarrow> LogEntry" where
  "incr_entry key nodeID nodeVal seq ts bornAt = zero_LogEntry\<lparr>e_Seq := seq, e_TS := ts, e_BornAt := bornAt, e_Op := MsgIncr,
     e_Key := key, e_Delta := nodeVal, e_NodeID := nodeID\<rparr>"

lemma IncrementBy_logs:
  assumes "Capacitor_IncrementBy L key delta f = Inr (f', v)"
  shows "c_store f' = fst (store_increment key (c_nodeID f) (f_of_int (sint delta)) (c_store f)) \<and> c_nodeID f' = c_nodeID f \<and>
    (\<exists>ts bornAt seq. Append L (incr_entry key (c_nodeID f) (store_getNodeCount (c_store f') key (c_nodeID f)) 0 ts bornAt) (c_log f)
       = Inr (c_log f', seq))"
proof -
  obtain f1 t where f1: "start_timer f = (f1, t)" by fastforce
  obtain s val where s: "store_increment key (c_nodeID f1) (f_of_int (sint delta)) (c_store f1) = (s, val)" by fastforce
  obtain f2 ts where f2: "hlc_Now (f1\<lparr>c_store := s\<rparr>) = (f2, ts)" by fastforce
  obtain f3 b where f3: "tick f2 = (f3, b)" by fastforce
  obtain f4 where f4: "log_Append L (incr_entry key (c_nodeID f3) (store_getNodeCount s key (c_nodeID f1)) 0 ts b) f3 = Inr f4"
    and "f' = record_lat IncrLat_update t f4"
    using assms f1 s f2 f3
    by (auto simp: Capacitor_IncrementBy_def Let_def incr_entry_def zero_LogEntry_def split: sum.splits)
  with start_timer_frame [OF f1] hlc_Now_result [OF f2] tick_frame [OF f3] log_Append_frame [OF f4] s show ?thesis
    by (auto simp: store_getNodeCount_def)
qed

text \<open>A cluster: the nodes, the counter entries they have logged, the entries each node has received, and how much each counter has been
  incremented in all. \<open>step_incr\<close> is an increment at a node, \<open>step_deliver\<close> the arrival of an entry, once more or for the first time
  and in any order; \<open>step_other\<close> is any other change of a node that leaves its counters alone.\<close>

record 'o cluster =
  members :: "string \<Rightarrow> 'o Capacitor"
  logged :: "LogEntry set"
  received :: "string \<Rightarrow> LogEntry set"
  incremented :: "string \<Rightarrow> int"

definition same_counters :: "'o store \<Rightarrow> 'o store \<Rightarrow> bool" where
  "same_counters s s' \<longleftrightarrow> (\<forall>k. counts (getShard s k) = counts (getShard s' k) \<and>
     aggregateCounts (getShard s k) = aggregateCounts (getShard s' k))"

inductive cluster_reach :: "msgp \<Rightarrow> ('o, 't) msgpack \<Rightarrow> string set \<Rightarrow> int \<Rightarrow> 'o cluster \<Rightarrow> bool" for L mp N B where
  cluster_start: "(\<And>n. n \<in> N \<Longrightarrow> c_nodeID (fs n) = n \<and> c_store (fs n) = emptyStore) \<Longrightarrow>
    cluster_reach L mp N B \<lparr>members = fs, logged = {}, received = (\<lambda>_. {}), incremented = (\<lambda>_. 0)\<rparr>"
| step_incr: "cluster_reach L mp N B w \<Longrightarrow> n \<in> N \<Longrightarrow> 0 \<le> sint d \<Longrightarrow> incremented w key + sint d \<le> B \<Longrightarrow>
    Capacitor_IncrementBy L key d (members w n) = Inr (f', v) \<Longrightarrow>
    cluster_reach L mp N B (w\<lparr>members := (members w)(n := f'),
      logged := insert (incr_entry key n (store_getNodeCount (c_store f') key n) seq ts bornAt) (logged w),
      incremented := (incremented w)(key := incremented w key + sint d)\<rparr>)"
| step_deliver: "cluster_reach L mp N B w \<Longrightarrow> e \<in> logged w \<Longrightarrow> m \<in> N \<Longrightarrow> e_NodeID e \<noteq> m \<Longrightarrow>
    cluster_reach L mp N B (w\<lparr>members := (members w)(m := applyRemoteEntry mp e (members w m)),
      received := (received w)(m := (if accepts (members w m) e then insert e (received w m) else received w m))\<rparr>)"
| step_other: "cluster_reach L mp N B w \<Longrightarrow> n \<in> N \<Longrightarrow> c_nodeID f' = n \<Longrightarrow> same_counters (c_store (members w n)) (c_store f') \<Longrightarrow>
    cluster_reach L mp N B (w\<lparr>members := (members w)(n := f')\<rparr>)"

text \<open>The invariant: \<open>c\<close> is how much each node has counted. A node knows its own counts, holds no more than the true count of any other, and at
  least what it has received; the last count of every node has been logged.\<close>

definition replica_view :: "string set \<Rightarrow> int \<Rightarrow> counters \<Rightarrow> 'o store \<Rightarrow> string \<Rightarrow> LogEntry set \<Rightarrow> bool" where
  "replica_view N B c s m G \<longleftrightarrow> (\<exists>c'. counters_ok N B c' \<and> counter_abs N s c' \<and> (\<forall>k. c' k m = c k m) \<and>
     (\<forall>k. \<forall>n \<in> N. c' k n \<le> c k n) \<and>
     (\<forall>e \<in> G. \<exists>v. 0 \<le> v \<and> v \<le> c' (e_Key e) (e_NodeID e) \<and> e_NodeID e \<in> N \<and> e_Delta e = f_of_int v))"

definition entry_true :: "string set \<Rightarrow> counters \<Rightarrow> LogEntry \<Rightarrow> bool" where
  "entry_true N c e \<longleftrightarrow> e_Op e = MsgIncr \<and> e_NodeID e \<in> N \<and>
     (\<exists>v. 0 \<le> v \<and> v \<le> c (e_Key e) (e_NodeID e) \<and> e_Delta e = f_of_int v)"

definition cluster_inv :: "string set \<Rightarrow> int \<Rightarrow> 'o cluster \<Rightarrow> counters \<Rightarrow> bool" where
  "cluster_inv N B w c \<longleftrightarrow>
     (\<forall>k. \<forall>n \<in> N. 0 \<le> c k n) \<and> (\<forall>k. incremented w k = (\<Sum>n \<in> N. c k n) \<and> incremented w k \<le> B) \<and>
     (\<forall>e \<in> logged w. entry_true N c e) \<and>
     (\<forall>k. \<forall>n \<in> N. c k n = 0 \<or> (\<exists>e \<in> logged w. e_Key e = k \<and> e_NodeID e = n \<and> e_Delta e = f_of_int (c k n))) \<and>
     (\<forall>m \<in> N. c_nodeID (members w m) = m \<and> replica_view N B c (c_store (members w m)) m (received w m))"

lemma counter_abs_same: "same_counters s s' \<Longrightarrow> counter_abs N s c = counter_abs N s' c"
  by (simp add: counter_abs_def same_counters_def)

lemma same_counters_frame:
  assumes "\<And>sh. counts (f sh) = counts sh" and "\<And>sh. aggregateCounts (f sh) = aggregateCounts sh"
  shows "same_counters (at_shard k f s) s"
  using assms by (simp add: same_counters_def getShard_at_shard)

text \<open>Writes, deletes, window events and the janitor are such other changes.\<close>

lemma same_counters_ops:
  "same_counters (apply_reg x s) s" "same_counters (store_addWindowTimestamp k t s) s" "same_counters (store_updatePeerSeq n q s) s"
  "same_counters (fst (store_incrementSlidingWindow k t d now s)) s" "same_counters (janitor_tick n1 n2 s) s"
  unfolding op_shard store_incrementSlidingWindow_def fst_conv
  by (rule same_counters_frame; simp add: shard_incrementSlidingWindow_def Let_def split: prod.split)+
    (simp add: same_counters_def janitor_tick_def getShard_def store_pruneExpiredKeys_def store_pruneStaleWindows_def
      shard_pruneExpiredKeys_def shard_pruneStaleWindows_def)

lemma other_keeps_counters:
  "Capacitor_Set L mp key value ttl f = Inr (f', r) \<Longrightarrow> same_counters (c_store f) (c_store f')"
  "Capacitor_Delete L key f = Inr f' \<Longrightarrow> same_counters (c_store f) (c_store f')"
  "Capacitor_IncrementSlidingWindow L key window f = Inr (f', n) \<Longrightarrow> same_counters (c_store f) (c_store f')"
proof -
  have sym: "same_counters s s' \<Longrightarrow> same_counters s' s" for s s' :: "'a store" by (simp add: same_counters_def)
  note ops = same_counters_ops [THEN sym]
  show "Capacitor_Set L mp key value ttl f = Inr (f', r) \<Longrightarrow> same_counters (c_store f) (c_store f')"
    using Set_result ops(1) [of "c_store f" "RSet key value ts ttl" for ts] by fastforce
  show "Capacitor_Delete L key f = Inr f' \<Longrightarrow> same_counters (c_store f) (c_store f')"
    using Delete_result ops(1) [of "c_store f" "RDel key ts" for ts] by fastforce
  show "Capacitor_IncrementSlidingWindow L key window f = Inr (f', n) \<Longrightarrow> same_counters (c_store f) (c_store f')"
    using IncrementSlidingWindow_result ops(4) by (metis fst_conv)
qed

lemma replica_view_same: "replica_view N B c s m G \<Longrightarrow> same_counters s s' \<Longrightarrow> replica_view N B c s' m G"
  unfolding replica_view_def using counter_abs_same by blast

lemma replica_view_increment:
  assumes view: "replica_view N B c s n G" and cl: "cluster_ok N B" and n: "n \<in> N" and d: "0 \<le> d" "c k n + d \<le> B"
  shows "replica_view N B (cupd k n (c k n + d) c) (fst (store_increment k n (f_of_int d) s)) n G"
    and "store_getNodeCount (fst (store_increment k n (f_of_int d) s)) k n = f_of_int (c k n + d)"
proof -
  obtain c' where c': "counters_ok N B c'" "counter_abs N s c'" "\<And>k. c' k n = c k n" "\<And>k n. n \<in> N \<Longrightarrow> c' k n \<le> c k n"
    "\<And>e. e \<in> G \<Longrightarrow> \<exists>v. 0 \<le> v \<and> v \<le> c' (e_Key e) (e_NodeID e) \<and> e_NodeID e \<in> N \<and> e_Delta e = f_of_int v"
    using view unfolding replica_view_def by blast
  have pos: "0 \<le> c k n" using c'(1,3) n by (metis counters_ok_def)
  have abs: "counter_abs N (fst (store_increment k n (f_of_int d) s)) (cupd k n (c k n + d) c')"
    using counter_abs_increment [OF c'(2) cl c'(1) n, of d k] d c'(3) by simp
  moreover have "counters_ok N B (cupd k n (c k n + d) c')" using c'(1) d pos by (intro counters_ok_cupd) simp_all
  moreover have "\<exists>v. 0 \<le> v \<and> v \<le> cupd k n (c k n + d) c' (e_Key e) (e_NodeID e) \<and> e_NodeID e \<in> N \<and> e_Delta e = f_of_int v"
    if "e \<in> G" for e
  proof -
    have "c' (e_Key e) (e_NodeID e) \<le> cupd k n (c k n + d) c' (e_Key e) (e_NodeID e)" using d c'(3) by (simp add: cupd_def)
    with c'(5) [OF that] show ?thesis by force
  qed
  ultimately show "replica_view N B (cupd k n (c k n + d) c) (fst (store_increment k n (f_of_int d) s)) n G"
    unfolding replica_view_def using c'(3,4) by (intro exI [of _ "cupd k n (c k n + d) c'"]) (auto simp: cupd_def)
  show "store_getNodeCount (fst (store_increment k n (f_of_int d) s)) k n = f_of_int (c k n + d)"
    using abs n by (simp add: counter_abs_def store_getNodeCount_def cupd_def)
qed

lemma replica_view_grow:
  assumes "replica_view N B c s m G" and "m \<noteq> n" and "0 \<le> d"
  shows "replica_view N B (cupd k n (c k n + d) c) s m G"
proof -
  have same: "cupd k n (c k n + d) c j m = c j m" and mono: "c j i \<le> cupd k n (c k n + d) c j i" for i j
    using assms(2,3) by (simp_all add: cupd_def)
  show ?thesis using assms(1) unfolding replica_view_def same using order_trans [OF _ mono] by blast
qed

lemma replica_view_deliver:
  assumes view: "replica_view N B c s m G" and cl: "cluster_ok N B" and e: "entry_true N c e" "e_NodeID e \<noteq> m"
    and B: "c (e_Key e) (e_NodeID e) \<le> B"
  shows "replica_view N B c (apply_entry mp e s) m (insert e G)"
proof -
  obtain c' where c': "counters_ok N B c'" "counter_abs N s c'" "\<And>k. c' k m = c k m" "\<And>k n. n \<in> N \<Longrightarrow> c' k n \<le> c k n"
    "\<And>e. e \<in> G \<Longrightarrow> \<exists>v. 0 \<le> v \<and> v \<le> c' (e_Key e) (e_NodeID e) \<and> e_NodeID e \<in> N \<and> e_Delta e = f_of_int v"
    using view unfolding replica_view_def by blast
  obtain v where v: "0 \<le> v" "v \<le> c (e_Key e) (e_NodeID e)" "e_Delta e = f_of_int v" and op: "e_Op e = MsgIncr" "e_NodeID e \<in> N"
    using e(1) unfolding entry_true_def by blast
  define d where "d = cupd (e_Key e) (e_NodeID e) (max v (c' (e_Key e) (e_NodeID e))) c'"
  have "v \<le> B" using v B by simp
  have "counter_abs N (store_setNodeCount (e_Key e) (e_NodeID e) (f_of_int v) s) d"
    unfolding d_def by (rule counter_abs_setNodeCount [OF c'(2) cl c'(1) op(2) v(1) \<open>v \<le> B\<close>])
  then have "counter_abs N (apply_entry mp e s) d"
    using op(1) v(3) counter_abs_same same_counters_ops(3) by (simp add: apply_entry_def MsgIncr_def MsgSet_def) blast
  moreover have "max v (c' (e_Key e) (e_NodeID e)) \<le> B" "0 \<le> max v (c' (e_Key e) (e_NodeID e))"
    using \<open>v \<le> B\<close> v(1) c'(4) [OF op(2), of "e_Key e"] B by simp_all
  then have "counters_ok N B d" unfolding d_def using c'(1) by (intro counters_ok_cupd)
  moreover have "d k m = c k m" for k using e(2) c'(3) by (simp add: d_def cupd_def)
  moreover have "d k n \<le> c k n" if "n \<in> N" for k n using c'(4) [OF that] v(2) by (auto simp: d_def cupd_def)
  moreover have "\<exists>v. 0 \<le> v \<and> v \<le> d (e_Key e') (e_NodeID e') \<and> e_NodeID e' \<in> N \<and> e_Delta e' = f_of_int v" if "e' \<in> G" for e'
  proof -
    have "c' (e_Key e') (e_NodeID e') \<le> d (e_Key e') (e_NodeID e')" by (simp add: d_def cupd_def)
    with c'(5) [OF that] show ?thesis by force
  qed
  moreover have "v \<le> d (e_Key e) (e_NodeID e)" by (simp add: d_def cupd_def)
  ultimately show ?thesis
    unfolding replica_view_def using op(2) v(1,3) by (intro exI [of _ d]) blast
qed

lemma applyRemoteEntry_store:
  "c_store (applyRemoteEntry mp e f) = c_store f \<or> c_store (applyRemoteEntry mp e f) = apply_entry mp e (c_store f)"
  by (auto simp: applyRemoteEntry_def tick_def Let_def split: prod.split sum.split)

lemma applyRemoteEntry_nodeID [simp]: "c_nodeID (applyRemoteEntry mp e f) = c_nodeID f"
  by (auto simp: applyRemoteEntry_def tick_def Let_def split: prod.split sum.split)

lemma replica_view_subset: "replica_view N B c s m G \<Longrightarrow> G' \<subseteq> G \<Longrightarrow> replica_view N B c s m G'"
  unfolding replica_view_def by blast

lemma count_le_total:
  assumes "cluster_inv N B w c" and "cluster_ok N B" and "n \<in> N"
  shows "c k n \<le> incremented w k"
proof -
  have "c k n \<le> (\<Sum>n \<in> N. c k n)"
    using assms by (intro member_le_sum) (auto simp: cluster_inv_def cluster_ok_def)
  with assms(1) show ?thesis by (simp add: cluster_inv_def)
qed

lemma cluster_inv_incr:
  assumes inv: "cluster_inv N B w c" and cl: "cluster_ok N B" and n: "n \<in> N" and d: "0 \<le> sint d" "incremented w key + sint d \<le> B"
    and inc: "Capacitor_IncrementBy L key d (members w n) = Inr (f', v)"
  shows "cluster_inv N B (w\<lparr>members := (members w)(n := f'),
      logged := insert (incr_entry key n (store_getNodeCount (c_store f') key n) seq ts bornAt) (logged w),
      incremented := (incremented w)(key := incremented w key + sint d)\<rparr>) (cupd key n (c key n + sint d) c)"
    (is "cluster_inv N B ?w ?c")
proof -
  have id: "c_nodeID (members w n) = n" and view: "replica_view N B c (c_store (members w n)) n (received w n)"
    using inv n unfolding cluster_inv_def by blast+
  have le: "c key n + sint d \<le> B" using count_le_total [OF inv cl n, of key] d by simp
  have pos: "0 \<le> c k m" if "m \<in> N" for k m using inv that unfolding cluster_inv_def by blast
  have f': "c_store f' = fst (store_increment key n (f_of_int (sint d)) (c_store (members w n)))" "c_nodeID f' = n"
    using IncrementBy_logs [OF inc] id by auto
  note view' = replica_view_increment [OF view cl n d(1) le, folded f'(1)]
  have mono: "c k m \<le> ?c k m" for k m using d(1) by (simp add: cupd_def)
  have sum: "(\<Sum>m \<in> N. ?c k m) = incremented ?w k" for k
    using sum_upd [of N n c key "c key n + sint d"] cl n inv by (simp add: cupd_def cluster_ok_def cluster_inv_def)
  have "entry_true N ?c e" if "e \<in> logged ?w" for e
  proof (cases "e \<in> logged w")
    case True
    then have "entry_true N c e" using inv unfolding cluster_inv_def by blast
    then show ?thesis unfolding entry_true_def using mono order_trans by blast
  next
    case False
    with that view'(2) n pos [OF n, of key] d show ?thesis
      by (auto simp: entry_true_def incr_entry_def zero_LogEntry_def intro!: exI [of _ "c key n + sint d"])
  qed
  moreover have "?c k m = 0 \<or> (\<exists>e \<in> logged ?w. e_Key e = k \<and> e_NodeID e = m \<and> e_Delta e = f_of_int (?c k m))" if "m \<in> N" for k m
  proof (cases "k = key \<and> m = n")
    case True
    with view'(2) show ?thesis by (auto simp: incr_entry_def zero_LogEntry_def)
  next
    case False
    then have "?c k m = c k m" by (auto simp: cupd_def)
    then show ?thesis using inv that unfolding cluster_inv_def by simp metis
  qed
  moreover have "c_nodeID (members ?w m) = m \<and> replica_view N B ?c (c_store (members ?w m)) m (received ?w m)" if "m \<in> N" for m
  proof (cases "m = n")
    case True
    with view'(1) f'(2) show ?thesis by simp
  next
    case False
    have "replica_view N B c (c_store (members w m)) m (received w m)" "c_nodeID (members w m) = m"
      using inv that unfolding cluster_inv_def by blast+
    with replica_view_grow [OF this(1) False d(1)] False show ?thesis by simp
  qed
  moreover have "incremented w k \<le> B" for k using inv unfolding cluster_inv_def by blast
  then have "incremented ?w k \<le> B" for k using d by simp
  moreover have "0 \<le> ?c k m" if "m \<in> N" for k m using pos [OF that] mono order_trans by blast
  ultimately show ?thesis unfolding cluster_inv_def sum by blast
qed

lemma cluster_inv_deliver:
  assumes inv: "cluster_inv N B w c" and cl: "cluster_ok N B" and e: "e \<in> logged w" "e_NodeID e \<noteq> m" and m: "m \<in> N"
  shows "cluster_inv N B (w\<lparr>members := (members w)(m := applyRemoteEntry mp e (members w m)),
      received := (received w)(m := (if accepts (members w m) e then insert e (received w m) else received w m))\<rparr>) c"
proof -
  let ?f = "members w m" and ?f' = "applyRemoteEntry mp e (members w m)"
  let ?G = "if accepts ?f e then insert e (received w m) else received w m"
  have et: "entry_true N c e" using inv e(1) unfolding cluster_inv_def by blast
  have view: "replica_view N B c (c_store ?f) m (received w m)" using inv m unfolding cluster_inv_def by blast
  have "incremented w (e_Key e) \<le> B" using inv unfolding cluster_inv_def by blast
  moreover have "e_NodeID e \<in> N" using et by (simp add: entry_true_def)
  ultimately have B: "c (e_Key e) (e_NodeID e) \<le> B" using count_le_total [OF inv cl] order_trans by blast
  have "replica_view N B c (c_store ?f') m ?G"
  proof (cases "accepts ?f e")
    case True
    then show ?thesis using replica_view_deliver [OF view cl et e(2) B] by (simp add: applyRemoteEntry_accepts)
  next
    case False
    then show ?thesis
      using applyRemoteEntry_store [of mp e ?f] view replica_view_subset [OF replica_view_deliver [OF view cl et e(2) B, of mp] subset_insertI] by auto
  qed
  moreover have "c_nodeID ?f = m" using inv m unfolding cluster_inv_def by blast
  ultimately show ?thesis using inv [unfolded cluster_inv_def] unfolding cluster_inv_def cluster.simps
    by (intro conjI ballI; (elim conjE)?; (blast | simp add: fun_upd_def)?)
qed

lemma cluster_reach_inv:
  assumes "cluster_reach L mp N B w" and "cluster_ok N B"
  shows "\<exists>c. cluster_inv N B w c"
  using assms
proof (induction rule: cluster_reach.induct)
  case (cluster_start fs)
  then have "cluster_inv N B \<lparr>members = fs, logged = {}, received = (\<lambda>_. {}), incremented = (\<lambda>_. 0)\<rparr> (\<lambda>_ _. 0)"
    using counter_abs_empty by (auto simp: cluster_inv_def replica_view_def counters_ok_def cluster_ok_def intro!: exI [of _ "\<lambda>_ _. 0"])
  then show ?case by blast
next
  case (step_incr w n d key f' v seq ts bornAt)
  then show ?case using cluster_inv_incr by blast
next
  case (step_deliver w e m)
  then show ?case using cluster_inv_deliver by blast
next
  case (step_other w n f')
  then obtain c where "cluster_inv N B w c" by blast
  with step_other.hyps have "cluster_inv N B (w\<lparr>members := (members w)(n := f')\<rparr>) c"
    by (simp add: cluster_inv_def) (metis replica_view_same)
  then show ?case by blast
qed


lemma IncrementBy_accepts:
  assumes "l_capacity (c_log f) \<noteq> 0" and "l_bufHead (c_log f) \<le> l_bufCap (c_log f)"
  shows "\<exists>f' v. Capacitor_IncrementBy L key d f = Inr (f', v)"
proof -
  obtain f1 t where f1: "start_timer f = (f1, t)" by fastforce
  obtain s val where s: "store_increment key (c_nodeID f1) (f_of_int (sint d)) (c_store f1) = (s, val)" by fastforce
  obtain f2 ts where f2: "hlc_Now (f1\<lparr>c_store := s\<rparr>) = (f2, ts)" by fastforce
  obtain f3 b where f3: "tick f2 = (f3, b)" by fastforce
  have "c_log f3 = c_log f" using start_timer_frame [OF f1] hlc_Now_result [OF f2] tick_frame [OF f3] by auto
  with assms log_Append_accepts [of f3 L] obtain f4 where "log_Append L (zero_LogEntry\<lparr>e_TS := ts, e_BornAt := b, e_Op := MsgIncr,
      e_Key := key, e_Delta := store_getNodeCount s key (c_nodeID f1), e_NodeID := c_nodeID f3\<rparr>) f3 = Inr f4" by metis
  moreover have "c_nodeID f2 = c_nodeID f1" "c_store f2 = s" using hlc_Now_result [OF f2] by auto
  ultimately show ?thesis using f1 s f2 f3 by (simp add: Capacitor_IncrementBy_def Let_def)
qed


end
