(* ===== verification/Server.thy ===== *)
theory Server
  imports Node_Laws
begin

text \<open>
  The stream server of \<^verbatim>\<open>src/transport.go\<close>: accepting connections and serving the batches that arrive on one. A connection is the
  bytes it delivers; the loop of \<^verbatim>\<open>handleConn\<close> is a partial function whose undefined value is a loop that never ends, and
  that it ends is proved. The handler reads at most 100 MB, authenticates the first batch, records where the peer stands in the own log and
  applies the entries.
\<close>

section \<open>Accepting connections\<close>

text \<open>The outcome of \<^verbatim>\<open>NewStreamServer\<close> is that of listening, with or without TLS.\<close>

record StreamServer =
  ss_tls :: bool
  ss_stopped :: bool

definition NewStreamServer :: "bool \<Rightarrow> goerr option \<Rightarrow> goerr option \<Rightarrow> goerr + StreamServer" where
  "NewStreamServer tlsConfig tlsListen netListen =
     (let err = (if tlsConfig then tlsListen else netListen)
      in case err of Some e \<Rightarrow> Inl e | None \<Rightarrow> Inr \<lparr>ss_tls = tlsConfig, ss_stopped = False\<rparr>)"

text \<open>What \<^verbatim>\<open>Accept\<close> returns: an error, with whether the server has been stopped by then, or a connection.\<close>

datatype 'c accept = AcceptErr bool | AcceptConn 'c

text \<open>The accept loop over the outcomes of \<^verbatim>\<open>Accept\<close>: the connections a handler is started for, and whether the loop has returned.\<close>

fun server_Start :: "'c accept list \<Rightarrow> 'c list \<times> bool" where
  "server_Start [] = ([], False)"
| "server_Start (AcceptErr closed # as) = (if closed then ([], True) else server_Start as)"
| "server_Start (AcceptConn conn # as) = (let (conns, returned) = server_Start as in (conn # conns, returned))"

section \<open>Serving a connection\<close>

text \<open>Why a handler returned.\<close>

datatype conn_end = TLSError goerr | StreamError goerr | Unauthorized | MissingHandshake

text \<open>Applying the entries of a batch; one that does not decode is skipped.\<close>

definition apply_raw :: "msgp \<Rightarrow> ('o, 't) msgpack \<Rightarrow> bytes \<Rightarrow> 'o Capacitor \<Rightarrow> 'o Capacitor" where
  "apply_raw L mp rawEntry f =
     (case LogEntry_UnmarshalMsg L zero_LogEntry rawEntry of
        Inl e \<Rightarrow> f
      | Inr (entry, _) \<Rightarrow> applyRemoteEntry mp entry f)"

text \<open>The handshake: \<^const>\<open>Inl\<close> to close the connection.\<close>

definition check_handshake :: "bool \<Rightarrow> Batch \<Rightarrow> 'o Capacitor \<Rightarrow> conn_end + 'o Capacitor" where
  "check_handshake firstBatch batch f =
     (case b_Handshake batch of
        Some h \<Rightarrow>
          if c_authToken f \<noteq> '''' \<and> h_AuthToken h \<noteq> c_authToken f then Inl Unauthorized
          else Inr (f\<lparr>c_peerSeqs := (c_peerSeqs f)(b_FromNode batch \<mapsto> h_LastSeenSeq h)\<rparr>)
      | None \<Rightarrow> if firstBatch \<and> c_authToken f \<noteq> '''' then Inl MissingHandshake else Inr f)"

text \<open>One round of the loop: the bytes left and whether to go on.\<close>

definition serve_batch ::
  "msgp \<Rightarrow> bytes decoder \<Rightarrow> ('o, 't) msgpack \<Rightarrow> bool \<Rightarrow> bytes \<Rightarrow> 'o Capacitor \<Rightarrow> conn_end + bytes \<times> 'o Capacitor" where
  "serve_batch L R mp firstBatch s f =
     (case Batch_DecodeMsg L R zero_Batch s of
        Inl e \<Rightarrow> Inl (StreamError e)
      | Inr (batch, s) \<Rightarrow>
          (case check_handshake firstBatch batch f of
             Inl r \<Rightarrow> Inl r
           | Inr f \<Rightarrow> Inr (s, foldl (\<lambda>f raw. apply_raw L mp raw f) f (b_Entries batch))))"

partial_function (option) serve ::
  "msgp \<Rightarrow> bytes decoder \<Rightarrow> ('o, 't) msgpack \<Rightarrow> bool \<Rightarrow> bytes \<Rightarrow> 'o Capacitor \<Rightarrow> ('o Capacitor \<times> conn_end) option" where
  "serve L R mp firstBatch s f =
     (case serve_batch L R mp firstBatch s f of
        Inl r \<Rightarrow> Some (f, r)
      | Inr (s, f) \<Rightarrow> serve L R mp False s f)"

definition conn_limit :: nat where
  "conn_limit = 100 * 1024 * 1024"

text \<open>\<^verbatim>\<open>handleConn\<close>, with the outcome of the TLS handshake.\<close>

definition handleConn ::
  "msgp \<Rightarrow> bytes decoder \<Rightarrow> ('o, 't) msgpack \<Rightarrow> goerr option \<Rightarrow> bytes \<Rightarrow> 'o Capacitor \<Rightarrow> ('o Capacitor \<times> conn_end) option" where
  "handleConn L R mp tls input f =
     (case tls of
        Some e \<Rightarrow> Some (f, TLSError e)
      | None \<Rightarrow> serve L R mp True (take conn_limit input) f)"

declare serve.simps [code]

section \<open>The handler returns\<close>

context msgp_reader
begin

lemma Batch_entries_consumes: "Batch_entries L R i n s = Inr (vs, s') \<Longrightarrow> length s' \<le> length s"
proof (induction n arbitrary: i s vs)
  case (Suc n)
  then show ?case
    by (auto simp: andthen_def split: sum.splits dest!: consumes(4)) (metis Suc.IH le_trans)
qed simp

lemma Handshake_fields_consumes: "Handshake_fields L R ctx n z s = Inr (h, s') \<Longrightarrow> length s' \<le> length s"
proof (induction n arbitrary: z s)
  case (Suc n)
  then show ?case
    by (auto simp: andthen_def split: sum.splits if_splits dest!: consumes Suc.IH)
qed simp

lemma Handshake_map_consumes: "Handshake_map L R ctx z s = Inr (h, s') \<Longrightarrow> length s' \<le> length s"
  by (auto simp: Handshake_map_def andthen_def split: sum.splits dest!: header_consumes Handshake_fields_consumes)

lemma Batch_fields_consumes: "Batch_fields L R w n z s = Inr (b, s') \<Longrightarrow> length s' \<le> length s"
proof (induction n arbitrary: z s)
  case (Suc n)
  then show ?case
    by (auto simp: andthen_def split: sum.splits if_splits
        dest!: consumes Batch_entries_consumes Handshake_map_consumes Suc.IH)
qed simp

lemma Batch_DecodeMsg_consumes: "Batch_DecodeMsg L R z s = Inr (b, s') \<Longrightarrow> length s' < length s"
  by (auto simp: Batch_DecodeMsg_def andthen_def split: sum.splits dest!: header_consumes Batch_fields_consumes)

lemma serve_returns: "\<exists>f' r. serve L R mp first s f = Some (f', r)"
proof (induction "length s" arbitrary: s f first rule: less_induct)
  case less
  show ?case
  proof (cases "serve_batch L R mp first s f")
    case (Inl r)
    then show ?thesis by (simp add: serve.simps)
  next
    case (Inr p)
    obtain s' f' where p: "p = (s', f')" by fastforce
    with Inr have "length s' < length s"
      by (auto simp: serve_batch_def split: sum.splits dest!: Batch_DecodeMsg_consumes)
    from less [OF this] Inr p show ?thesis by (simp add: serve.simps [of _ _ _ first])
  qed
qed

text \<open>Reading back a stream of encoded batches.\<close>

lemma Handshake_fields_reader: "Handshake_fields (L\<lparr>Bytes := R'\<rparr>) D ctx n z s = Handshake_fields L D ctx n z s"
  by (induction n arbitrary: z s) (simp_all add: andthen_def split: sum.split)

lemma Batch_entries_reader: "Batch_entries (L\<lparr>Bytes := R'\<rparr>) D i n s = Batch_entries L D i n s"
  by (induction n arbitrary: i s) (simp_all add: andthen_def split: sum.split)

lemma Batch_fields_reader: "Batch_fields (L\<lparr>Bytes := R'\<rparr>) D w n z s = Batch_fields L D w n z s"
  by (induction n arbitrary: z s)
    (simp_all add: andthen_def Handshake_map_def Handshake_fields_reader Batch_entries_reader split: sum.split)

lemma Batch_MarshalMsg_reader: "Batch_MarshalMsg (L\<lparr>Bytes := R'\<rparr>) z b = Batch_MarshalMsg L z b"
  by (simp add: Batch_MarshalMsg_def Batch_Msgsize_def Handshake_body_def Let_def split: option.split)

lemma Batch_read:
  "batch_small z \<Longrightarrow> Batch_DecodeMsg L R zero_Batch (Batch_MarshalMsg L z [] @ r) = Inr (z, r)"
  using rd.Batch_roundtrip(2) [of z r]
  by (simp add: Batch_DecodeMsg_def Batch_fields_reader Batch_MarshalMsg_reader)

lemma Batch_read_eof: "\<exists>e. Batch_DecodeMsg L R z [] = Inl e"
  using eof by (auto simp: Batch_DecodeMsg_def)

end

section \<open>What a session does to the node\<close>

text \<open>The effect of an admitted batch.\<close>

definition accept_batch :: "msgp \<Rightarrow> ('o, 't) msgpack \<Rightarrow> 'o Capacitor \<Rightarrow> Batch \<Rightarrow> 'o Capacitor" where
  "accept_batch L mp f batch =
     foldl (\<lambda>f raw. apply_raw L mp raw f)
       (case b_Handshake batch of
          Some h \<Rightarrow> f\<lparr>c_peerSeqs := (c_peerSeqs f)(b_FromNode batch \<mapsto> h_LastSeenSeq h)\<rparr>
        | None \<Rightarrow> f) (b_Entries batch)"

lemma applyRemoteEntry_token [simp]: "c_authToken (applyRemoteEntry mp e f) = c_authToken f"
  by (auto simp: applyRemoteEntry_def tick_def Let_def split: prod.splits sum.splits)

lemma apply_raws_token: "c_authToken (foldl (\<lambda>f raw. apply_raw L mp raw f) f raws) = c_authToken f"
  by (induction raws arbitrary: f) (simp_all add: apply_raw_def split: sum.split)

lemma accept_batch_token [simp]: "c_authToken (accept_batch L mp f b) = c_authToken f"
  by (simp add: accept_batch_def apply_raws_token split: option.split)

definition refused :: "string \<Rightarrow> bool \<Rightarrow> Batch \<Rightarrow> bool" where
  "refused token first b \<longleftrightarrow> token \<noteq> '''' \<and>
     (case b_Handshake b of Some h \<Rightarrow> h_AuthToken h \<noteq> token | None \<Rightarrow> first)"

lemma serve_batch_eq:
  "serve_batch L R mp first s f =
     (case Batch_DecodeMsg L R zero_Batch s of
        Inl e \<Rightarrow> Inl (StreamError e)
      | Inr (b, s) \<Rightarrow>
          if refused (c_authToken f) first b
          then Inl (if b_Handshake b = None then MissingHandshake else Unauthorized)
          else Inr (s, accept_batch L mp f b))"
  by (auto simp: serve_batch_def check_handshake_def refused_def accept_batch_def split: sum.split option.split)

text \<open>The batches that a stream of bytes starts with.\<close>

fun decodes :: "msgp \<Rightarrow> bytes decoder \<Rightarrow> bytes \<Rightarrow> Batch list \<Rightarrow> bool" where
  "decodes L R s [] \<longleftrightarrow> True"
| "decodes L R s (b # bs) \<longleftrightarrow>
     (case Batch_DecodeMsg L R zero_Batch s of Inl e \<Rightarrow> False | Inr (b', s') \<Rightarrow> b' = b \<and> decodes L R s' bs)"

fun admitted :: "string \<Rightarrow> bool \<Rightarrow> Batch list \<Rightarrow> bool" where
  "admitted token first [] \<longleftrightarrow> True"
| "admitted token first (b # bs) \<longleftrightarrow> \<not> refused token first b \<and> admitted token False bs"

lemma serve_admitted:
  fixes mp :: "('o, 't) msgpack"
  assumes "serve L R mp first s f = Some (f', r)"
  shows "\<exists>bs. decodes L R s bs \<and> admitted (c_authToken f) first bs \<and> f' = foldl (accept_batch L mp) f bs"
proof -
  have "\<exists>bs. decodes L R s bs \<and> admitted (c_authToken f) first bs \<and> fst (f', r) = foldl (accept_batch L mp) f bs"
  proof (rule serve.raw_induct [where P = "\<lambda>L R mp first s f y. \<exists>bs. decodes L R s bs \<and>
        admitted (c_authToken f) first bs \<and> fst y = foldl (accept_batch L mp) f bs", OF _ assms])
    fix serve L R and mp :: "('o, 't) msgpack" and first s f y
    assume IH: "\<And>L R mp first s f y. serve L R mp first s f = Some y \<Longrightarrow>
        \<exists>bs. decodes L R s bs \<and> admitted (c_authToken f) first bs \<and> fst y = foldl (accept_batch L mp) f bs"
      and run: "(case serve_batch L R mp first s f of Inl r \<Rightarrow> Some (f, r) | Inr (s, f) \<Rightarrow> serve L R mp False s f) = Some y"
    show "\<exists>bs. decodes L R s bs \<and> admitted (c_authToken f) first bs \<and> fst y = foldl (accept_batch L mp) f bs"
    proof (cases "serve_batch L R mp first s f")
      case (Inl e)
      with run show ?thesis by (intro exI [of _ "[]"]) auto
    next
      case (Inr p)
      then obtain b s' where b: "Batch_DecodeMsg L R zero_Batch s = Inr (b, s')" "\<not> refused (c_authToken f) first b"
        "p = (s', accept_batch L mp f b)"
        by (auto simp: serve_batch_eq split: sum.splits if_splits)
      with run Inr have "serve L R mp False s' (accept_batch L mp f b) = Some y" by simp
      from IH [OF this] obtain bs where "decodes L R s' bs" "admitted (c_authToken f) False bs"
        "fst y = foldl (accept_batch L mp) (accept_batch L mp f b) bs" by auto
      with b show ?thesis by (intro exI [of _ "b # bs"]) simp
    qed
  qed
  then show ?thesis by simp
qed

lemma admitted_tokens:
  "admitted token first bs \<Longrightarrow> token \<noteq> [] \<Longrightarrow>
     (\<forall>b \<in> set bs. \<forall>h. b_Handshake b = Some h \<longrightarrow> h_AuthToken h = token) \<and>
     (first \<longrightarrow> bs \<noteq> [] \<longrightarrow> b_Handshake (hd bs) \<noteq> None)"
  by (induction token first bs rule: admitted.induct) (auto simp: refused_def split: option.splits)

lemma session_admitted:
  "(\<forall>b \<in> set bs. \<forall>h. b_Handshake b = Some h \<longrightarrow> h_AuthToken h = token) \<Longrightarrow>
   (first \<Longrightarrow> bs \<noteq> [] \<Longrightarrow> b_Handshake (hd bs) \<noteq> None) \<Longrightarrow> admitted token first bs"
  by (induction token first bs rule: admitted.induct) (auto simp: refused_def split: option.splits)

context msgp_reader
begin

lemma serve_session:
  assumes "\<forall>b \<in> set bs. batch_small b" and "admitted (c_authToken f) first bs"
  shows "\<exists>e. serve L R mp first (concat (map (\<lambda>b. Batch_MarshalMsg L b []) bs)) f
           = Some (foldl (accept_batch L mp) f bs, StreamError e)"
  using assms
proof (induction bs arbitrary: f first)
  case Nil
  then show ?case using Batch_read_eof [of zero_Batch] by (auto simp: serve.simps serve_batch_eq)
next
  case (Cons b bs)
  then show ?case by (subst serve.simps) (simp add: serve_batch_eq Batch_read)
qed

end

section \<open>Properties\<close>

text \<open>C6: Authentication: when a handler returns, the node has received the effects of a sequence of batches that the
  connection's bytes begin with, and if the node has a token then every handshake among them carries the token and the first of
  them has a handshake; so a peer that does not present the token changes nothing.\<close>

theorem server_auth:
  assumes "handleConn L R mp tls input f = Some (f', r)"
  shows "\<exists>bs. decodes L R (take conn_limit input) bs \<and> f' = foldl (accept_batch L mp) f bs \<and>
           (c_authToken f \<noteq> '''' \<longrightarrow> session_ok (c_authToken f) bs)"
proof (cases tls)
  case None
  with assms have "serve L R mp True (take conn_limit input) f = Some (f', r)" by (simp add: handleConn_def)
  from serve_admitted [OF this] obtain bs where bs: "decodes L R (take conn_limit input) bs"
    "admitted (c_authToken f) True bs" "f' = foldl (accept_batch L mp) f bs" by blast
  moreover have "c_authToken f \<noteq> '''' \<longrightarrow> session_ok (c_authToken f) bs"
    using admitted_tokens [OF bs(2)] by (auto simp: session_ok_def)
  ultimately show ?thesis by blast
next
  case (Some e)
  with assms show ?thesis by (intro exI [of _ "[]"]) (simp add: handleConn_def session_ok_def)
qed

definition demo_batch :: "string \<Rightarrow> Batch" where
  "demo_batch token = \<lparr>b_FromNode = ''n2'', b_Entries = [LogEntry_MarshalMsg wire demo_entry []],
     b_Handshake = Some \<lparr>h_LastSeenSeq = 4, h_AuthToken = token\<rparr>\<rparr>"

lemma demo_batch_small:
  assumes "length token \<le> 100"
  shows "batch_small (demo_batch token)" and "length (Batch_MarshalMsg wire (demo_batch token) []) \<le> conn_limit"
proof -
  have len: "length (LogEntry_MarshalMsg wire demo_entry []) \<le> 200"
    using wire.LogEntry_size [of demo_entry "[]"]
    by (simp add: LogEntry_Msgsize_def Timestamp_Msgsize_def MsgType_Msgsize_def wire_def demo_entry_def)
  then show "batch_small (demo_batch token)" using assms by (simp add: batch_small_def demo_batch_def)
  show "length (Batch_MarshalMsg wire (demo_batch token) []) \<le> conn_limit"
    using wire.Batch_size [of "demo_batch token" "[]"] len assms
    by (simp add: Batch_Msgsize_def demo_batch_def wire_def conn_limit_def)
qed

theorem server_auth_witness:
  "handleConn wire wire_bytes demo_mp None (Batch_MarshalMsg wire (demo_batch ''guess'') []) demo_node
     = Some (demo_node, Unauthorized) \<and>
   (\<exists>bs. demo_node = foldl (accept_batch wire demo_mp) demo_node bs \<and> session_ok ''secret'' bs)"
proof -
  have "Batch_DecodeMsg wire wire_bytes zero_Batch (Batch_MarshalMsg wire (demo_batch ''guess'') []) = Inr (demo_batch ''guess'', [])"
    using wire_rd.Batch_read [OF demo_batch_small(1), of "''guess''" "[]"] by simp
  then have "handleConn wire wire_bytes demo_mp None (Batch_MarshalMsg wire (demo_batch ''guess'') []) demo_node
      = Some (demo_node, Unauthorized)"
    using demo_batch_small(2) [of "''guess''"]
    by (simp add: handleConn_def serve.simps serve_batch_eq refused_def demo_node_simps) (simp add: demo_batch_def)
  with server_auth [OF this] show ?thesis by (auto simp: demo_node_simps)
qed

text \<open>C24: A handler ends: whatever bytes a connection delivers, also without end, the handler returns, for every library whose
  readers consume what they read.\<close>

theorem handleConn_returns:
  assumes "msgp_reader L R"
  shows "\<exists>f' r. handleConn L R mp tls input f = Some (f', r)"
  using msgp_reader.serve_returns [OF assms] by (auto simp: handleConn_def split: option.split)

theorem handleConn_returns_witness: "\<exists>f' r. handleConn wire wire_bytes demo_mp None [0x83, 0xA1] demo_node = Some (f', r)"
  by (rule handleConn_returns [OF wire_rd.msgp_reader_axioms])




end
