(* ===== verification/Replication.thy ===== *)
theory Replication
  imports Server
begin

text \<open>
  Replication of the log to a peer: the replicator of \<^verbatim>\<open>src/capacitor.go\<close> together with the delta log, the client and the
  server. The entries a peer has been sent are a prefix of the entries logged, each once and in order, the replicator waits only when
  there is nothing left to send, and a successful round sends something; what arrives decodes to what was logged.
\<close>

section \<open>One round\<close>

lemma gather_take: "\<exists>n. gather mb started cur es = take n es \<and> (\<not> started \<longrightarrow> es \<noteq> [] \<longrightarrow> n > 0) \<and> n \<le> length es"
proof (induction es arbitrary: started cur)
  case (Cons e es)
  show ?case
  proof (cases "started \<and> cur + int (length e) > mb")
    case True
    then show ?thesis by (intro exI [of _ 0]) simp
  next
    case False
    obtain n where "gather mb True (cur + int (length e)) es = take n es" "n \<le> length es" using Cons by blast
    with False show ?thesis by (intro exI [of _ "Suc n"]) auto
  qed
qed simp

text \<open>What a read from behind the last sequence number returns, when it is still retained.\<close>

lemma log_read_segment:
  assumes "q \<le> length hist" and "length hist - cap \<le> q" and "length hist < 2 ^ 62" and "0 < limit"
  shows "\<exists>n. log_read cap hist (of_nat q + 1) limit mb = take n (drop q hist) \<and> (q < length hist \<longrightarrow> n > 0) \<and> q + n \<le> length hist"
proof -
  have "unat (of_nat (Suc q) :: uint64) = Suc q"
    using assms(1,3) by (simp only: unat_of_nat) simp
  then have "unat (of_nat q + 1 :: uint64) - 1 = q" by (simp add: add.commute)
  then have eq: "log_read cap hist (of_nat q + 1) limit mb = gather mb False 0 (take (nat limit) (drop q hist))"
    using assms(2) by (simp add: log_read_def max_def)
  obtain n where n: "gather mb False 0 (take (nat limit) (drop q hist)) = take n (take (nat limit) (drop q hist))"
    "take (nat limit) (drop q hist) \<noteq> [] \<longrightarrow> n > 0" "n \<le> length (take (nat limit) (drop q hist))"
    using gather_take by blast
  then have "gather mb False 0 (take (nat limit) (drop q hist)) = take n (drop q hist)" by (auto simp: min_def split: if_splits)
  moreover have "q + n \<le> length hist" using n(3) assms(1) by (simp, linarith)
  moreover have "q < length hist \<longrightarrow> n > 0" using n(2) assms(4) by simp
  ultimately show ?thesis using eq by metis
qed

text \<open>What a round delivers: the entries of the batch it wrote, if the write succeeded.\<close>

definition delivered :: "'o Capacitor \<Rightarrow> goerr option \<Rightarrow> 'o Capacitor \<Rightarrow> bytes list" where
  "delivered f wrote f' =
     (if wrote = None then concat (map (\<lambda>w. b_Entries (snd w)) (drop (length (cl_written (c_client f))) (cl_written (c_client f'))))
      else [])"

lemma SendBatch_written:
  assumes "SendBatch n b q t1 d t2 w c = (c', r)"
  shows "(r = None \<longrightarrow> w = None \<and> (\<exists>i b'. cl_written c' = cl_written c @ [(i, b')] \<and> b_Entries b' = b_Entries b)) \<and>
         (r \<noteq> None \<longrightarrow> w \<noteq> None \<or> cl_written c' = cl_written c) \<and> (d = None \<longrightarrow> w = None \<longrightarrow> r = None)"
proof -
  obtain c1 x where dial: "dial n t1 d t2 c = (c1, x)" by fastforce
  have "cl_written c1 = cl_written c" "d = None \<longrightarrow> isl x \<longrightarrow> False"
    using dial by (auto simp: dial_def dial_lookup_def dial_register_def Let_def split: option.splits)
  with assms dial show ?thesis
    by (cases x) (auto simp: SendBatch_def Let_def split: option.splits if_splits)
qed

lemma replicateToPeer_round:
  assumes rel: "log_rel M (c_log f) hist rs" and q: "last_seq nodeID f = of_nat q" "q \<le> length hist"
    and ret: "length hist - unat (l_capacity (c_log f)) \<le> q"
  shows "\<exists>f' n. replicateToPeer nodeID d w f = Inr f' \<and> c_log f' = c_log f \<and> c_peerSeqs f' nodeID = Some (of_nat (q + n)) \<and>
    delivered f w f' = take n (drop q hist) \<and> q + n \<le> length hist \<and> (d = None \<longrightarrow> w = None \<longrightarrow> q < length hist \<longrightarrow> n > 0)"
proof -
  define f1 where "f1 = f\<lparr>c_peerSeqs := (c_peerSeqs f)(nodeID \<mapsto> last_seq nodeID f)\<rparr>"
  define cap where "cap = unat (l_capacity (c_log f))"
  have small: "length hist < 2 ^ 62" using rel by (simp add: log_rel_def)
  obtain n where n: "log_read cap hist (of_nat q + 1) 1000 (8 * 1024 * 1024) = take n (drop q hist)"
    "q < length hist \<longrightarrow> n > 0" "q + n \<le> length hist"
    using log_read_segment [OF q(2) ret small, of 1000] unfolding cap_def by auto
  define raws where "raws = take n (drop q hist)"
  have raw: "GetEntriesRaw (c_log f1) (last_seq nodeID f + 1) 1000 (8 * 1024 * 1024) = Inr raws"
    using GetEntriesRaw_rel [OF rel, of 1000 "last_seq nodeID f + 1" "8 * 1024 * 1024"] n(1) q(1)
    by (simp add: f1_def cap_def raws_def)
  have len: "length raws = n" using n(3) by (simp add: raws_def)
  show ?thesis
  proof (cases "raws = []")
    case True
    then have "replicateToPeer nodeID d w f = Inr f1"
      unfolding replicateToPeer_def Let_def f1_def [symmetric] raw by simp
    with True n(2) q len show ?thesis
      by (intro exI [of _ f1] exI [of _ 0]) (simp add: f1_def delivered_def)
  next
    case False
    obtain f2 t1 where f2: "tick f1 = (f2, t1)" by fastforce
    obtain f3 t2 where f3: "tick f2 = (f3, t2)" by fastforce
    have f3': "c_client f3 = c_client f" "c_log f3 = c_log f" "c_peerSeqs f3 nodeID = Some (of_nat q)"
      using f2 f3 q(1) by (auto simp: tick_def f1_def)
    obtain c r where send: "SendBatch nodeID \<lparr>b_FromNode = c_nodeID f1, b_Entries = raws, b_Handshake = None\<rparr>
        (store_getPeerSeq (c_store f1) nodeID) t1 d t2 w (c_client f3) = (c, r)" by fastforce
    note wr = SendBatch_written [OF send, unfolded f3'(1)]
    have round: "replicateToPeer nodeID d w f = (case r of
        None \<Rightarrow> Inr (f3\<lparr>c_client := c, c_peerSeqs := (c_peerSeqs f3)(nodeID \<mapsto> last_seq nodeID f + of_nat n)\<rparr>)
      | Some e \<Rightarrow> Inr (f3\<lparr>c_client := c\<rparr>))"
      unfolding replicateToPeer_def Let_def f1_def [symmetric] raw using False
      by (simp add: f2 f3 send len split: option.split)
    show ?thesis
    proof (cases r)
      case None
      then have "delivered f w (f3\<lparr>c_client := c, c_peerSeqs := (c_peerSeqs f3)(nodeID \<mapsto> last_seq nodeID f + of_nat n)\<rparr>) = raws"
        using wr by (auto simp: delivered_def)
      with None n(2,3) f3' q(1) round show ?thesis
        by (intro exI [of _ "f3\<lparr>c_client := c, c_peerSeqs := (c_peerSeqs f3)(nodeID \<mapsto> last_seq nodeID f + of_nat n)\<rparr>"]
            exI [of _ n]) (simp add: raws_def)
    next
      case (Some e)
      then have "delivered f w (f3\<lparr>c_client := c\<rparr>) = []" using wr by (auto simp: delivered_def)
      with Some wr q(2) f3' round show ?thesis
        by (intro exI [of _ "f3\<lparr>c_client := c\<rparr>"] exI [of _ 0]) auto
    qed
  qed
qed

section \<open>Runs of a replicator\<close>

text \<open>A node and one of its peers: the node, the encoded entries it has logged, and the entries that rounds to the peer have delivered.
  Entries are appended, and rounds are made with any outcome of dialling and of the write, as long as the entries the peer still
  needs are in the log; other changes of the node leave its log and its record of the peer alone.\<close>

inductive rep_reach :: "msgp \<Rightarrow> nat \<Rightarrow> string \<Rightarrow> 'o Capacitor \<Rightarrow> bytes list \<Rightarrow> bytes list \<Rightarrow> bool" for L M nodeID where
  rep_start: "log_rel M (c_log f) [] [] \<Longrightarrow> last_seq nodeID f = 0 \<Longrightarrow> rep_reach L M nodeID f [] []"
| rep_append: "rep_reach L M nodeID f hist sent \<Longrightarrow> LogEntry_Msgsize L e \<le> M \<Longrightarrow> Suc (length hist) < 2 ^ 62 \<Longrightarrow>
    log_Append L e f = Inr f' \<Longrightarrow>
    rep_reach L M nodeID f' (hist @ [LogEntry_MarshalMsg L (e\<lparr>e_Seq := of_nat (Suc (length hist))\<rparr>) []]) sent"
| rep_round: "rep_reach L M nodeID f hist sent \<Longrightarrow>
    l_head (c_log f) \<le> last_seq nodeID f + 1 + l_capacity (c_log f) \<Longrightarrow>
    replicateToPeer nodeID d w f = Inr f' \<Longrightarrow> rep_reach L M nodeID f' hist (sent @ delivered f w f')"
| rep_other: "rep_reach L M nodeID f hist sent \<Longrightarrow> c_log f' = c_log f \<Longrightarrow> last_seq nodeID f' = last_seq nodeID f \<Longrightarrow>
    rep_reach L M nodeID f' hist sent"

lemma log_rel_capacity: "log_rel M l hist rs \<Longrightarrow> 0 < M \<Longrightarrow> unat (l_capacity l) < 2 ^ 62"
proof -
  assume rel: "log_rel M l hist rs" and M: "0 < M"
  have "unat (l_capacity l) + 1 \<le> (unat (l_capacity l) + 1) * M"
    using M mult_le_mono2 [of 1 M "unat (l_capacity l) + 1"] by (metis One_nat_def Suc_leI mult_1_right)
  also have "\<dots> < 2 ^ 31" using rel unfolding log_rel_def by linarith
  finally show ?thesis by simp
qed

lemma retained_iff:
  assumes rel: "log_rel M l hist rs" and q: "q \<le> length hist" and M: "0 < M"
  shows "l_head l \<le> of_nat q + 1 + l_capacity l \<longleftrightarrow> length hist \<le> q + unat (l_capacity l)"
proof -
  have h: "unat (l_head l) = Suc (length hist)" "length hist < 2 ^ 62" using rel unfolding log_rel_def by blast+
  have eq: "of_nat q + 1 + l_capacity l = of_nat (Suc q + unat (l_capacity l))" by simp
  have "unat (of_nat (Suc q + unat (l_capacity l)) :: uint64) = Suc q + unat (l_capacity l)"
    using q log_rel_capacity [OF rel M] h(2) by (simp only: unat_of_nat) simp
  then show ?thesis unfolding word_le_nat_alt eq h(1) by simp
qed

lemma rep_reach_inv:
  assumes "rep_reach L M nodeID f hist sent" and "msgp_lib L" and "0 < M"
  shows "(\<exists>rs. log_rel M (c_log f) hist rs) \<and> last_seq nodeID f = of_nat (length sent) \<and>
         length sent \<le> length hist \<and> sent = take (length sent) hist"
  using assms
proof (induction rule: rep_reach.induct)
  case (rep_start f)
  then show ?case by auto
next
  case (rep_append f hist sent e f')
  then obtain rs where rel: "log_rel M (c_log f) hist rs" by blast
  from msgp_lib.Append_rel [OF assms(2) rel rep_append.hyps(2,3) refl] obtain l' rs' where
    l': "Append L e (c_log f) = Inr (l', of_nat (Suc (length hist)))"
    "log_rel M l' (hist @ [LogEntry_MarshalMsg L (e\<lparr>e_Seq := of_nat (Suc (length hist))\<rparr>) []]) rs'" by blast
  have "c_log f' = l'" "last_seq nodeID f' = last_seq nodeID f"
    using rep_append.hyps(4) l'(1) by (auto simp: log_Append_def last_seq_def split: option.split)
  with l'(2) rep_append show ?case by auto
next
  case (rep_round f hist sent d w f')
  then obtain rs where rel: "log_rel M (c_log f) hist rs" and q: "last_seq nodeID f = of_nat (length sent)"
    "length sent \<le> length hist" "sent = take (length sent) hist" by blast
  have "length hist - unat (l_capacity (c_log f)) \<le> length sent"
    using retained_iff [OF rel q(2) assms(3)] rep_round.hyps(2) q(1) by (simp add: add.commute)
  from replicateToPeer_round [OF rel q(1,2) this, of d w] obtain n where
    n: "c_log f' = c_log f" "c_peerSeqs f' nodeID = Some (of_nat (length sent + n))"
    "delivered f w f' = take n (drop (length sent) hist)" "length sent + n \<le> length hist"
    using rep_round.hyps(3) by auto
  then have "length (delivered f w f') = n" by simp
  with n(2) have "last_seq nodeID f' = of_nat (length (sent @ delivered f w f'))" by (simp add: last_seq_def)
  moreover have pre: "sent @ delivered f w f' = take (length sent + n) hist" using q(3) n(3) by (metis take_add)
  ultimately show ?case using n rel by (metis length_take min.absorb2)
next
  case (rep_other f hist sent f')
  then show ?case by auto
qed

lemma head_last_seq:
  assumes rel: "log_rel M l hist rs" and q: "q \<le> length hist"
  shows "l_head l > of_nat q + 1 \<longleftrightarrow> q < length hist"
proof -
  have h: "unat (l_head l) = Suc (length hist)" "length hist < 2 ^ 62" using rel unfolding log_rel_def by blast+
  have "of_nat q + 1 = (of_nat (Suc q) :: uint64)" by simp
  moreover have "unat (of_nat (Suc q) :: uint64) = Suc q" using q h(2) by (simp only: unat_of_nat) simp
  ultimately have "unat (of_nat q + 1 :: uint64) = Suc q" by (simp only:)
  then show ?thesis unfolding word_less_nat_alt h(1) by simp
qed

lemma Append_capacity: "Append L e l = Inr (l', q) \<Longrightarrow> l_capacity l' = l_capacity l"
  by (auto simp: Append_def Let_def split: if_splits)

text \<open>A node with one entry logged and nothing sent.\<close>

lemma demo_rep:
  "\<exists>f :: nat Capacitor. rep_reach wire 180 ''n2'' f [LogEntry_MarshalMsg wire (demo_entry\<lparr>e_Seq := 1\<rparr>) []] [] \<and>
     c_stopsClosed f = {} \<and> \<not> c_ctxDone f \<and> l_capacity (c_log f) = 4"
proof -
  have new: "l_bufCap (NewDeltaLog 4) = 1024" "l_capacity (NewDeltaLog 4) = 4" by (simp_all add: NewDeltaLog_def Let_def)
  have "log_rel 180 (c_log demo_node) [] []"
    using NewDeltaLog_rel [of 4 180] new(1) by (simp add: demo_node_simps)
  then have start: "rep_reach wire 180 ''n2'' demo_node [] []"
    by (rule rep_start) (simp add: last_seq_def demo_node_simps store_getPeerSeq_def getShard_def emptyStore_def newStoreShard_def)
  obtain f where f: "log_Append wire demo_entry demo_node = Inr f"
    using log_Append_accepts [of demo_node wire demo_entry] by (auto simp: demo_node_simps demo_log)
  have sz: "LogEntry_Msgsize wire demo_entry \<le> 180"
    by (simp add: LogEntry_Msgsize_def Timestamp_Msgsize_def MsgType_Msgsize_def wire_def demo_entry_def)
  obtain l q where l: "Append wire demo_entry (c_log demo_node) = Inr (l, q)" "f = demo_node\<lparr>c_log := l\<rparr>"
    using f by (auto simp: log_Append_def split: sum.splits)
  have "l_capacity l = 4" using Append_capacity [OF l(1)] new(2) by (simp add: demo_node_simps)
  then have "c_stopsClosed f = {}" "\<not> c_ctxDone f" "l_capacity (c_log f) = 4"
    using l(2) by (simp_all add: demo_node_def New_node_def)
  moreover have "rep_reach wire 180 ''n2'' f [LogEntry_MarshalMsg wire (demo_entry\<lparr>e_Seq := 1\<rparr>) []] []"
    using rep_append [OF start sz _ f] by simp
  ultimately show ?thesis by (intro exI conjI)
qed



text \<open>Successful rounds one after the other.\<close>

fun rep_rounds :: "string \<Rightarrow> nat \<Rightarrow> 'o Capacitor \<Rightarrow> gopanic + 'o Capacitor" where
  "rep_rounds nodeID 0 f = Inr f"
| "rep_rounds nodeID (Suc n) f =
     (case replicateToPeer nodeID None None f of Inl p \<Rightarrow> Inl p | Inr f' \<Rightarrow> rep_rounds nodeID n f')"

lemma rep_catch_up:
  assumes "rep_reach L M nodeID f hist sent" and "msgp_lib L" and "0 < M"
    and "length hist \<le> length sent + unat (l_capacity (c_log f))"
  shows "\<exists>f'. rep_rounds nodeID (length hist - length sent) f = Inr f' \<and> rep_reach L M nodeID f' hist hist"
proof -
  have "\<exists>f'. rep_rounds nodeID n f = Inr f' \<and> rep_reach L M nodeID f' hist hist"
    if "rep_reach L M nodeID f hist sent" and "length hist \<le> length sent + unat (l_capacity (c_log f))"
      and "length hist - length sent \<le> n" for n f sent
    using that
  proof (induction n arbitrary: f sent)
    case 0
    then have "sent = hist" using rep_reach_inv [OF 0(1) assms(2,3)] by (metis diff_is_0_eq le_zero_eq take_all)
    with 0 show ?case by simp
  next
    case (Suc n)
    obtain rs where inv: "log_rel M (c_log f) hist rs" "last_seq nodeID f = of_nat (length sent)"
      "length sent \<le> length hist" "sent = take (length sent) hist"
      using rep_reach_inv [OF Suc.prems(1) assms(2,3)] by blast
    have ret: "length hist - unat (l_capacity (c_log f)) \<le> length sent" using Suc.prems(2) by simp
    from replicateToPeer_round [OF inv(1-3) this, of None None] obtain f' k where
      f': "replicateToPeer nodeID None None f = Inr f'" "c_log f' = c_log f" "delivered f None f' = take k (drop (length sent) hist)"
      "length sent + k \<le> length hist" "length sent < length hist \<longrightarrow> k > 0" by blast
    have "l_head (c_log f) \<le> last_seq nodeID f + 1 + l_capacity (c_log f)"
      using retained_iff [OF inv(1,3) assms(3)] Suc.prems(2) inv(2) by simp
    from rep_round [OF Suc.prems(1) this f'(1)] have "rep_reach L M nodeID f' hist (sent @ delivered f None f')" .
    moreover have "length (delivered f None f') = k" using f'(3,4) by simp
    moreover have "length hist - (length sent + k) \<le> n" using Suc.prems(3) f'(5) by (cases "length sent < length hist") auto
    ultimately have "\<exists>f''. rep_rounds nodeID n f' = Inr f'' \<and> rep_reach L M nodeID f'' hist hist"
      using Suc.IH [of f' "sent @ delivered f None f'"] Suc.prems(2) f'(2) by simp
    with f'(1) show ?case by simp
  qed
  from this [OF assms(1,4)] show ?thesis by blast
qed



section \<open>From the log to the store of a peer\<close>

text \<open>An entry as it arrives: numbered, and with a delta that equals zero as plain zero.\<close>

definition wire_entry :: "nat \<Rightarrow> LogEntry \<Rightarrow> LogEntry" where
  "wire_entry q e = e\<lparr>e_Seq := of_nat (Suc q), e_Delta := if f_eq (e_Delta e) f_zero then f_zero else e_Delta e\<rparr>"

fun wire_entries :: "nat \<Rightarrow> LogEntry list \<Rightarrow> LogEntry list" where
  "wire_entries q [] = []"
| "wire_entries q (e # es) = wire_entry q e # wire_entries (Suc q) es"

context msgp_lib
begin

lemma apply_encodings:
  assumes "\<forall>e \<in> set es. entry_small e \<and> e_Value e \<noteq> Some []"
  shows "foldl (\<lambda>f raw. apply_raw L mp raw f) f (encodings L q es) = fold (applyRemoteEntry mp) (wire_entries q es) f"
  using assms
proof (induction es arbitrary: q f)
  case (Cons e es)
  have "entry_small (e\<lparr>e_Seq := of_nat (Suc q)\<rparr>)" "e_Value (e\<lparr>e_Seq := of_nat (Suc q)\<rparr>) \<noteq> Some []"
    using Cons.prems by (simp_all add: entry_small_def)
  from LogEntry_roundtrip [OF this, of "[]"] have
    "apply_raw L mp (LogEntry_MarshalMsg L (e\<lparr>e_Seq := of_nat (Suc q)\<rparr>) []) f = applyRemoteEntry mp (wire_entry q e) f"
    by (simp add: apply_raw_def wire_entry_def)
  with Cons show ?case by simp
qed simp

end

lemma applyRemoteEntry_peerSeqs: "applyRemoteEntry mp e (f\<lparr>c_peerSeqs := p\<rparr>) = (applyRemoteEntry mp e f)\<lparr>c_peerSeqs := p\<rparr>"
  by (auto simp: applyRemoteEntry_def tick_def Let_def split: prod.split sum.split)

lemma apply_raw_peerSeqs: "apply_raw L mp raw (f\<lparr>c_peerSeqs := p\<rparr>) = (apply_raw L mp raw f)\<lparr>c_peerSeqs := p\<rparr>"
  by (simp add: apply_raw_def applyRemoteEntry_peerSeqs split: sum.split)

lemma apply_raws_peerSeqs:
  "foldl (\<lambda>f raw. apply_raw L mp raw f) (f\<lparr>c_peerSeqs := p\<rparr>) raws = (foldl (\<lambda>f raw. apply_raw L mp raw f) f raws)\<lparr>c_peerSeqs := p\<rparr>"
  by (induction raws arbitrary: f) (simp_all add: apply_raw_peerSeqs)

text \<open>Up to the handshakes, a session is the entries of its batches in a row.\<close>

lemma accept_batches_entries:
  "\<exists>p. foldl (accept_batch L mp) f bs
     = (foldl (\<lambda>f raw. apply_raw L mp raw f) f (concat (map b_Entries bs)))\<lparr>c_peerSeqs := p\<rparr>"
proof (induction bs arbitrary: f)
  case Nil
  then show ?case by (intro exI [of _ "c_peerSeqs f"]) simp
next
  case (Cons b bs)
  obtain p where p: "accept_batch L mp f b = (foldl (\<lambda>f raw. apply_raw L mp raw f) f (b_Entries b))\<lparr>c_peerSeqs := p\<rparr>"
  proof (cases "b_Handshake b")
    case None
    then show ?thesis by (intro that [of "c_peerSeqs (foldl (\<lambda>f raw. apply_raw L mp raw f) f (b_Entries b))"]) (simp add: accept_batch_def)
  next
    case (Some h)
    then show ?thesis by (intro that) (simp add: accept_batch_def apply_raws_peerSeqs)
  qed
  have "foldl (\<lambda>f raw. apply_raw L mp raw f) (accept_batch L mp f b) (concat (map b_Entries bs)) =
      (foldl (\<lambda>f raw. apply_raw L mp raw f) (foldl (\<lambda>f raw. apply_raw L mp raw f) f (b_Entries b)) (concat (map b_Entries bs)))
        \<lparr>c_peerSeqs := p\<rparr>"
    unfolding p by (rule apply_raws_peerSeqs)
  with Cons.IH [of "accept_batch L mp f b"] show ?case by auto
qed

lemma take_encodings: "take n (encodings L q es) = encodings L q (take n es)"
  by (induction es arbitrary: n q) (simp_all add: take_Cons split: nat.split)



section \<open>Membership\<close>

text \<open>The node's view of its peers changes when a member joins or leaves.\<close>

datatype member_event = MJoin string bytes | MLeave string

fun member_step :: "member_event \<Rightarrow> 'o Capacitor \<Rightarrow> 'o Capacitor" where
  "member_step (MJoin name meta) f = NotifyJoin name meta f"
| "member_step (MLeave name) f = NotifyLeave name f"

definition live :: "'o Capacitor \<Rightarrow> (nat \<times> string \<times> string) set" where
  "live f = {r \<in> set (c_running f). fst r \<notin> c_stopsClosed f}"

definition members_inv :: "'o Capacitor \<Rightarrow> bool" where
  "members_inv f \<longleftrightarrow>
     (\<forall>i < length (c_running f). fst (c_running f ! i) = i) \<and> (\<forall>i \<in> c_stopsClosed f. i < length (c_running f)) \<and>
     (\<forall>n i. c_peerStops f n = Some i \<longleftrightarrow> (\<exists>addr. (i, n, addr) \<in> live f))"

lemma running_nth: "members_inv f \<Longrightarrow> r \<in> set (c_running f) \<Longrightarrow> fst r < length (c_running f) \<and> c_running f ! fst r = r"
  by (metis in_set_conv_nth members_inv_def)

lemma live_start:
  assumes "members_inv f" and "addr \<noteq> []" and "c_peerStops f n = None"
  shows "live (startPeerReplicator n addr f) = insert (length (c_running f), n, addr) (live f)"
  using assms by (auto simp: live_def startPeerReplicator_def members_inv_def Let_def)

lemma live_stop: "live (stopPeerReplicator n f) = {r \<in> live f. c_peerStops f n \<noteq> Some (fst r)}"
  by (auto simp: live_def stopPeerReplicator_def Let_def split: option.splits)

lemma members_inv_start: "members_inv f \<Longrightarrow> members_inv (startPeerReplicator n addr f)"
proof (cases "addr = [] \<or> c_peerStops f n \<noteq> None")
  case False
  assume inv: "members_inv f"
  have stops: "c_peerStops (startPeerReplicator n addr f) = (c_peerStops f)(n \<mapsto> length (c_running f))"
    using False by (simp add: startPeerReplicator_def Let_def)
  have old: "c_peerStops f m = Some i \<longleftrightarrow> (\<exists>a. (i, m, a) \<in> live f)" for m i using inv by (simp add: members_inv_def)
  have lt: "i < length (c_running f)" if "(i, m, a) \<in> live f" for i m a
    using that inv by (auto simp: live_def members_inv_def in_set_conv_nth)
  have new: "live (startPeerReplicator n addr f) = insert (length (c_running f), n, addr) (live f)"
    using live_start [OF inv] False by simp
  have none: "\<not> (\<exists>a. (i, n, a) \<in> live f)" for i using False old [of n i] by auto
  have "(c_peerStops (startPeerReplicator n addr f) m = Some i) \<longleftrightarrow> (\<exists>a. (i, m, a) \<in> live (startPeerReplicator n addr f))" for m i
    unfolding stops new using old [of m i] none lt by (cases "m = n") auto
  moreover have "(\<forall>i < length (c_running (startPeerReplicator n addr f)). fst (c_running (startPeerReplicator n addr f) ! i) = i) \<and>
      (\<forall>i \<in> c_stopsClosed (startPeerReplicator n addr f). i < length (c_running (startPeerReplicator n addr f)))"
    using False inv by (auto simp: startPeerReplicator_def members_inv_def Let_def nth_append less_Suc_eq)
  ultimately show ?thesis unfolding members_inv_def by blast
qed (auto simp: startPeerReplicator_def)

lemma members_inv_stop: "members_inv f \<Longrightarrow> members_inv (stopPeerReplicator n f)"
proof -
  assume inv: "members_inv f"
  have old: "c_peerStops f m = Some i \<longleftrightarrow> (\<exists>a. (i, m, a) \<in> live f)" for m i using inv by (simp add: members_inv_def)
  have uniq: "m = m'" if "(i, m, a) \<in> live f" "(i, m', a') \<in> live f" for i m m' a a'
    using that running_nth [OF inv, of "(i, m, a)"] running_nth [OF inv, of "(i, m', a')"] by (simp add: live_def)
  have "c_peerStops (stopPeerReplicator n f) = (c_peerStops f)(n := None)"
    by (auto simp: stopPeerReplicator_def Let_def split: option.split)
  then have "(c_peerStops (stopPeerReplicator n f) m = Some i) \<longleftrightarrow> (\<exists>a. (i, m, a) \<in> live (stopPeerReplicator n f))" for m i
    unfolding live_stop using old uniq by auto
  moreover have "c_running (stopPeerReplicator n f) = c_running f" "\<forall>i \<in> c_stopsClosed (stopPeerReplicator n f). i < length (c_running f)"
    using inv old by (auto simp: stopPeerReplicator_def Let_def members_inv_def live_def in_set_conv_nth split: option.splits)
  ultimately show ?thesis using inv unfolding members_inv_def by simp
qed

text \<open>The peers that have joined with an address and have not left.\<close>

fun joined :: "string \<Rightarrow> member_event \<Rightarrow> string set \<Rightarrow> string set" where
  "joined self (MJoin name meta) J = (if name = self \<or> meta = [] then J else insert name J)"
| "joined self (MLeave name) J = J - {name}"

definition served :: "'o Capacitor \<Rightarrow> string set" where
  "served f = {n. \<exists>i addr. (i, n, addr) \<in> live f}"

lemma served_stops: "members_inv f \<Longrightarrow> served f = dom (c_peerStops f)"
  by (auto simp: served_def members_inv_def dom_def)

lemma member_step_inv:
  assumes "members_inv f"
  shows "members_inv (member_step x f) \<and> c_nodeID (member_step x f) = c_nodeID f \<and>
         served (member_step x f) = joined (c_nodeID f) x (served f)"
proof (cases x)
  case (MJoin name meta)
  have "members_inv (member_step x f)" using MJoin assms by (simp add: NotifyJoin_def members_inv_start)
  moreover have "dom (c_peerStops (member_step x f)) = joined (c_nodeID f) x (dom (c_peerStops f))"
    using MJoin by (auto simp: NotifyJoin_def startPeerReplicator_def Let_def string_of_bytes_def)
  moreover have "c_nodeID (member_step x f) = c_nodeID f"
    using MJoin by (simp add: NotifyJoin_def startPeerReplicator_def Let_def)
  ultimately show ?thesis using assms by (simp add: served_stops)
next
  case (MLeave name)
  let ?g = "f\<lparr>c_client := CloseConn name (c_client f)\<rparr>"
  have "members_inv ?g" using assms by (simp add: members_inv_def live_def)
  then have "members_inv (member_step x f)" using MLeave by (simp add: NotifyLeave_def members_inv_stop)
  moreover have "dom (c_peerStops (member_step x f)) = joined (c_nodeID f) x (dom (c_peerStops f))"
    using MLeave by (auto simp: NotifyLeave_def stopPeerReplicator_def Let_def split: option.splits if_splits)
  moreover have "c_nodeID (member_step x f) = c_nodeID f"
    using MLeave by (simp add: NotifyLeave_def stopPeerReplicator_def Let_def split: option.split)
  ultimately show ?thesis using assms by (simp add: served_stops)
qed

text \<open>C18: One replicator per peer: after any sequence of joins and departures, the peers served by a running replicator that has not been stopped are
  exactly those that have joined with an address and not left since, never the node itself, and no peer is served by two.\<close>

theorem one_replicator_per_peer:
  assumes "c_running f = []" and "c_stopsClosed f = {}" and "c_peerStops f = Map.empty"
  shows "served (fold member_step xs f) = fold (joined (c_nodeID f)) xs {} \<and>
    (\<forall>i j n a b. (i, n, a) \<in> live (fold member_step xs f) \<and> (j, n, b) \<in> live (fold member_step xs f) \<longrightarrow> i = j \<and> a = b)"
proof -
  have inv0: "members_inv f" "served f = {}" using assms by (simp_all add: members_inv_def live_def served_def)
  have "members_inv (fold member_step xs f) \<and> served (fold member_step xs f) = fold (joined (c_nodeID f)) xs (served f)"
    if "members_inv f" for f :: "'a Capacitor"
    using that
  proof (induction xs arbitrary: f)
    case (Cons x xs)
    from member_step_inv [OF Cons.prems, of x] Cons.IH [of "member_step x f"] show ?case by simp
  qed simp
  from this [OF inv0(1)] inv0(2) have inv: "members_inv (fold member_step xs f)"
    and srv: "served (fold member_step xs f) = fold (joined (c_nodeID f)) xs {}" by simp_all
  moreover have "i = j \<and> a = b" if "(i, n, a) \<in> live (fold member_step xs f)" "(j, n, b) \<in> live (fold member_step xs f)" for i j n a b
  proof -
    have "c_peerStops (fold member_step xs f) n = Some i" "c_peerStops (fold member_step xs f) n = Some j"
      using inv that unfolding members_inv_def by blast+
    then have "i = j" by simp
    moreover have "c_running (fold member_step xs f) ! i = (i, n, a)" "c_running (fold member_step xs f) ! j = (j, n, b)"
      using that running_nth [OF inv, of "(i, n, a)"] running_nth [OF inv, of "(j, n, b)"] by (simp_all add: live_def)
    ultimately show ?thesis by simp
  qed
  ultimately show ?thesis by blast
qed

theorem one_replicator_per_peer_witness:
  "served (fold member_step [MJoin ''n2'' [1], MJoin ''n2'' [2], MJoin ''n3'' [3], MLeave ''n3'', MJoin ''n1'' [4]] demo_node) = {''n2''}"
  using one_replicator_per_peer [of demo_node "[MJoin ''n2'' [1], MJoin ''n2'' [2], MJoin ''n3'' [3], MLeave ''n3'', MJoin ''n1'' [4]]"]
  by (simp add: demo_node_def New_node_def)

end
