(* ===== verification/Wakeup.thy ===== *)
theory Wakeup
  imports Replication
begin

text \<open>
  The loop of \<^verbatim>\<open>peerReplicatorLoop\<close> in \<^verbatim>\<open>src/capacitor.go\<close> as a thread that runs interleaved with the rest of the node. It decides under the
  mutex of the log and waits on the log's condition variable. \<^verbatim>\<open>Append\<close> changes the log and broadcasts while it holds the mutex;
  \<^verbatim>\<open>stopPeerReplicator\<close>, \<^verbatim>\<open>Close\<close> and the handler of handshakes change what the loop looks at without the mutex, and the first two
  broadcast afterwards. A step of the relation is one access to shared state; each is labelled with the party that makes it.
\<close>

section \<open>Threads\<close>

text \<open>Where the replicator is: before \<^verbatim>\<open>mu.Lock\<close>, at the \<^verbatim>\<open>select\<close>, at the comparison with the head, about to call \<^verbatim>\<open>Wait\<close> (these three hold
  the mutex), in the wait queue, taken out of it by a broadcast, sending, and returned.\<close>

datatype rep_pc = PLock | PSelect | PTest | PWait | PQueued | PNotified | PSend | PReturned

definition holds_lock :: "rep_pc \<Rightarrow> bool" where
  "holds_lock pc \<longleftrightarrow> pc = PSelect \<or> pc = PTest \<or> pc = PWait"

definition broadcast :: "rep_pc \<Rightarrow> rep_pc" where
  "broadcast pc = (if pc = PQueued then PNotified else pc)"

text \<open>The node, the replicator, and how far \<^verbatim>\<open>stopPeerReplicator\<close> and \<^verbatim>\<open>Close\<close> have got.\<close>

record 'o threads =
  th_node :: "'o Capacitor"
  th_rep :: rep_pc
  th_stop :: nat
  th_close :: nat

datatype party = Replicator | Appender | Stopper | Closer | Handshaker

inductive th_step :: "msgp \<Rightarrow> string \<Rightarrow> nat \<Rightarrow> party \<Rightarrow> 'o threads \<Rightarrow> 'o threads \<Rightarrow> bool" for L nodeID stop where
  th_lock: "th_rep w = PLock \<Longrightarrow> th_step L nodeID stop Replicator w (w\<lparr>th_rep := PSelect\<rparr>)"
| th_relock: "th_rep w = PNotified \<Longrightarrow> th_step L nodeID stop Replicator w (w\<lparr>th_rep := PSelect\<rparr>)"
| th_return: "th_rep w = PSelect \<Longrightarrow> stop \<in> c_stopsClosed (th_node w) \<or> c_ctxDone (th_node w) \<Longrightarrow>
    th_step L nodeID stop Replicator w (w\<lparr>th_rep := PReturned\<rparr>)"
| th_pass: "th_rep w = PSelect \<Longrightarrow> stop \<notin> c_stopsClosed (th_node w) \<Longrightarrow> \<not> c_ctxDone (th_node w) \<Longrightarrow>
    th_step L nodeID stop Replicator w (w\<lparr>th_rep := PTest\<rparr>)"
| th_work: "th_rep w = PTest \<Longrightarrow> l_head (c_log (th_node w)) > last_seq nodeID (th_node w) + 1 \<Longrightarrow>
    th_step L nodeID stop Replicator w (w\<lparr>th_rep := PSend\<rparr>)"
| th_idle: "th_rep w = PTest \<Longrightarrow> \<not> l_head (c_log (th_node w)) > last_seq nodeID (th_node w) + 1 \<Longrightarrow>
    th_step L nodeID stop Replicator w (w\<lparr>th_rep := PWait\<rparr>)"
| th_wait: "th_rep w = PWait \<Longrightarrow> th_step L nodeID stop Replicator w (w\<lparr>th_rep := PQueued\<rparr>)"
| th_send: "th_rep w = PSend \<Longrightarrow> replicateToPeer nodeID dialled wrote (th_node w) = Inr f \<Longrightarrow>
    th_step L nodeID stop Replicator w (w\<lparr>th_node := f, th_rep := PLock\<rparr>)"
| th_append: "\<not> holds_lock (th_rep w) \<Longrightarrow> log_Append L e (th_node w) = Inr f \<Longrightarrow>
    th_step L nodeID stop Appender w (w\<lparr>th_node := f, th_rep := broadcast (th_rep w)\<rparr>)"
| th_stop0: "th_stop w = 0 \<Longrightarrow>
    th_step L nodeID stop Stopper w (w\<lparr>th_node := (th_node w)\<lparr>c_stopsClosed := insert stop (c_stopsClosed (th_node w))\<rparr>, th_stop := 1\<rparr>)"
| th_stop1: "th_stop w = 1 \<Longrightarrow> th_step L nodeID stop Stopper w (w\<lparr>th_rep := broadcast (th_rep w), th_stop := 2\<rparr>)"
| th_stop2: "th_stop w = 2 \<Longrightarrow>
    th_step L nodeID stop Stopper w (w\<lparr>th_node := (th_node w)\<lparr>c_peerSeqs := (c_peerSeqs (th_node w))(nodeID := None)\<rparr>, th_stop := 3\<rparr>)"
| th_close0: "th_close w = 0 \<Longrightarrow> th_step L nodeID stop Closer w (w\<lparr>th_node := (th_node w)\<lparr>c_ctxDone := True\<rparr>, th_close := 1\<rparr>)"
| th_close1: "th_close w = 1 \<Longrightarrow> th_step L nodeID stop Closer w (w\<lparr>th_rep := broadcast (th_rep w), th_close := 2\<rparr>)"
| th_handshake: "th_step L nodeID stop Handshaker w (w\<lparr>th_node := (th_node w)\<lparr>c_peerSeqs := (c_peerSeqs (th_node w))(nodeID \<mapsto> q)\<rparr>\<rparr>)"

inductive_cases th_appendE: "th_step L nodeID stop Appender w w'"

inductive th_run :: "msgp \<Rightarrow> string \<Rightarrow> nat \<Rightarrow> party list \<Rightarrow> 'o threads \<Rightarrow> 'o threads \<Rightarrow> bool" for L nodeID stop where
  th_nil: "th_run L nodeID stop [] w w"
| th_snoc: "th_run L nodeID stop ps w w1 \<Longrightarrow> th_step L nodeID stop p w1 w2 \<Longrightarrow> th_run L nodeID stop (ps @ [p]) w w2"

text \<open>A replicator that has just been started.\<close>

definition th_start :: "'o Capacitor \<Rightarrow> 'o threads" where
  "th_start f = \<lparr>th_node = f, th_rep = PLock, th_stop = 0, th_close = 0\<rparr>"

section \<open>Appends are not missed\<close>

definition work :: "string \<Rightarrow> 'o Capacitor \<Rightarrow> bool" where
  "work nodeID f \<longleftrightarrow> l_head (c_log f) > last_seq nodeID f + 1"

lemma log_Append_stops: "log_Append L e f = Inr f' \<Longrightarrow> c_stopsClosed f' = c_stopsClosed f"
  by (auto simp: log_Append_def split: sum.splits)

lemma replicateToPeer_stops: "replicateToPeer nodeID d wr f = Inr f' \<Longrightarrow> c_stopsClosed f' = c_stopsClosed f"
  by (auto simp: replicateToPeer_def Let_def tick_def split: sum.splits prod.splits option.splits if_splits)

lemma last_seq_ctxDone [simp]: "last_seq nodeID (f\<lparr>c_ctxDone := b\<rparr>) = last_seq nodeID f"
  by (simp add: last_seq_def split: option.split)

definition th_inv :: "string \<Rightarrow> nat \<Rightarrow> 'o threads \<Rightarrow> bool" where
  "th_inv nodeID stop w \<longleftrightarrow> (th_stop w > 0 \<longrightarrow> stop \<in> c_stopsClosed (th_node w)) \<and>
     (stop \<notin> c_stopsClosed (th_node w) \<and> (th_rep w = PWait \<or> th_rep w = PQueued) \<longrightarrow> \<not> work nodeID (th_node w))"

lemma th_inv_step:
  assumes "th_inv nodeID stop w" and "th_step L nodeID stop p w w'" and "p \<noteq> Handshaker"
  shows "th_inv nodeID stop w'"
  using assms(2,1,3)
proof cases
  case (th_send dialled wrote f)
  then show ?thesis using assms(1) replicateToPeer_stops [OF th_send(4)] by (simp add: th_inv_def)
next
  case (th_append e f)
  then show ?thesis using assms(1) log_Append_stops [OF th_append(4)] by (auto simp: th_inv_def broadcast_def holds_lock_def)
qed (auto simp: th_inv_def work_def broadcast_def)

lemma th_inv_run:
  assumes "th_run L nodeID stop ps w w'" and "th_inv nodeID stop w" and "Handshaker \<notin> set ps"
  shows "th_inv nodeID stop w'"
  using assms by induction (auto intro: th_inv_step)

text \<open>A replicator taken out of the queue reaches the decision in three steps of its own.\<close>

lemma notified_decides:
  assumes "th_rep w = PNotified" and "stop \<notin> c_stopsClosed (th_node w)" and "\<not> c_ctxDone (th_node w)" and "work nodeID (th_node w)"
  shows "th_run L nodeID stop [Replicator, Replicator, Replicator] w (w\<lparr>th_rep := PSend\<rparr>)"
proof -
  have "th_run L nodeID stop ([] @ [Replicator]) w (w\<lparr>th_rep := PSelect\<rparr>)" by (rule th_snoc [OF th_nil th_relock]) (rule assms(1))
  from th_snoc [OF this th_pass] have "th_run L nodeID stop (([] @ [Replicator]) @ [Replicator]) w (w\<lparr>th_rep := PTest\<rparr>)"
    using assms(2,3) by simp
  from th_snoc [OF this th_work] show ?thesis using assms(4) by (simp add: work_def)
qed

text \<open>A replicator with nothing to send gets to the point before it waits, and into the queue.\<close>

lemma runs_to_wait:
  assumes "peerReplicatorLoop_poll nodeID stop f = RWait"
  shows "th_run L nodeID stop [Replicator, Replicator, Replicator] (th_start f) ((th_start f)\<lparr>th_rep := PWait\<rparr>)"
proof -
  let ?w = "th_start f"
  have f: "stop \<notin> c_stopsClosed f" "\<not> c_ctxDone f" "\<not> l_head (c_log f) > last_seq nodeID f + 1"
    using assms by (auto simp: peerReplicatorLoop_poll_def split: if_splits)
  have "th_run L nodeID stop ([] @ [Replicator]) ?w (?w\<lparr>th_rep := PSelect\<rparr>)" by (rule th_snoc [OF th_nil th_lock]) (simp add: th_start_def)
  from th_snoc [OF this th_pass] have "th_run L nodeID stop [Replicator, Replicator] ?w (?w\<lparr>th_rep := PTest\<rparr>)"
    using f(1,2) by (simp add: th_start_def)
  from th_snoc [OF this th_idle] show ?thesis using f(3) by (simp add: th_start_def)
qed

lemma runs_to_queue:
  assumes "peerReplicatorLoop_poll nodeID stop f = RWait"
  shows "th_run L nodeID stop [Replicator, Replicator, Replicator, Replicator] (th_start f) ((th_start f)\<lparr>th_rep := PQueued\<rparr>)"
  using th_snoc [OF runs_to_wait [OF assms] th_wait] by simp

text \<open>A replicator in the queue stays there unless somebody broadcasts.\<close>

lemma queued_stays:
  assumes "th_run L nodeID stop qs w w'" and "th_rep w = PQueued" and "th_close w = 2 \<or> Closer \<notin> set qs"
    and "Appender \<notin> set qs" and "Stopper \<notin> set qs"
  shows "th_rep w' = PQueued \<and> (th_close w = 2 \<longrightarrow> th_close w' = 2)"
  using assms
proof induction
  case (th_snoc ps w w1 p w2)
  then have "th_rep w1 = PQueued" "th_close w = 2 \<longrightarrow> th_close w1 = 2" "p \<noteq> Appender" "p \<noteq> Stopper" "th_close w = 2 \<or> p \<noteq> Closer" by auto
  with th_snoc.hyps(2) show ?case by cases auto
qed simp

section \<open>Properties\<close>



text \<open>C34: A handshake does not wake the replicator: when a peer announces, by a handshake, that it has seen less of the log than was sent
  to it, the replicator has something to send and yet stays in the wait queue until there is an append, the peer leaves or the node
  shuts down.\<close>

theorem handshake_missed:
  assumes "peerReplicatorLoop_poll nodeID stop f = RWait" and "l_head (c_log f) > q + 1"
  shows "\<exists>ps w. th_run L nodeID stop ps (th_start f) w \<and> last_seq nodeID (th_node w) = q \<and>
    peerReplicatorLoop_poll nodeID stop (th_node w) = RReplicate \<and>
    (\<forall>qs w'. th_run L nodeID stop qs w w' \<and> set qs \<subseteq> {Replicator, Handshaker} \<longrightarrow> th_rep w' = PQueued)"
proof -
  let ?w = "th_start f" and ?g = "f\<lparr>c_peerSeqs := (c_peerSeqs f)(nodeID \<mapsto> q)\<rparr>"
  have f: "stop \<notin> c_stopsClosed f" "\<not> c_ctxDone f" using assms(1) by (auto simp: peerReplicatorLoop_poll_def split: if_splits)
  from th_snoc [OF runs_to_queue [OF assms(1)] th_handshake]
  have "th_run L nodeID stop [Replicator, Replicator, Replicator, Replicator, Handshaker] ?w (?w\<lparr>th_rep := PQueued, th_node := ?g\<rparr>)"
    (is "th_run _ _ _ _ _ ?w'") by (simp add: th_start_def)
  moreover have "th_rep w' = PQueued" if "th_run L nodeID stop qs ?w' w'" "set qs \<subseteq> {Replicator, Handshaker}" for qs w'
    using queued_stays [OF that(1)] that(2) by auto
  moreover have "last_seq nodeID ?g = q" by (simp add: last_seq_def)
  moreover have "peerReplicatorLoop_poll nodeID stop ?g = RReplicate"
    using f assms(2) by (simp add: peerReplicatorLoop_poll_def last_seq_def)
  ultimately show ?thesis by (intro exI conjI) auto
qed

section \<open>Witnesses\<close>

lemma demo_idle: "peerReplicatorLoop_poll ''n2'' 0 demo_node = RWait"
  by (simp add: peerReplicatorLoop_poll_def demo_node_def New_node_def last_seq_def store_getPeerSeq_def NewDeltaLog_def Let_def
      emptyStore_def newStoreShard_def getShard_def sget_def)



theorem handshake_missed_witness:
  "\<exists>ps w. \<exists>f :: nat Capacitor. th_run wire ''n2'' 0 ps (th_start f) w \<and> peerReplicatorLoop_poll ''n2'' 0 (th_node w) = RReplicate \<and> th_rep w = PQueued"
proof -
  obtain g :: "nat Capacitor" where g: "rep_reach wire 180 ''n2'' g [LogEntry_MarshalMsg wire (demo_entry\<lparr>e_Seq := 1\<rparr>) []] []"
    "c_stopsClosed g = {}" "\<not> c_ctxDone g" using demo_rep by blast
  obtain rs where "log_rel 180 (c_log g) [LogEntry_MarshalMsg wire (demo_entry\<lparr>e_Seq := 1\<rparr>) []] rs"
    using rep_reach_inv [OF g(1) wire.msgp_lib_axioms] by auto
  then have "unat (l_head (c_log g)) = 2" by (simp add: log_rel_def)
  then have head: "l_head (c_log g) = 2" by (metis of_nat_numeral of_nat_unat ucast_id)
  let ?f = "g\<lparr>c_peerSeqs := [''n2'' \<mapsto> 1]\<rparr>"
  have "peerReplicatorLoop_poll ''n2'' 0 ?f = RWait" using g(2,3) head by (simp add: peerReplicatorLoop_poll_def last_seq_def)
  moreover have "l_head (c_log ?f) > 0 + 1" using head by simp
  ultimately show ?thesis using handshake_missed [of "''n2''" 0 ?f 0 wire] th_nil by fastforce
qed

end
