(* ===== verification/Persist.thy ===== *)
theory Persist
  imports Node_Laws Counters "HOL-Library.AList"
begin

text \<open>
  Persistence of \<^verbatim>\<open>src/store.go\<close>: \<^verbatim>\<open>load\<close>, \<^verbatim>\<open>flush\<close>, \<^verbatim>\<open>newStore\<close> and \<^verbatim>\<open>close\<close>. The database BadgerDB and the encoder of stored
  values are not part of the repository. The encoder is a record of functions; a flush yields the list of writes it puts into a
  write batch, and a load takes the items an iterator yields. What the store relies on of the database is the locale \<open>kv_db\<close>:
  a write batch replaces, adds and deletes keys, an entry with a time to live may be gone, and an iterator yields every key once. Go's order
  of iteration over a map is a parameter, and so are the readings of the clock.
\<close>

section \<open>Definitions\<close>

record 'o vcodec =
  vMarshal :: "'o valWithTS \<Rightarrow> goerr + bytes"
  vUnmarshal :: "bytes \<Rightarrow> goerr + 'o valWithTS"

datatype db_write = DSet string bytes | DSetTTL string bytes int64 | DDelete string

text \<open>\<^verbatim>\<open>load\<close>: the body for one item, with the reading of the clock.\<close>

definition shard_load_count :: "string \<Rightarrow> string \<Rightarrow> float64 \<Rightarrow> 'o storeShard \<Rightarrow> 'o storeShard" where
  "shard_load_count aggPrefix key v sh =
     (let sh = sh\<lparr>counts := (counts sh)(key \<mapsto> v)\<rparr>;
          parts = Split_colon key
      in if length parts \<ge> 3 then sh\<lparr>aggregateCounts := fbump (aggPrefix @ parts ! 1) v (aggregateCounts sh)\<rparr> else sh)"

definition shard_load_window :: "string \<Rightarrow> 'o storeShard \<Rightarrow> 'o storeShard" where
  "shard_load_window key sh =
     (let parts = Split_colon key
      in if length parts \<ge> 3
         then sh\<lparr>windows := (windows sh)(parts ! 1 \<mapsto> wget (windows sh) (parts ! 1) @ [ParseInt (parts ! 2)])\<rparr>
         else sh)"

definition shard_load_value :: "'o vcodec \<Rightarrow> int64 \<Rightarrow> string \<Rightarrow> bytes \<Rightarrow> 'o storeShard \<Rightarrow> 'o storeShard" where
  "shard_load_value vc now key val sh =
     (case vUnmarshal vc val of
        Inr vTS \<Rightarrow> if expired now vTS then sh else sh\<lparr>cache := (cache sh)(key \<mapsto> vTS)\<rparr>
      | Inl e \<Rightarrow> sh)"

definition load_item :: "'o vcodec \<Rightarrow> int64 \<Rightarrow> string \<times> bytes \<Rightarrow> 'o store \<Rightarrow> gopanic + 'o store" where
  "load_item vc now item s =
     (let key = fst item; val = snd item
      in if HasPrefix key ''meta:seq:'' then
           (case Uint64 val of
              Inl p \<Rightarrow> Inl p
            | Inr seq \<Rightarrow> Inr (at_shard key (\<lambda>sh. sh\<lparr>peerSeqs := (peerSeqs sh)(drop 9 key \<mapsto> seq)\<rparr>) s))
         else if HasPrefix key ''c:'' then Inr (at_shard key (shard_load_count [] key (float64FromBytes val)) s)
         else if HasPrefix key ''mc:'' then Inr (at_shard key (shard_load_count ''m:c:'' key (float64FromBytes val)) s)
         else if HasPrefix key ''ms:'' then Inr (at_shard key (shard_load_count ''m:s:'' key (float64FromBytes val)) s)
         else if HasPrefix key ''sw:'' then Inr (at_shard key (shard_load_window key) s)
         else Inr (at_shard key (shard_load_value vc now key val) s))"

fun load :: "'o vcodec \<Rightarrow> (string \<Rightarrow> int64) \<Rightarrow> (string \<times> bytes) list \<Rightarrow> 'o store \<Rightarrow> gopanic + 'o store" where
  "load vc now [] s = Inr s"
| "load vc now (item # items) s =
     (case load_item vc (now (fst item)) item s of Inl p \<Rightarrow> Inl p | Inr s \<Rightarrow> load vc now items s)"

text \<open>\<^verbatim>\<open>newStore\<close>, with the outcome of opening the database. The error of \<^verbatim>\<open>View\<close> can only be the callback's, which is nil.\<close>

definition newStore :: "'o vcodec \<Rightarrow> (string \<Rightarrow> int64) \<Rightarrow> goerr + (string \<times> bytes) list \<Rightarrow> gopanic + (goerr + 'o store)" where
  "newStore vc now opened =
     (case opened of
        Inl e \<Rightarrow> Inr (Inl e)
      | Inr items \<Rightarrow> (case load vc now items emptyStore of Inl p \<Rightarrow> Inl p | Inr s \<Rightarrow> Inr (Inr s)))"

text \<open>\<^verbatim>\<open>flush\<close>: what is remembered of a dirty key under the lock, and what is written for it afterwards. A copied empty window is nil and so
  falls through to the counter's branch.\<close>

datatype 'o snapshot = SVal "'o valWithTS" | SCount float64 | SWin "int64 list" | SDeleted

definition snapshotItem :: "'o storeShard \<Rightarrow> string \<Rightarrow> 'o snapshot" where
  "snapshotItem sh k =
     (case cache sh k of
        Some v \<Rightarrow> SVal v
      | None \<Rightarrow>
          (case counts sh k of
             Some c \<Rightarrow> SCount c
           | None \<Rightarrow>
               (case windows sh k of
                  Some w \<Rightarrow> SWin w
                | None \<Rightarrow>
                    (case peerSeqs sh k of
                       Some seq \<Rightarrow> SCount (f_of_int (int (unat seq)))
                     | None \<Rightarrow> SDeleted))))"

definition write_value :: "'o vcodec \<Rightarrow> int64 \<Rightarrow> string \<Rightarrow> 'o valWithTS \<Rightarrow> db_write" where
  "write_value vc now key vTS =
     (let data = (case vMarshal vc vTS of Inl e \<Rightarrow> [] | Inr b \<Rightarrow> b)
      in if sint (vExpiresAt vTS) > 0
         then (let remaining = vExpiresAt vTS - now
               in if sint remaining > 0 then DSetTTL key data remaining else DDelete key)
         else DSet key data)"

definition windowKey :: "string \<Rightarrow> int64 \<Rightarrow> string" where
  "windowKey key ts = ''sw:'' @ key @ '':'' @ fmt_int (sint ts)"

definition item_count :: "'o snapshot \<Rightarrow> float64" where
  "item_count item = (case item of SCount c \<Rightarrow> c | _ \<Rightarrow> f_zero)"

definition item_writes :: "'o vcodec \<Rightarrow> int64 \<Rightarrow> string \<Rightarrow> 'o snapshot \<Rightarrow> db_write list" where
  "item_writes vc now key item =
     (if item = SDeleted then [DDelete key]
      else if HasPrefix key ''meta:seq:'' then [DSet key (PutUint64 (f_to_uint64 (item_count item)))]
      else case item of
             SVal vTS \<Rightarrow> [write_value vc now key vTS]
           | SWin win \<Rightarrow>
               if win = [] then [DSet key (float64ToBytes f_zero)] else map (\<lambda>ts. DSet (windowKey key ts) []) win
           | _ \<Rightarrow> [DSet key (float64ToBytes (item_count item))])"

text \<open>The writes for one shard, for an order \<open>ks\<close> of its dirty keys, and for all of them.\<close>

definition shard_writes :: "'o vcodec \<Rightarrow> (string \<Rightarrow> int64) \<Rightarrow> string list \<Rightarrow> 'o storeShard \<Rightarrow> db_write list" where
  "shard_writes vc now ks sh = concat (map (\<lambda>k. item_writes vc (now k) k (snapshotItem sh k)) ks)"

definition flush :: "'o vcodec \<Rightarrow> (string \<Rightarrow> int64) \<Rightarrow> (nat \<Rightarrow> string list) \<Rightarrow> 'o store \<Rightarrow> 'o store \<times> db_write list" where
  "flush vc now order s =
     (s\<lparr>shards := (\<lambda>i. if i < numShards then (shards s i)\<lparr>dirty := {}\<rparr> else shards s i)\<rparr>,
      concat (map (\<lambda>i. shard_writes vc now (order i) (shards s i)) [0..<numShards]))"

text \<open>\<^verbatim>\<open>close\<close>, up to closing the database.\<close>

definition store_close ::
  "'o vcodec \<Rightarrow> (string \<Rightarrow> int64) \<Rightarrow> (nat \<Rightarrow> string list) \<Rightarrow> 'o store \<Rightarrow> gopanic + 'o store \<times> db_write list" where
  "store_close vc now order s =
     (if stopped s then Inl CloseOfClosedChannel else Inr (flush vc now order (s\<lparr>stopped := True\<rparr>)))"

definition Capacitor_Shutdown ::
  "'o vcodec \<Rightarrow> (string \<Rightarrow> int64) \<Rightarrow> (nat \<Rightarrow> string list) \<Rightarrow> 'o Capacitor \<Rightarrow> gopanic + 'o Capacitor \<times> db_write list" where
  "Capacitor_Shutdown vc now order f =
     (case Capacitor_Close f of
        Inl p \<Rightarrow> Inl p
      | Inr f \<Rightarrow>
          (case store_close vc now order (c_store f) of
             Inl p \<Rightarrow> Inl p
           | Inr (s, ws) \<Rightarrow> Inr (f\<lparr>c_store := s\<rparr>, ws)))"

section \<open>What the store relies on of the database\<close>

fun write_key :: "db_write \<Rightarrow> string" where
  "write_key (DSet k v) = k"
| "write_key (DSetTTL k v ttl) = k"
| "write_key (DDelete k) = k"

definition last_write :: "string \<Rightarrow> db_write list \<Rightarrow> db_write option" where
  "last_write k ws = find (\<lambda>w. write_key w = k) (rev ws)"

text \<open>\<open>db_apply now ws d\<close> commits a write batch at a time, \<open>db_items t d\<close> is what an iterator yields at a time, and \<open>valid\<close> says which keys
  the database accepts.\<close>

locale kv_db =
  fixes db_apply :: "int64 \<Rightarrow> db_write list \<Rightarrow> 'd \<Rightarrow> 'd"
    and db_items :: "int64 \<Rightarrow> 'd \<Rightarrow> (string \<times> bytes) list"
    and valid :: "string \<Rightarrow> bool"
  assumes distinct_items: "distinct (map fst (db_items t d))"
    and get_other: "last_write k ws = None \<Longrightarrow> map_of (db_items t (db_apply now ws d)) k = map_of (db_items t d) k"
    and get_set: "valid k \<Longrightarrow> last_write k ws = Some (DSet k v) \<Longrightarrow> map_of (db_items t (db_apply now ws d)) k = Some v"
    and get_ttl: "last_write k ws = Some (DSetTTL k v ttl) \<Longrightarrow> map_of (db_items t (db_apply now ws d)) k \<in> {None, Some v}"
    and get_delete: "last_write k ws = Some (DDelete k) \<Longrightarrow> map_of (db_items t (db_apply now ws d)) k = None"
    and get_invalid: "\<not> valid k \<Longrightarrow> map_of (db_items t d) k = None"

text \<open>An instance: an association list of values and expiry times that takes every key but the empty one.\<close>

type_synonym mem_db = "(string \<times> bytes \<times> int64 option) list"

definition mem_write :: "int64 \<Rightarrow> db_write \<Rightarrow> mem_db \<Rightarrow> mem_db" where
  "mem_write now w d =
     (if write_key w = [] then d
      else case w of
             DSet k v \<Rightarrow> AList.update k (v, None) d
           | DSetTTL k v ttl \<Rightarrow> AList.update k (v, Some (now + ttl)) d
           | DDelete k \<Rightarrow> AList.delete k d)"

definition mem_apply :: "int64 \<Rightarrow> db_write list \<Rightarrow> mem_db \<Rightarrow> mem_db" where
  "mem_apply now ws d = fold (mem_write now) ws d"

definition mem_alive :: "int64 \<Rightarrow> int64 option \<Rightarrow> bool" where
  "mem_alive t ex = (case ex of None \<Rightarrow> True | Some e \<Rightarrow> sint t < sint e)"

definition mem_items :: "int64 \<Rightarrow> mem_db \<Rightarrow> (string \<times> bytes) list" where
  "mem_items t d = map (\<lambda>(k, v, ex). (k, v)) (filter (\<lambda>(k, v, ex). k \<noteq> [] \<and> mem_alive t ex) (AList.clearjunk d))"

lemma mem_items_get:
  "map_of (mem_items t d) k =
     (case map_of d k of None \<Rightarrow> None | Some (v, ex) \<Rightarrow> if k \<noteq> [] \<and> mem_alive t ex then Some v else None)"
proof -
  have "map_of (map (\<lambda>(k, v, ex). (k, v)) (filter (\<lambda>(k, v, ex). k \<noteq> [] \<and> mem_alive t ex) xs)) k =
      (case map_of xs k of None \<Rightarrow> None | Some (v, ex) \<Rightarrow> if k \<noteq> [] \<and> mem_alive t ex then Some v else None)"
    if "distinct (map fst xs)" for xs :: mem_db
    using that
  proof (induction xs)
    case (Cons x xs)
    obtain k' v ex where x: "x = (k', v, ex)" by (cases x)
    have "map_of (map (\<lambda>(k, v, ex). (k, v)) (filter (\<lambda>(k, v, ex). k \<noteq> [] \<and> mem_alive t ex) xs)) k' = None"
      using Cons.prems x by (force simp: map_of_eq_None_iff)
    with Cons x show ?case by auto
  qed simp
  from this [OF distinct_clearjunk] show ?thesis by (simp add: mem_items_def map_of_clearjunk)
qed

lemma mem_write_get:
  "map_of (mem_write now w d) k =
     (if write_key w = k \<and> k \<noteq> [] then (case w of DSet _ v \<Rightarrow> Some (v, None) | DSetTTL _ v ttl \<Rightarrow> Some (v, Some (now + ttl)) | DDelete _ \<Rightarrow> None)
      else map_of d k)"
  by (cases w) (auto simp: mem_write_def update_conv' delete_conv')

lemma last_write_snoc: "last_write k (ws @ [w]) = (if write_key w = k then Some w else last_write k ws)"
  by (simp add: last_write_def)

lemma mem_apply_get:
  "map_of (mem_apply now ws d) k =
     (if k = [] then map_of d k
      else case last_write k ws of
             None \<Rightarrow> map_of d k
           | Some w \<Rightarrow> (case w of DSet _ v \<Rightarrow> Some (v, None) | DSetTTL _ v ttl \<Rightarrow> Some (v, Some (now + ttl)) | DDelete _ \<Rightarrow> None))"
proof (induction ws rule: rev_induct)
  case Nil
  then show ?case by (simp add: mem_apply_def last_write_def)
next
  case (snoc w ws)
  then show ?case by (auto simp: mem_apply_def mem_write_get last_write_snoc)
qed

interpretation mem: kv_db mem_apply mem_items "\<lambda>k. k \<noteq> []"
proof
  fix t d
  show "distinct (map fst (mem_items t d))"
  proof -
    have "distinct (map fst (filter P (AList.clearjunk d)))" for P
      using distinct_clearjunk [of d] by (simp add: distinct_map_filter)
    moreover have "map fst (map (\<lambda>(k, v, ex). (k, v)) xs) = map fst xs" for xs :: mem_db by (induction xs) auto
    ultimately show ?thesis by (simp only: mem_items_def)
  qed
qed (auto simp: mem_items_get mem_apply_get mem_alive_def split: option.split)

end
