(* ===== verification/Persist_Laws.thy ===== *)
theory Persist_Laws
  imports Persist
begin

text \<open>
  What a flush writes, what a load reads, and that the database follows the store: for a store and its database after any run, what is
  not dirty is in the database as the store holds it. From this follow what survives a restart and what does not.
\<close>

section \<open>Loading\<close>

text \<open>Keys without a reserved prefix; the items with other keys are read as counters, metrics, window events and sequence numbers.\<close>

definition plain_key :: "string \<Rightarrow> bool" where
  "plain_key k \<longleftrightarrow> \<not> HasPrefix k ''meta:seq:'' \<and> \<not> HasPrefix k ''c:'' \<and> \<not> HasPrefix k ''mc:'' \<and> \<not> HasPrefix k ''ms:'' \<and>
     \<not> HasPrefix k ''sw:''"

definition loaded :: "'o vcodec \<Rightarrow> int64 \<Rightarrow> bytes \<Rightarrow> 'o valWithTS option \<Rightarrow> 'o valWithTS option" where
  "loaded vc now val old = (case vUnmarshal vc val of Inl e \<Rightarrow> old | Inr v \<Rightarrow> if expired now v then old else Some v)"

lemma load_item_cache:
  assumes "load_item vc now (k0, val) s = Inr s'"
  shows "cache (getShard s' k) k = (if k = k0 \<and> plain_key k then loaded vc now val (cache (getShard s k) k) else cache (getShard s k) k)"
proof (cases "plain_key k0")
  case True
  then have "s' = at_shard k0 (shard_load_value vc now k0 val) s"
    using assms by (simp add: load_item_def plain_key_def Let_def)
  then show ?thesis using True
    by (auto simp: getShard_at_shard shard_load_value_def loaded_def split: sum.split)
next
  case False
  then have "\<exists>f. s' = at_shard k0 f s \<and> (\<forall>sh. cache (f sh) = cache sh)"
    using assms
    by (auto simp: load_item_def plain_key_def Let_def shard_load_count_def shard_load_window_def split: if_splits sum.splits
        intro!: exI)
  then show ?thesis using False by (auto simp: getShard_at_shard)
qed

lemma load_cache:
  assumes "load vc now items s = Inr s'" and "distinct (map fst items)"
  shows "cache (getShard s' k) k =
    (case map_of items k of
       None \<Rightarrow> cache (getShard s k) k
     | Some val \<Rightarrow> if plain_key k then loaded vc (now k) val (cache (getShard s k) k) else cache (getShard s k) k)"
  using assms
proof (induction items arbitrary: s)
  case (Cons item items)
  obtain k0 val where item: "item = (k0, val)" by (cases item)
  obtain s1 where s1: "load_item vc (now k0) (k0, val) s = Inr s1" "load vc now items s1 = Inr s'"
    using Cons.prems(1) item by (auto split: sum.splits)
  have "map_of items k0 = None" using Cons.prems(2) item by (simp add: map_of_eq_None_iff)
  with Cons.IH [OF s1(2)] load_item_cache [OF s1(1), of k] Cons.prems(2) item show ?case
    by (auto split: option.split)
qed simp

section \<open>Flushing\<close>

lemma last_write_unique:
  assumes "\<And>w. w \<in> set ws \<Longrightarrow> write_key w = k \<Longrightarrow> w = W"
  shows "last_write k ws = (if k \<in> write_key ` set ws then Some W else None)"
  using assms by (induction ws rule: rev_induct) (auto simp: last_write_snoc, auto simp: last_write_def)

lemma item_writes_key: "w \<in> set (item_writes vc t k item) \<Longrightarrow> write_key w = k \<or> HasPrefix (write_key w) ''sw:''"
  by (auto simp: item_writes_def write_value_def windowKey_def HasPrefix_def Let_def split: if_splits snapshot.splits)

lemma flush_writes:
  "w \<in> set (snd (flush vc now order s)) \<longleftrightarrow>
     (\<exists>i < numShards. \<exists>k \<in> set (order i). w \<in> set (item_writes vc (now k) k (snapshotItem (shards s i) k)))"
  by (auto simp: flush_def shard_writes_def)

text \<open>Go enumerates the dirty keys of a shard in some order.\<close>

definition enumerates :: "(nat \<Rightarrow> string list) \<Rightarrow> 'o store \<Rightarrow> bool" where
  "enumerates order s \<longleftrightarrow> (\<forall>i < numShards. set (order i) = dirty (shards s i))"

section \<open>Names in a store\<close>

text \<open>The names under which a store is used: the keys of registers, the keys and nodes of counters, the names of windows, and the names of
  peers whose sequence numbers are recorded.\<close>

record names =
  regs :: "string \<Rightarrow> bool"
  ctrs :: "string \<Rightarrow> string \<Rightarrow> bool"
  wins :: "string \<Rightarrow> bool"
  peers :: "string \<Rightarrow> bool"

text \<open>Registers, windows and peers have no reserved prefix, and no register shares its name with one of the others.\<close>

definition names_ok :: "names \<Rightarrow> bool" where
  "names_ok nm \<longleftrightarrow> (\<forall>k. regs nm k \<or> wins nm k \<or> peers nm k \<longrightarrow> plain_key k) \<and>
     (\<forall>k. regs nm k \<longrightarrow> \<not> wins nm k \<and> \<not> peers nm k)"

text \<open>What may happen to a store: writes and deletes of registers, increments and received partial counts, metrics, window events, sequence numbers and the
  janitor.\<close>

inductive store_step :: "names \<Rightarrow> 'o store \<Rightarrow> 'o store \<Rightarrow> bool" for nm where
  st_reg: "regs nm (reg_key x) \<Longrightarrow> store_step nm s (apply_reg x s)"
| st_inc: "ctrs nm key n \<Longrightarrow> store_step nm s (fst (store_increment key n d s))"
| st_count: "ctrs nm key n \<Longrightarrow> store_step nm s (store_setNodeCount key n v s)"
| st_metric: "store_step nm s (fst (store_incrementMetric key n d s))"
| st_window: "wins nm key \<Longrightarrow> store_step nm s (store_addWindowTimestamp key t s)"
| st_slide: "wins nm key \<Longrightarrow> store_step nm s (fst (store_incrementSlidingWindow key t w now s))"
| st_seq: "peers nm n \<Longrightarrow> store_step nm s (store_updatePeerSeq n q s)"
| st_janitor: "store_step nm s (janitor_tick n1 n2 s)"

text \<open>What the shard with index \<open>i\<close> may hold, and what it may have to flush.\<close>

definition shard_names :: "names \<Rightarrow> nat \<Rightarrow> 'o storeShard \<Rightarrow> bool" where
  "shard_names nm i sh \<longleftrightarrow>
     (\<forall>k. cache sh k \<noteq> None \<longrightarrow> regs nm k \<and> i = shardIndex k) \<and>
     (\<forall>k. counts sh k \<noteq> None \<longrightarrow>
        (\<exists>key n. k = nodeKey key n \<and> ctrs nm key n \<and> i = shardIndex key) \<or> HasPrefix k ''mc:'' \<or> HasPrefix k ''ms:'') \<and>
     (\<forall>k. windows sh k \<noteq> None \<longrightarrow> wins nm k) \<and>
     (\<forall>k. peerSeqs sh k \<noteq> None \<longrightarrow> peers nm k) \<and>
     (\<forall>k \<in> dirty sh. regs nm k \<and> i = shardIndex k \<or> counts sh k \<noteq> None \<or> wins nm k \<or> HasPrefix k ''meta:seq:'')"

text \<open>Whatever changes is marked as dirty.\<close>

definition tracked :: "'o storeShard \<Rightarrow> 'o storeShard \<Rightarrow> bool" where
  "tracked sh sh' \<longleftrightarrow> dirty sh \<subseteq> dirty sh' \<and> (\<forall>k. cache sh' k \<noteq> cache sh k \<or> counts sh' k \<noteq> counts sh k \<longrightarrow> k \<in> dirty sh')"

definition store_names :: "names \<Rightarrow> 'o store \<Rightarrow> bool" where
  "store_names nm s \<longleftrightarrow> (\<forall>i < numShards. shard_names nm i (shards s i))"

definition store_tracked :: "'o store \<Rightarrow> 'o store \<Rightarrow> bool" where
  "store_tracked s s' \<longleftrightarrow> (\<forall>i < numShards. tracked (shards s i) (shards s' i))"

lemma step_at_shard:
  assumes "store_names nm s"
    and "\<And>sh. shard_names nm (shardIndex key) sh \<Longrightarrow> shard_names nm (shardIndex key) (f sh) \<and> tracked sh (f sh)"
  shows "store_names nm (at_shard key f s) \<and> store_tracked s (at_shard key f s)"
  using assms shardIndex_less [of key] by (simp add: store_names_def store_tracked_def at_shard_def) (simp add: tracked_def)

lemma slide_fields:
  "counts (fst (shard_incrementSlidingWindow key t w now sh)) = counts sh"
  "cache (fst (shard_incrementSlidingWindow key t w now sh)) = cache sh"
  "peerSeqs (fst (shard_incrementSlidingWindow key t w now sh)) = peerSeqs sh"
  "dirty (fst (shard_incrementSlidingWindow key t w now sh)) = insert key (dirty sh)"
  "k \<noteq> key \<Longrightarrow> windows (fst (shard_incrementSlidingWindow key t w now sh)) k = windows sh k"
  by (simp_all add: shard_incrementSlidingWindow_def Let_def split: prod.split)

lemma seqKey_prefix: "HasPrefix (seqKey n) ''meta:seq:''"
  by (simp add: seqKey_def HasPrefix_def)

lemma metric_prefixes: "HasPrefix (mcKey key n) ''mc:''" "HasPrefix (msKey key n) ''ms:''"
  by (simp_all add: mcKey_def msKey_def HasPrefix_def)

lemma store_step_names:
  assumes "store_step nm s s'" and nm: "store_names nm s"
  shows "store_names nm s' \<and> store_tracked s s'"
  using assms(1)
proof cases
  case (st_reg x)
  then show ?thesis unfolding st_reg(1) apply_reg_shard
    by (intro step_at_shard [OF nm]) (auto simp: shard_names_def tracked_def shard_reg_wins)
next
  case (st_inc key n d)
  then show ?thesis unfolding st_inc(1) store_increment_def Let_def fst_conv
    by (intro step_at_shard [OF nm]) (auto simp: shard_names_def tracked_def shard_increment_def)
next
  case (st_count key n v)
  then show ?thesis unfolding st_count(1) store_setNodeCount_def
    by (intro step_at_shard [OF nm]) (auto simp: shard_names_def tracked_def shard_setNodeCount_def Let_def)
next
  case (st_metric key n d)
  then show ?thesis unfolding st_metric store_incrementMetric_def Let_def fst_conv
    by (intro step_at_shard [OF nm]) (auto simp: shard_names_def tracked_def shard_incrementMetric_def fbump_def metric_prefixes)
next
  case (st_window key t)
  then show ?thesis unfolding st_window(1) store_addWindowTimestamp_def
    by (intro step_at_shard [OF nm])
      (auto simp: shard_names_def tracked_def shard_addWindowTimestamp_def Let_def split: option.split if_splits)
next
  case (st_slide key t w now)
  have "shard_names nm i (fst (shard_incrementSlidingWindow key t w now sh))" if sh: "shard_names nm i sh" for i and sh :: "'a storeShard"
  proof -
    have "wins nm k" if "windows (fst (shard_incrementSlidingWindow key t w now sh)) k \<noteq> None" for k
      using that sh st_slide(2) slide_fields(5) [of k key t w now sh] by (cases "k = key") (auto simp: shard_names_def)
    then show ?thesis using sh st_slide(2) by (simp add: shard_names_def slide_fields)
  qed
  then show ?thesis unfolding st_slide(1) store_incrementSlidingWindow_def fst_conv
    by (intro step_at_shard [OF nm]) (auto simp: tracked_def slide_fields)
next
  case (st_seq n q)
  then show ?thesis unfolding st_seq(1) store_updatePeerSeq_def
    by (intro step_at_shard [OF nm]) (auto simp: shard_names_def tracked_def shard_updatePeerSeq_def seqKey_prefix)
next
  case (st_janitor n1 n2)
  show ?thesis unfolding st_janitor using nm
    by (auto simp: store_names_def store_tracked_def shard_names_def tracked_def janitor_tick_def store_pruneExpiredKeys_def store_pruneStaleWindows_def
        shard_pruneExpiredKeys_def shard_pruneStaleWindows_def split: option.splits if_splits)
qed

section \<open>What a flush writes\<close>

lemma last_write_mem: "last_write k ws = Some w \<Longrightarrow> w \<in> set ws \<and> write_key w = k"
  by (induction ws rule: rev_induct) (auto simp: last_write_snoc split: if_splits, auto simp: last_write_def)

lemma names_plain:
  assumes "names_ok nm"
  shows "regs nm k \<Longrightarrow> plain_key k" "wins nm k \<Longrightarrow> plain_key k" "peers nm k \<Longrightarrow> plain_key k" "regs nm k \<Longrightarrow> \<not> wins nm k"
    "regs nm k \<Longrightarrow> \<not> peers nm k"
  using assms by (auto simp: names_ok_def)

lemma reserved_names:
  "HasPrefix (nodeKey key n) ''c:''" "\<not> HasPrefix (nodeKey key n) ''mc:''" "\<not> HasPrefix (nodeKey key n) ''ms:''"
  "\<not> HasPrefix (nodeKey key n) ''sw:''" "\<not> HasPrefix (nodeKey key n) ''meta:seq:''"
  by (auto simp: nodeKey_def HasPrefix_def)

lemma seq_prefixes:
  "HasPrefix k ''meta:seq:'' \<Longrightarrow> \<not> HasPrefix k ''c:'' \<and> \<not> HasPrefix k ''mc:'' \<and> \<not> HasPrefix k ''ms:'' \<and> \<not> HasPrefix k ''sw:''"
  by (cases k; cases "tl k"; auto simp: HasPrefix_def)

lemma count_prefixes:
  "HasPrefix k ''c:'' \<Longrightarrow> \<not> HasPrefix k ''meta:seq:'' \<and> \<not> HasPrefix k ''mc:'' \<and> \<not> HasPrefix k ''ms:'' \<and> \<not> HasPrefix k ''sw:''"
  by (cases k; cases "tl k"; auto simp: HasPrefix_def)

lemma last_write_flush:
  assumes sw: "\<not> HasPrefix k ''sw:''" and ord: "enumerates order s" and j: "j < numShards" and W: "write_key W = k"
    and items: "\<And>i. i < numShards \<Longrightarrow> k \<in> dirty (shards s i) \<Longrightarrow> i = j \<and> item_writes vc (now k) k (snapshotItem (shards s i) k) = [W]"
  shows "last_write k (snd (flush vc now order s)) = (if k \<in> dirty (shards s j) then Some W else None)"
proof -
  have w: "w = W \<and> k \<in> dirty (shards s j)" if "w \<in> set (snd (flush vc now order s))" "write_key w = k" for w
  proof -
    from that(1) obtain i k0 where i: "i < numShards" "k0 \<in> dirty (shards s i)" "w \<in> set (item_writes vc (now k0) k0 (snapshotItem (shards s i) k0))"
      using ord by (auto simp: flush_writes enumerates_def)
    have "k0 = k" using item_writes_key [OF i(3)] that(2) sw by auto
    with i items show ?thesis by auto
  qed
  have "W \<in> set (snd (flush vc now order s))" if "k \<in> dirty (shards s j)"
    using that ord items [OF j] j unfolding flush_writes enumerates_def by (metis list.set_intros(1))
  with w W have "k \<in> write_key ` set (snd (flush vc now order s)) \<longleftrightarrow> k \<in> dirty (shards s j)" by (metis image_iff)
  with last_write_unique [of "snd (flush vc now order s)" k W] w show ?thesis by auto
qed

lemma last_write_None:
  assumes "\<not> HasPrefix k ''sw:''" and "enumerates order s" and "\<And>i. i < numShards \<Longrightarrow> k \<notin> dirty (shards s i)"
  shows "last_write k (snd (flush vc now order s)) = None"
  using last_write_flush [OF assms(1,2), of 0 "DDelete k"] assms(3) by (simp add: numShards_def)

text \<open>A register: its value, or a delete.\<close>

definition reg_write :: "'o vcodec \<Rightarrow> int64 \<Rightarrow> string \<Rightarrow> 'o valWithTS option \<Rightarrow> db_write" where
  "reg_write vc now k c = (case c of None \<Rightarrow> DDelete k | Some v \<Rightarrow> write_value vc now k v)"

lemma plain_not: "plain_key k \<Longrightarrow> k \<noteq> nodeKey key n \<and> \<not> HasPrefix k ''mc:'' \<and> \<not> HasPrefix k ''ms:'' \<and> \<not> HasPrefix k ''sw:'' \<and> \<not> HasPrefix k ''c:'' \<and>
    \<not> HasPrefix k ''meta:seq:''"
  using reserved_names(1) by (auto simp: plain_key_def)

lemma flush_reg:
  assumes nm: "names_ok nm" "store_names nm s" and k: "regs nm k" and ord: "enumerates order s"
  shows "last_write k (snd (flush vc now order s)) =
    (if k \<in> dirty (getShard s k) then Some (reg_write vc (now k) k (cache (getShard s k) k)) else None)"
  unfolding getShard_def
proof (rule last_write_flush [OF _ ord shardIndex_less])
  note p = plain_not [OF names_plain(1) [OF nm(1) k]]
  show "\<not> HasPrefix k ''sw:''" using p by blast
  show "write_key (reg_write vc (now k) k (cache (shards s (shardIndex k)) k)) = k"
    by (simp add: reg_write_def write_value_def Let_def split: option.split)
  fix i assume i: "i < numShards" "k \<in> dirty (shards s i)"
  then have sh: "shard_names nm i (shards s i)" using nm(2) by (simp add: store_names_def)
  have none: "counts (shards s i) k = None" "windows (shards s i) k = None" "peerSeqs (shards s i) k = None"
    using sh p names_plain(4,5) [OF nm(1) k] unfolding shard_names_def by blast+
  then have "i = shardIndex k" using sh i(2) p names_plain(4) [OF nm(1) k] unfolding shard_names_def by blast
  then show "i = shardIndex k \<and> item_writes vc (now k) k (snapshotItem (shards s i) k) = [reg_write vc (now k) k (cache (shards s (shardIndex k)) k)]"
    using none p by (simp add: snapshotItem_def item_writes_def reg_write_def split: option.split)
qed

text \<open>A sequence number: always a delete.\<close>

lemma flush_seq:
  assumes nm: "names_ok nm" "store_names nm s" and k: "HasPrefix k ''meta:seq:''" and ord: "enumerates order s"
  shows "last_write k (snd (flush vc now order s)) \<in> {None, Some (DDelete k)}"
proof -
  have "w = DDelete k" if w: "w \<in> set (snd (flush vc now order s))" "write_key w = k" for w
  proof -
    from w(1) obtain i k0 where i: "i < numShards" "k0 \<in> dirty (shards s i)" "w \<in> set (item_writes vc (now k0) k0 (snapshotItem (shards s i) k0))"
      using ord by (auto simp: flush_writes enumerates_def)
    have "k0 = k" using item_writes_key [OF i(3)] w(2) seq_prefixes [OF k] by auto
    have sh: "shard_names nm i (shards s i)" using nm(2) i(1) by (simp add: store_names_def)
    have p: "\<not> plain_key k" using k by (simp add: plain_key_def)
    have "cache (shards s i) k = None" "windows (shards s i) k = None" "peerSeqs (shards s i) k = None"
      using sh p names_plain(1-3) [OF nm(1), of k] unfolding shard_names_def by blast+
    moreover have "counts (shards s i) k = None"
      using sh seq_prefixes [OF k] reserved_names(1) unfolding shard_names_def by metis
    ultimately show ?thesis using i(3) \<open>k0 = k\<close> by (simp add: snapshotItem_def item_writes_def)
  qed
  then show ?thesis using last_write_mem by (cases "last_write k (snd (flush vc now order s))") fastforce+
qed

text \<open>A partial count of a counter whose key and node have no colon: its value.\<close>

lemma nodeKey_simple:
  assumes "colon \<notin> set key" and "colon \<notin> set n" and "nodeKey key n = nodeKey key' n'"
  shows "key' = key \<and> n' = n"
proof -
  have e: "key @ colon # n = key' @ colon # n'" using assms(3) by (simp add: nodeKey_def colon_def)
  then have "count_list (key @ colon # n) colon = count_list (key' @ colon # n') colon" by simp
  then have "colon \<notin> set n'" using assms(1,2) by (simp add: count_list_0_iff [symmetric])
  then show ?thesis using nodeKey_inject [OF assms(2)] assms(3) by metis
qed

lemma shardIndex_nodeKey: "colon \<notin> set key \<Longrightarrow> shardIndex (nodeKey key n) = shardIndex key"
  using getShardKey_prefixed [of "''c''" key n] by (simp add: shardIndex_def nodeKey_def colon_def getShardKey_plain)

lemma flush_count:
  assumes nm: "names_ok nm" "store_names nm s" and k: "k = nodeKey key n" "colon \<notin> set key" "colon \<notin> set n" and ord: "enumerates order s"
  shows "last_write k (snd (flush vc now order s)) =
    (if k \<in> dirty (getShard s k) then Some (DSet k (float64ToBytes (fget (counts (getShard s k)) k))) else None) \<and>
    (k \<in> dirty (getShard s k) \<longrightarrow> counts (getShard s k) k \<noteq> None)"
proof -
  have p: "\<not> plain_key k" unfolding k(1) by (simp add: plain_key_def reserved_names)
  have seq: "\<not> HasPrefix k ''meta:seq:''" "\<not> HasPrefix k ''sw:''" "\<not> HasPrefix k ''mc:''" "\<not> HasPrefix k ''ms:''"
    unfolding k(1) by (simp_all add: reserved_names)
  have sh: "cache (shards s i) k = None \<and> counts (shards s i) k \<noteq> None \<and> i = shardIndex k" if i: "i < numShards" "k \<in> dirty (shards s i)" for i
  proof -
    have sh: "shard_names nm i (shards s i)" using nm(2) i(1) by (simp add: store_names_def)
    then have c: "counts (shards s i) k \<noteq> None"
      using i(2) p names_plain(1,2) [OF nm(1), of k] seq(1) unfolding shard_names_def by blast
    then obtain key' n' where k': "k = nodeKey key' n'" "i = shardIndex key'"
      using sh seq(3,4) unfolding shard_names_def by blast
    have "nodeKey key n = nodeKey key' n'" using k(1) k'(1) by (rule subst)
    then have "i = shardIndex k" using nodeKey_simple [OF k(2,3)] k'(2) k(1) shardIndex_nodeKey [OF k(2)] by metis
    moreover have "cache (shards s i) k = None" using sh p names_plain(1) [OF nm(1), of k] unfolding shard_names_def by blast
    ultimately show ?thesis using c by blast
  qed
  let ?W = "DSet k (float64ToBytes (fget (counts (getShard s k)) k))"
  have w: "item_writes vc (now k) k (snapshotItem (shards s i) k) = [?W]" if i: "i < numShards" "k \<in> dirty (shards s i)" for i
  proof -
    obtain v where "counts (shards s i) k = Some v" using sh [OF i] by auto
    moreover have "cache (shards s i) k = None" "getShard s k = shards s i" using sh [OF i] by (auto simp: getShard_def)
    ultimately show ?thesis using seq by (simp add: snapshotItem_def item_writes_def item_count_def fget_def)
  qed
  have "last_write k (snd (flush vc now order s)) = (if k \<in> dirty (shards s (shardIndex k)) then Some ?W else None)"
  proof (rule last_write_flush [OF seq(2) ord shardIndex_less])
    show "write_key ?W = k" by simp
    show "i = shardIndex k \<and> item_writes vc (now k) k (snapshotItem (shards s i) k) = [?W]"
      if "i < numShards" "k \<in> dirty (shards s i)" for i using sh [OF that] w [OF that] by blast
  qed
  then show ?thesis using sh [OF shardIndex_less [of k]] by (simp add: getShard_def)
qed

text \<open>Every name with the prefix of counters that a flush writes is that of a partial count.\<close>

lemma flush_count_names:
  assumes nm: "names_ok nm" "store_names nm s" and k: "HasPrefix k ''c:''" and ord: "enumerates order s"
    and w: "last_write k (snd (flush vc now order s)) \<noteq> None"
  shows "\<exists>key n. k = nodeKey key n \<and> ctrs nm key n"
proof -
  note p = count_prefixes [OF k]
  have "\<exists>i < numShards. k \<in> dirty (shards s i)"
    by (rule ccontr) (use w p in \<open>auto simp: last_write_None [OF _ ord]\<close>)
  then obtain i where i: "i < numShards" "k \<in> dirty (shards s i)" by blast
  have sh: "shard_names nm i (shards s i)" using nm(2) i(1) by (simp add: store_names_def)
  have "\<not> plain_key k" using k by (simp add: plain_key_def)
  then have "counts (shards s i) k \<noteq> None"
    using sh i(2) names_plain(1,2) [OF nm(1), of k] p unfolding shard_names_def by blast
  then show ?thesis using sh p unfolding shard_names_def by blast
qed

section \<open>The database follows the store\<close>

text \<open>A store with its database: both start empty; the store changes, and flushes commit what is dirty.\<close>

inductive persist_reach ::
  "(int64 \<Rightarrow> db_write list \<Rightarrow> 'd \<Rightarrow> 'd) \<Rightarrow> (int64 \<Rightarrow> 'd \<Rightarrow> (string \<times> bytes) list) \<Rightarrow> 'o vcodec \<Rightarrow> names \<Rightarrow> 'o store \<Rightarrow> 'd \<Rightarrow> bool"
  for db_apply db_items vc nm where
  persist_start: "(\<And>t. db_items t d = []) \<Longrightarrow> persist_reach db_apply db_items vc nm emptyStore d"
| persist_step: "persist_reach db_apply db_items vc nm s d \<Longrightarrow> store_step nm s s' \<Longrightarrow> persist_reach db_apply db_items vc nm s' d"
| persist_flush: "persist_reach db_apply db_items vc nm s d \<Longrightarrow> enumerates order s \<Longrightarrow>
    persist_reach db_apply db_items vc nm (fst (flush vc now order s)) (db_apply t (snd (flush vc now order s)) d)"

lemma flush_names: "store_names nm s \<Longrightarrow> store_names nm (fst (flush vc now order s))"
  by (auto simp: store_names_def shard_names_def flush_def)

lemma persist_names: "persist_reach db_apply db_items vc nm s d \<Longrightarrow> store_names nm s"
proof (induction rule: persist_reach.induct)
  case (persist_start d)
  then show ?case by (simp add: store_names_def shard_names_def emptyStore_def newStoreShard_def)
qed (auto simp: flush_names dest: store_step_names)

text \<open>What the database holds for a register that is not dirty.\<close>

definition db_match :: "'o vcodec \<Rightarrow> 'o valWithTS option \<Rightarrow> bytes option \<Rightarrow> bool" where
  "db_match vc c b =
     (case c of
        None \<Rightarrow> b = None
      | Some v \<Rightarrow> b = Some (case vMarshal vc v of Inl e \<Rightarrow> [] | Inr x \<Rightarrow> x) \<or> sint (vExpiresAt v) > 0 \<and> b = None)"

definition synced ::
  "(int64 \<Rightarrow> 'd \<Rightarrow> (string \<times> bytes) list) \<Rightarrow> (string \<Rightarrow> bool) \<Rightarrow> 'o vcodec \<Rightarrow> names \<Rightarrow> 'o store \<Rightarrow> 'd \<Rightarrow> bool" where
  "synced db_items valid vc nm s d \<longleftrightarrow> store_names nm s \<and>
     (\<forall>k t. regs nm k \<and> valid k \<and> k \<notin> dirty (getShard s k) \<longrightarrow> db_match vc (cache (getShard s k) k) (map_of (db_items t d) k)) \<and>
     (\<forall>key n t. colon \<notin> set key \<and> colon \<notin> set n \<and> valid (nodeKey key n) \<and> nodeKey key n \<notin> dirty (getShard s (nodeKey key n)) \<longrightarrow>
        map_of (db_items t d) (nodeKey key n) = map_option float64ToBytes (counts (getShard s (nodeKey key n)) (nodeKey key n))) \<and>
     (\<forall>k t. HasPrefix k ''c:'' \<and> map_of (db_items t d) k \<noteq> None \<longrightarrow> (\<exists>key n. k = nodeKey key n \<and> ctrs nm key n)) \<and>
     (\<forall>k t. HasPrefix k ''meta:seq:'' \<longrightarrow> map_of (db_items t d) k = None)"

lemma syncedD:
  assumes "synced db_items valid vc nm s d"
  shows synced_names: "store_names nm s"
    and synced_reg: "regs nm k \<Longrightarrow> valid k \<Longrightarrow> k \<notin> dirty (getShard s k) \<Longrightarrow> db_match vc (cache (getShard s k) k) (map_of (db_items t d) k)"
    and synced_count: "colon \<notin> set key \<Longrightarrow> colon \<notin> set n \<Longrightarrow> valid (nodeKey key n) \<Longrightarrow> nodeKey key n \<notin> dirty (getShard s (nodeKey key n)) \<Longrightarrow>
      map_of (db_items t d) (nodeKey key n) = map_option float64ToBytes (counts (getShard s (nodeKey key n)) (nodeKey key n))"
    and synced_cname: "HasPrefix k ''c:'' \<Longrightarrow> map_of (db_items t d) k \<noteq> None \<Longrightarrow> \<exists>key n. k = nodeKey key n \<and> ctrs nm key n"
    and synced_seq: "HasPrefix k ''meta:seq:'' \<Longrightarrow> map_of (db_items t d) k = None"
  using assms by (simp_all only: synced_def simp_thms)

lemma syncedI:
  assumes "store_names nm s"
    and "\<And>k t. regs nm k \<Longrightarrow> valid k \<Longrightarrow> k \<notin> dirty (getShard s k) \<Longrightarrow> db_match vc (cache (getShard s k) k) (map_of (db_items t d) k)"
    and "\<And>key n t. colon \<notin> set key \<Longrightarrow> colon \<notin> set n \<Longrightarrow> valid (nodeKey key n) \<Longrightarrow> nodeKey key n \<notin> dirty (getShard s (nodeKey key n)) \<Longrightarrow>
      map_of (db_items t d) (nodeKey key n) = map_option float64ToBytes (counts (getShard s (nodeKey key n)) (nodeKey key n))"
    and "\<And>k t. HasPrefix k ''c:'' \<Longrightarrow> map_of (db_items t d) k \<noteq> None \<Longrightarrow> \<exists>key n. k = nodeKey key n \<and> ctrs nm key n"
    and "\<And>k t. HasPrefix k ''meta:seq:'' \<Longrightarrow> map_of (db_items t d) k = None"
  shows "synced db_items valid vc nm s d"
  unfolding synced_def using assms by blast

lemma synced_step:
  assumes syn: "synced db_items valid vc nm s d" and nm: "store_names nm s'" and tr: "store_tracked s s'"
  shows "synced db_items valid vc nm s' d"
proof -
  have same: "cache (getShard s' k) k = cache (getShard s k) k" "counts (getShard s' k) k = counts (getShard s k) k" "k \<notin> dirty (getShard s k)"
    if "k \<notin> dirty (getShard s' k)" for k
    using tr that shardIndex_less [of k] unfolding store_tracked_def tracked_def getShard_def by blast+
  show ?thesis
  proof (rule syncedI [OF nm])
    show "db_match vc (cache (getShard s' k) k) (map_of (db_items t d) k)" if "regs nm k" "valid k" "k \<notin> dirty (getShard s' k)" for k t
      using synced_reg [OF syn that(1,2) same(3) [OF that(3)]] same(1) [OF that(3)] by simp
    show "map_of (db_items t d) (nodeKey key n) = map_option float64ToBytes (counts (getShard s' (nodeKey key n)) (nodeKey key n))"
      if "colon \<notin> set key" "colon \<notin> set n" "valid (nodeKey key n)" "nodeKey key n \<notin> dirty (getShard s' (nodeKey key n))" for key n t
      using synced_count [OF syn that(1-3) same(3) [OF that(4)]] same(2) [OF that(4)] by simp
  qed (fact synced_cname [OF syn] synced_seq [OF syn])+
qed

context kv_db
begin

lemma synced_flush:
  assumes syn: "synced db_items valid vc nm s d" and ord: "enumerates order s" and ok: "names_ok nm"
  shows "synced db_items valid vc nm (fst (flush vc now order s)) (db_apply t (snd (flush vc now order s)) d)"
proof -
  let ?s = "fst (flush vc now order s)" and ?ws = "snd (flush vc now order s)"
  let ?get = "\<lambda>t' k. map_of (db_items t' (db_apply t ?ws d)) k"
  have shard: "getShard ?s k = (getShard s k)\<lparr>dirty := {}\<rparr>" for k
    using shardIndex_less [of k] by (simp add: flush_def getShard_def)
  note nm = synced_names [OF syn]
  show ?thesis
  proof (rule syncedI)
    show "store_names nm ?s" using nm by (rule flush_names)
    show "db_match vc (cache (getShard ?s k) k) (?get t' k)" if k: "regs nm k" "valid k" for k t'
    proof (cases "k \<in> dirty (getShard s k)")
      case True
      show ?thesis
      proof (cases "cache (getShard s k) k")
        case None
        with True have "last_write k ?ws = Some (DDelete k)" by (simp add: flush_reg [OF ok nm k(1) ord] reg_write_def)
        then show ?thesis using None by (simp add: shard db_match_def get_delete)
      next
        case (Some v)
        with True have "last_write k ?ws = Some (write_value vc (now k) k v)" by (simp add: flush_reg [OF ok nm k(1) ord] reg_write_def)
        then show ?thesis
          using Some get_set [of k ?ws _ t' t d] get_ttl [of k ?ws _ _ t' t d] get_delete [of k ?ws t' t d] k(2)
          by (auto simp: shard db_match_def write_value_def Let_def split: if_splits)
      qed
    next
      case False
      then have "last_write k ?ws = None" by (simp add: flush_reg [OF ok nm k(1) ord])
      then show ?thesis using synced_reg [OF syn k False] by (simp add: shard get_other)
    qed
    show "?get t' (nodeKey key n) = map_option float64ToBytes (counts (getShard ?s (nodeKey key n)) (nodeKey key n))"
      if k: "colon \<notin> set key" "colon \<notin> set n" "valid (nodeKey key n)" for key n t'
    proof (cases "nodeKey key n \<in> dirty (getShard s (nodeKey key n))")
      case True
      then show ?thesis using flush_count [OF ok nm refl k(1,2) ord, of vc now] k(3)
        by (auto simp: shard get_set fget_def split: option.splits)
    next
      case False
      then show ?thesis using flush_count [OF ok nm refl k(1,2) ord, of vc now] synced_count [OF syn k False]
        by (simp add: shard get_other)
    qed
    show "\<exists>key n. k = nodeKey key n \<and> ctrs nm key n" if k: "HasPrefix k ''c:''" "?get t' k \<noteq> None" for k t'
    proof (cases "last_write k ?ws = None")
      case True
      then show ?thesis using synced_cname [OF syn k(1)] k(2) by (simp add: get_other)
    next
      case False
      then show ?thesis by (rule flush_count_names [OF ok nm k(1) ord])
    qed
    show "?get t' k = None" if k: "HasPrefix k ''meta:seq:''" for k t'
      using flush_seq [OF ok nm k ord, of vc now] synced_seq [OF syn k] by (auto simp: get_other get_delete)
  qed
qed

lemma persist_synced:
  assumes "persist_reach db_apply db_items vc nm s d" and ok: "names_ok nm"
  shows "synced db_items valid vc nm s d"
  using assms(1)
proof induction
  case (persist_start d)
  then show ?case
    by (simp add: synced_def store_names_def shard_names_def emptyStore_def newStoreShard_def getShard_def db_match_def)
next
  case (persist_step s d s')
  from store_step_names [OF persist_step.hyps(2) synced_names [OF persist_step.IH]]
  show ?case by (intro synced_step [OF persist_step.IH]) simp_all
next
  case (persist_flush s d order now t)
  then show ?case using synced_flush ok by blast
qed

end

section \<open>Loading what was flushed\<close>

text \<open>Partial counts and sequence numbers after a load.\<close>

lemma load_item_counts:
  assumes "load_item vc now (k0, val) s = Inr s'" and "HasPrefix k ''c:''"
  shows "counts (getShard s' k) k = (if k = k0 then Some (float64FromBytes val) else counts (getShard s k) k)"
proof (cases "k = k0")
  case True
  then have "s' = at_shard k (shard_load_count [] k (float64FromBytes val)) s"
    using assms count_prefixes [OF assms(2)] by (simp add: load_item_def Let_def)
  with True show ?thesis by (simp add: getShard_at_shard shard_load_count_def Let_def)
next
  case False
  then have "\<exists>f. s' = at_shard k0 f s \<and> (\<forall>sh. counts (f sh) k = counts sh k)"
    using assms(1)
    by (auto simp: load_item_def Let_def shard_load_count_def shard_load_window_def shard_load_value_def split: if_splits sum.splits
        intro!: exI)
  with False show ?thesis by (auto simp: getShard_at_shard)
qed

lemma load_counts:
  assumes "load vc now items s = Inr s'" and "distinct (map fst items)" and "HasPrefix k ''c:''"
  shows "counts (getShard s' k) k =
    (case map_of items k of None \<Rightarrow> counts (getShard s k) k | Some val \<Rightarrow> Some (float64FromBytes val))"
  using assms(1,2)
proof (induction items arbitrary: s)
  case (Cons item items)
  obtain k0 val where item: "item = (k0, val)" by (cases item)
  obtain s1 where s1: "load_item vc (now k0) (k0, val) s = Inr s1" "load vc now items s1 = Inr s'"
    using Cons.prems(1) item by (auto split: sum.splits)
  have "map_of items k0 = None" using Cons.prems(2) item by (simp add: map_of_eq_None_iff)
  with Cons.IH [OF s1(2)] load_item_counts [OF s1(1) assms(3)] Cons.prems(2) item show ?case by (auto split: option.split)
qed simp

lemma load_item_seqs:
  assumes "load_item vc now (k0, val) s = Inr s'" and "\<not> HasPrefix k0 ''meta:seq:''"
  shows "peerSeqs (getShard s' k) = peerSeqs (getShard s k)"
proof -
  have "\<exists>f. s' = at_shard k0 f s \<and> (\<forall>sh. peerSeqs (f sh) = peerSeqs sh)"
    using assms
    by (auto simp: load_item_def Let_def shard_load_count_def shard_load_window_def shard_load_value_def split: if_splits sum.splits
        intro!: exI)
  then show ?thesis by (auto simp: getShard_at_shard)
qed

lemma load_seqs:
  assumes "load vc now items s = Inr s'" and "\<forall>(k, b) \<in> set items. \<not> HasPrefix k ''meta:seq:''"
  shows "peerSeqs (getShard s' k) = peerSeqs (getShard s k)"
  using assms
proof (induction items arbitrary: s)
  case (Cons item items)
  obtain k0 val where item: "item = (k0, val)" by (cases item)
  obtain s1 where s1: "load_item vc (now k0) (k0, val) s = Inr s1" "load vc now items s1 = Inr s'"
    using Cons.prems(1) item by (auto split: sum.splits)
  with Cons.IH [OF s1(2)] load_item_seqs [OF s1(1)] Cons.prems(2) item show ?case by simp
qed simp

text \<open>The aggregate of a counter after a load is the sum of the partial counts that were read.\<close>

lemma Split_nodeKey: "colon \<notin> set key \<Longrightarrow> colon \<notin> set n \<Longrightarrow> Split_colon (nodeKey key n) = [''c'', key, n]"
  using Split_colon_append [of "''c''" "key @ colon # n"] Split_colon_append [of key n]
  by (simp add: nodeKey_def colon_def Split_colon_free)

lemma load_item_agg:
  assumes ld: "load_item vc now (k0, val) s = Inr s'" and key: "colon \<notin> set key"
    and k0: "HasPrefix k0 ''c:'' \<Longrightarrow> \<exists>key0 n0. k0 = nodeKey key0 n0 \<and> colon \<notin> set key0 \<and> colon \<notin> set n0"
  shows "fget (aggregateCounts (getShard s' key)) key =
    (if \<exists>n. k0 = nodeKey key n then f_add (fget (aggregateCounts (getShard s key)) key) (float64FromBytes val)
     else fget (aggregateCounts (getShard s key)) key)"
proof (cases "HasPrefix k0 ''c:''")
  case True
  then obtain key0 n0 where n0: "k0 = nodeKey key0 n0" "colon \<notin> set key0" "colon \<notin> set n0" using k0 by blast
  have eq: "(\<exists>n. k0 = nodeKey key n) \<longleftrightarrow> key = key0" using nodeKey_simple [OF n0(2,3)] n0(1) by metis
  have "s' = at_shard k0 (shard_load_count [] k0 (float64FromBytes val)) s"
    using ld True count_prefixes [OF True] by (simp add: load_item_def Let_def)
  then have "s' = at_shard key0 (shard_load_count [] k0 (float64FromBytes val)) s"
    using shardIndex_nodeKey [OF n0(2)] n0(1) by (simp add: at_shard_def)
  moreover have "aggregateCounts (shard_load_count [] k0 v sh) = fbump key0 v (aggregateCounts sh)" for v and sh :: "'a storeShard"
    using Split_nodeKey [OF n0(2,3)] n0(1) by (simp add: shard_load_count_def Let_def)
  ultimately show ?thesis using eq by (auto simp: getShard_at_shard fbump_def fget_def)
next
  case False
  then have "\<exists>f. s' = at_shard k0 f s \<and> (\<forall>sh. aggregateCounts (f sh) key = aggregateCounts sh key)"
    using ld key
    by (auto simp: load_item_def Let_def shard_load_count_def shard_load_window_def shard_load_value_def fbump_def colon_def
        split: if_splits sum.splits intro!: exI)
  moreover have "k0 \<noteq> nodeKey key n" for n using False reserved_names(1) by metis
  ultimately show ?thesis by (auto simp: getShard_at_shard fget_def)
qed

lemma subset_sum_exact:
  assumes cl: "cluster_ok N B" "counters_ok N B c" and A: "A \<subseteq> N"
  shows "exact_int (\<Sum>n \<in> A. c key n)"
proof -
  have "finite N" "\<And>n. n \<in> N \<Longrightarrow> 0 \<le> c key n" using cl by (auto simp: cluster_ok_def counters_ok_def)
  with A have "(\<Sum>n \<in> A. c key n) \<le> (\<Sum>n \<in> N. c key n)" "0 \<le> (\<Sum>n \<in> A. c key n)"
    by (auto intro!: sum_mono2 sum_nonneg)
  with sum_exact [OF cl, of key] show ?thesis by (simp add: exact_int_def)
qed

lemma load_agg:
  assumes ld: "load vc now items s = Inr s'" and dist: "distinct (map fst items)" and key: "colon \<notin> set key"
    and names: "\<forall>(k, b) \<in> set items. HasPrefix k ''c:'' \<longrightarrow> (\<exists>key0 n0. k = nodeKey key0 n0 \<and> colon \<notin> set key0 \<and> n0 \<in> N)"
    and vals: "\<forall>(k, b) \<in> set items. \<forall>n. k = nodeKey key n \<longrightarrow> float64FromBytes b = f_of_int (c key n)"
    and cl: "cluster_ok N B" "counters_ok N B c"
    and agg: "fget (aggregateCounts (getShard s key)) key = f_of_int (\<Sum>n \<in> M. c key n)"
    and M: "M \<subseteq> N" "\<forall>n \<in> M. nodeKey key n \<notin> fst ` set items"
  shows "fget (aggregateCounts (getShard s' key)) key = f_of_int (\<Sum>n \<in> M \<union> {n \<in> N. nodeKey key n \<in> fst ` set items}. c key n)"
  using ld dist names vals agg M
proof (induction items arbitrary: s M)
  case (Cons item items)
  obtain k0 val where item: "item = (k0, val)" by (cases item)
  obtain s1 where s1: "load_item vc (now k0) (k0, val) s = Inr s1" "load vc now items s1 = Inr s'"
    using Cons.prems(1) item by (auto split: sum.splits)
  have N: "finite N" "\<And>n. n \<in> N \<Longrightarrow> colon \<notin> set n" using cl(1) by (auto simp: cluster_ok_def)
  have k0: "\<exists>key0 n0. k0 = nodeKey key0 n0 \<and> colon \<notin> set key0 \<and> colon \<notin> set n0" if "HasPrefix k0 ''c:''"
    using that Cons.prems(3) item N(2) by fastforce
  note agg1 = load_item_agg [OF s1(1) key k0]
  show ?case
  proof (cases "\<exists>n. k0 = nodeKey key n")
    case True
    then obtain m where m: "k0 = nodeKey key m" by blast
    then obtain key0 n0 where "k0 = nodeKey key0 n0" "colon \<notin> set key0" "n0 \<in> N"
      using Cons.prems(3) item reserved_names(1) by fastforce
    then have mN: "m \<in> N" using nodeKey_simple [of key0 n0 key m] m N(2) by metis
    have new: "m \<notin> M" using Cons.prems(7) m item by auto
    have fin: "finite M" using Cons.prems(6) N(1) by (rule finite_subset)
    note ex = subset_sum_exact [OF cl]
    have "fget (aggregateCounts (getShard s1 key)) key = f_of_int ((\<Sum>n \<in> M. c key n) + c key m)"
      using agg1 True Cons.prems(4,5) m item ex [of M] ex [of "{m}"] mN Cons.prems(6) by (simp add: exact)
    also have "(\<Sum>n \<in> M. c key n) + c key m = (\<Sum>n \<in> insert m M. c key n)" using new fin by simp
    finally have "fget (aggregateCounts (getShard s1 key)) key = f_of_int (\<Sum>n \<in> insert m M. c key n)" .
    moreover have "\<forall>n \<in> insert m M. nodeKey key n \<notin> fst ` set items"
      using Cons.prems(2,7) item m by auto
    ultimately have "fget (aggregateCounts (getShard s' key)) key =
        f_of_int (\<Sum>n \<in> insert m M \<union> {n \<in> N. nodeKey key n \<in> fst ` set items}. c key n)"
      using Cons.IH [OF s1(2), of "insert m M"] Cons.prems(2-4,6) mN by simp
    moreover have "insert m M \<union> {n \<in> N. nodeKey key n \<in> fst ` set items} = M \<union> {n \<in> N. nodeKey key n \<in> fst ` set (item # items)}"
      using item m mN N(2) nodeKey_inject by auto
    ultimately show ?thesis by simp
  next
    case False
    then have "fget (aggregateCounts (getShard s1 key)) key = f_of_int (\<Sum>n \<in> M. c key n)" using agg1 Cons.prems(5) by simp
    with Cons.IH [OF s1(2), of M] Cons.prems
    have "fget (aggregateCounts (getShard s' key)) key = f_of_int (\<Sum>n \<in> M \<union> {n \<in> N. nodeKey key n \<in> fst ` set items}. c key n)" by simp
    moreover have "{n \<in> N. nodeKey key n \<in> fst ` set items} = {n \<in> N. nodeKey key n \<in> fst ` set (item # items)}"
      using False item by auto
    ultimately show ?thesis by simp
  qed
qed simp

section \<open>Restarting\<close>

text \<open>A register comes back as it was, or it had a time to live and is gone.\<close>

definition survives :: "'o store \<Rightarrow> 'o store \<Rightarrow> string \<Rightarrow> bool" where
  "survives s s' k \<longleftrightarrow> cache (getShard s' k) k = cache (getShard s k) k \<or>
     (\<exists>v. cache (getShard s k) k = Some v \<and> sint (vExpiresAt v) > 0 \<and> cache (getShard s' k) k = None)"

lemma emptyStore_shard: "getShard emptyStore k = newStoreShard"
  by (simp add: emptyStore_def getShard_def)

lemma load_total:
  assumes "\<forall>(k, b) \<in> set items. \<not> HasPrefix k ''meta:seq:''"
  shows "\<exists>s'. load vc now items s = Inr s'"
  using assms
proof (induction items arbitrary: s)
  case (Cons item items)
  have "\<exists>s1. load_item vc (now (fst item)) item s = Inr s1"
    using Cons.prems by (cases item) (auto simp: load_item_def Let_def)
  with Cons show ?case by auto
qed simp

context kv_db
begin

lemma synced_items:
  assumes "synced db_items valid vc nm s d"
  shows "\<forall>(k, b) \<in> set (db_items t d). \<not> HasPrefix k ''meta:seq:''"
proof -
  have "\<not> HasPrefix k ''meta:seq:''" if "(k, b) \<in> set (db_items t d)" for k b
    using map_of_is_SomeI [OF distinct_items that] synced_seq [OF assms, of k t] by auto
  then show ?thesis by blast
qed

lemma reopen:
  assumes "synced db_items valid vc nm s d"
  shows "\<exists>s'. newStore vc now (Inr (db_items t d)) = Inr (Inr s') \<and> load vc now (db_items t d) emptyStore = Inr s'"
  using load_total [OF synced_items [OF assms], of vc now t emptyStore] by (auto simp: newStore_def)

lemma load_survives:
  assumes syn: "synced db_items valid vc nm s d" and ld: "load vc now (db_items t d) emptyStore = Inr s'"
    and k: "regs nm k" "plain_key k" "valid k" and clean: "k \<notin> dirty (getShard s k)"
    and enc: "\<forall>v. cache (getShard s k) k = Some v \<longrightarrow> (\<exists>b. vMarshal vc v = Inr b \<and> vUnmarshal vc b = Inr v)"
  shows "survives s s' k"
  using enc k(2) load_cache [OF ld distinct_items] synced_reg [OF syn k(1,3) clean, of t]
  by (cases "cache (getShard s k) k")
    (force simp: survives_def db_match_def loaded_def expired_def emptyStore_shard newStoreShard_def split: option.splits sum.splits)+

lemma synced_item:
  assumes syn: "synced db_items valid vc nm s d" and ctrs: "\<forall>key n. ctrs nm key n \<longrightarrow> colon \<notin> set key \<and> n \<in> N \<and> valid (nodeKey key n)"
    and item: "(k, b) \<in> set (db_items t d)" "HasPrefix k ''c:''"
  shows "\<exists>key n. k = nodeKey key n \<and> colon \<notin> set key \<and> n \<in> N"
proof -
  have "map_of (db_items t d) k \<noteq> None" using map_of_is_SomeI [OF distinct_items item(1)] by simp
  then obtain key n where "k = nodeKey key n" "ctrs nm key n" using synced_cname [OF syn item(2)] by blast
  with ctrs show ?thesis by blast
qed

lemma synced_counts:
  assumes syn: "synced db_items valid vc nm s d" and n: "colon \<notin> set key" "colon \<notin> set n" and clean: "\<And>k. dirty (getShard s k) = {}"
    and ctrs: "\<forall>key n. ctrs nm key n \<longrightarrow> colon \<notin> set key \<and> n \<in> N \<and> valid (nodeKey key n)"
  shows "map_of (db_items t d) (nodeKey key n) = map_option float64ToBytes (counts (getShard s key) (nodeKey key n))"
proof (cases "ctrs nm key n")
  case True
  then show ?thesis using synced_count [OF syn n] ctrs clean shardIndex_nodeKey [OF n(1), of n] by (simp add: getShard_def)
next
  case False
  then have other: "\<not> (\<exists>key' n'. nodeKey key n = nodeKey key' n' \<and> ctrs nm key' n')" using nodeKey_simple [OF n] by blast
  have "shard_names nm (shardIndex key) (getShard s key)"
    using synced_names [OF syn] shardIndex_less [of key] by (simp add: store_names_def getShard_def)
  then have "counts (getShard s key) (nodeKey key n) = None"
    using other reserved_names(2,3) [of key n] unfolding shard_names_def by blast
  moreover have "map_of (db_items t d) (nodeKey key n) = None"
    using other synced_cname [OF syn reserved_names(1), of t key n] by blast
  ultimately show ?thesis by simp
qed

lemma load_parts:
  assumes syn: "synced db_items valid vc nm s d" and ld: "load vc now (db_items t d) emptyStore = Inr s'"
    and ctrs: "\<forall>key n. ctrs nm key n \<longrightarrow> colon \<notin> set key \<and> n \<in> N \<and> valid (nodeKey key n)"
    and n: "colon \<notin> set key" "colon \<notin> set n" and clean: "\<And>k. dirty (getShard s k) = {}"
  shows "counts (getShard s' key) (nodeKey key n) = counts (getShard s key) (nodeKey key n)"
proof -
  have "counts (getShard s' (nodeKey key n)) (nodeKey key n) = counts (getShard s key) (nodeKey key n)"
    using load_counts [OF ld distinct_items reserved_names(1), of key n] synced_counts [OF syn n clean ctrs, of t]
    by (simp add: emptyStore_shard newStoreShard_def split: option.split)
  then show ?thesis using shardIndex_nodeKey [OF n(1), of n] by (simp add: getShard_def)
qed

lemma load_total_count:
  assumes syn: "synced db_items valid vc nm s d" and ld: "load vc now (db_items t d) emptyStore = Inr s'"
    and ctrs: "\<forall>key n. ctrs nm key n \<longrightarrow> colon \<notin> set key \<and> n \<in> N \<and> valid (nodeKey key n)"
    and cl: "cluster_ok N B" "counters_ok N B c" and key: "colon \<notin> set key" and clean: "\<And>k. dirty (getShard s k) = {}"
    and abs: "\<And>n. n \<in> N \<Longrightarrow> fget (counts (getShard s key)) (nodeKey key n) = f_of_int (c key n)"
  shows "fget (aggregateCounts (getShard s' key)) key = f_of_int (\<Sum>n \<in> N. c key n)"
proof -
  let ?items = "db_items t d" and ?M = "{n \<in> N. nodeKey key n \<in> fst ` set (db_items t d)}"
  have N: "finite N" "\<And>n. n \<in> N \<Longrightarrow> colon \<notin> set n" using cl(1) by (auto simp: cluster_ok_def)
  note sc = synced_counts [OF syn key N(2) clean ctrs, of _ t]
  have val: "float64FromBytes b = f_of_int (c key n)" if item: "(nodeKey key n, b) \<in> set ?items" for n b
  proof -
    obtain key0 n0 where n0: "nodeKey key n = nodeKey key0 n0" "colon \<notin> set key0" "n0 \<in> N"
      using synced_item [OF syn ctrs item reserved_names(1)] by blast
    then have n: "n \<in> N" using nodeKey_simple [OF n0(2) N(2) [OF n0(3)] n0(1) [symmetric]] by simp
    show ?thesis using sc [OF n] map_of_is_SomeI [OF distinct_items item] abs [OF n] by (auto simp: fget_def split: option.splits)
  qed
  have "fget (aggregateCounts (getShard s' key)) key = f_of_int (\<Sum>n \<in> {} \<union> ?M. c key n)"
  proof (rule load_agg [OF ld distinct_items key _ _ cl])
    show "\<forall>(k, b) \<in> set ?items. HasPrefix k ''c:'' \<longrightarrow> (\<exists>key0 n0. k = nodeKey key0 n0 \<and> colon \<notin> set key0 \<and> n0 \<in> N)"
      using synced_item [OF syn ctrs] by blast
    show "\<forall>(k, b) \<in> set ?items. \<forall>n. k = nodeKey key n \<longrightarrow> float64FromBytes b = f_of_int (c key n)" using val by blast
  qed (simp_all add: emptyStore_shard newStoreShard_def fget_def f_zero_of_int)
  moreover have "c key n = 0" if n: "n \<in> N" "nodeKey key n \<notin> fst ` set ?items" for n
  proof -
    have "map_of ?items (nodeKey key n) = None" using n(2) by (simp add: map_of_eq_None_iff)
    then have "f_of_int (c key n) = f_of_int 0" using sc [OF n(1)] abs [OF n(1)] by (simp add: fget_def f_zero_of_int)
    then show ?thesis using subset_sum_exact [OF cl, of "{n}" key] n(1) f_of_int_inject [of "c key n" 0] by simp
  qed
  then have "(\<Sum>n \<in> N. c key n) = (\<Sum>n \<in> ?M. c key n)" by (intro sum.mono_neutral_right) (use N(1) in auto)
  ultimately show ?thesis by simp
qed

lemma close_synced:
  assumes reach: "persist_reach db_apply db_items vc nm s d" and ok: "names_ok nm" and run: "\<not> stopped s" and ord: "enumerates order s"
  shows "\<exists>s1 ws. store_close vc now order s = Inr (s1, ws) \<and> synced db_items valid vc nm s1 (db_apply t ws d) \<and>
    (\<forall>k. getShard s1 k = (getShard s k)\<lparr>dirty := {}\<rparr>)"
proof -
  let ?f = "flush vc now order (s\<lparr>stopped := True\<rparr>)"
  have "synced db_items valid vc nm (s\<lparr>stopped := True\<rparr>) d" "enumerates order (s\<lparr>stopped := True\<rparr>)"
    using persist_synced [OF reach ok] ord by (simp_all add: synced_def store_names_def getShard_def enumerates_def)
  then have "synced db_items valid vc nm (fst ?f) (db_apply t (snd ?f) d)" by (rule synced_flush [OF _ _ ok])
  moreover have "getShard (fst ?f) k = (getShard s k)\<lparr>dirty := {}\<rparr>" for k
    using shardIndex_less [of k] by (simp add: flush_def getShard_def)
  moreover have "store_close vc now order s = Inr (fst ?f, snd ?f)" using run by (simp add: store_close_def)
  ultimately show ?thesis by blast
qed

end

section \<open>Properties\<close>




text \<open>C32: Sequence numbers do not survive a restart: whatever positions of peers a store has recorded, after \<^verbatim>\<open>close\<close> the store opened on
  the database knows none of them.\<close>

theorem peer_seqs_lost:
  assumes db: "kv_db db_apply db_items valid" and reach: "persist_reach db_apply db_items vc nm s d" and ok: "names_ok nm"
    and run: "\<not> stopped s" and ord: "enumerates order s"
  shows "\<exists>s1 ws s'. store_close vc now order s = Inr (s1, ws) \<and>
    newStore vc now' (Inr (db_items t (db_apply t1 ws d))) = Inr (Inr s') \<and> (\<forall>n. store_getPeerSeq s' n = 0)"
proof -
  obtain s1 ws where s1: "store_close vc now order s = Inr (s1, ws)" "synced db_items valid vc nm s1 (db_apply t1 ws d)"
    using kv_db.close_synced [OF db reach ok run ord] by blast
  obtain s' where s': "newStore vc now' (Inr (db_items t (db_apply t1 ws d))) = Inr (Inr s')"
    "load vc now' (db_items t (db_apply t1 ws d)) emptyStore = Inr s'"
    using kv_db.reopen [OF db s1(2)] by blast
  have "store_getPeerSeq s' n = 0" for n
    using load_seqs [OF s'(2) kv_db.synced_items [OF db s1(2)], of "seqKey n"]
    by (simp add: store_getPeerSeq_def emptyStore_shard newStoreShard_def sget_def)
  with s1(1) s'(1) show ?thesis by blast
qed

section \<open>Witnesses\<close>

definition demo_names :: names where
  "demo_names = \<lparr>regs = (\<lambda>k. k = ''k''), ctrs = (\<lambda>key n. key = ''hits'' \<and> n = ''n1''), wins = (\<lambda>_. False), peers = (\<lambda>n. n = ''n2'')\<rparr>"

lemma demo_names_ok: "names_ok demo_names"
  by (simp add: names_ok_def demo_names_def plain_key_def HasPrefix_def)

definition demo_write :: "nat reg_op" where
  "demo_write = RSet ''k'' (AString ''v'') (Timestamp 5 0) 0"

definition demo_vc :: "nat vcodec" where
  "demo_vc = \<lparr>vMarshal = (\<lambda>v. if v = reg_val demo_write then Inr [1] else Inl (ErrLib ''unsupported'')),
              vUnmarshal = (\<lambda>b. if b = [1] then Inr (reg_val demo_write) else Inl (ErrLib ''malformed''))\<rparr>"

lemma enumerates_ex:
  assumes "\<And>i. finite (dirty (shards s i))"
  shows "\<exists>order. enumerates order s"
proof -
  have "\<forall>i. \<exists>xs. set xs = dirty (shards s i)" using finite_list [OF assms] by blast
  from choice [OF this] show ?thesis by (auto simp: enumerates_def)
qed

lemma demo_reach:
  "store_step demo_names emptyStore s \<Longrightarrow> persist_reach mem_apply mem_items demo_vc demo_names s []"
  by (rule persist_step [OF persist_start]) (simp_all add: mem_items_def)

lemma at_shard_dirty:
  assumes "\<And>sh. finite (dirty sh) \<Longrightarrow> finite (dirty (f sh))"
  shows "\<exists>order. enumerates order (at_shard key f emptyStore)"
  using assms by (intro enumerates_ex) (simp add: at_shard_def emptyStore_def newStoreShard_def)




theorem peer_seqs_lost_witness:
  "\<exists>s1 ws s' order. store_getPeerSeq (store_updatePeerSeq ''n2'' 7 (emptyStore :: nat store)) ''n2'' = 7 \<and>
     store_close demo_vc (\<lambda>_. 0) order (store_updatePeerSeq ''n2'' 7 emptyStore) = Inr (s1, ws) \<and>
     newStore demo_vc (\<lambda>_. 9) (Inr (mem_items 9 (mem_apply 0 ws []))) = Inr (Inr s') \<and> store_getPeerSeq s' ''n2'' = 0"
proof -
  let ?s = "store_updatePeerSeq ''n2'' 7 (emptyStore :: nat store)"
  have q: "store_getPeerSeq ?s ''n2'' = 7"
    by (simp add: store_getPeerSeq_def store_updatePeerSeq_def getShard_at_shard shard_updatePeerSeq_def emptyStore_shard newStoreShard_def sget_def)
  have "store_step demo_names emptyStore ?s" by (rule st_seq) (simp add: demo_names_def)
  note reach = demo_reach [OF this]
  have "\<exists>order. enumerates order ?s"
    unfolding store_updatePeerSeq_def by (rule at_shard_dirty) (simp add: shard_updatePeerSeq_def)
  then obtain order where ord: "enumerates order ?s" by blast
  have "\<exists>s1 ws s'. store_close demo_vc (\<lambda>_. 0) order ?s = Inr (s1, ws) \<and>
      newStore demo_vc (\<lambda>_. 9) (Inr (mem_items 9 (mem_apply 0 ws []))) = Inr (Inr s') \<and> (\<forall>n. store_getPeerSeq s' n = 0)"
    by (rule peer_seqs_lost [OF mem.kv_db_axioms reach demo_names_ok _ ord]) (simp add: store_updatePeerSeq_def at_shard_def emptyStore_def)
  with q show ?thesis by blast
qed

text \<open>One increment on an empty store, flushed to an empty database.\<close>

lemma singleton_items: "distinct (map fst xs) \<Longrightarrow> map_of xs = [k \<mapsto> v] \<Longrightarrow> xs = [(k, v)]"
proof -
  assume xs: "distinct (map fst xs)" "map_of xs = [k \<mapsto> v]"
  have "set xs = {(k, v)}"
    using xs by (auto simp: map_of_eq_Some_iff [OF xs(1), symmetric] split: if_splits)
  moreover have "distinct xs" using xs(1) by (simp add: distinct_map)
  ultimately show ?thesis using distinct_card [of xs] by (cases xs; cases "tl xs") auto
qed

lemma flush_increment:
  assumes s: "s = fst (store_increment key n d emptyStore)" and ord: "enumerates order s"
  shows "last_write k (snd (flush vc now order s)) =
    (if k = nodeKey key n then Some (DSet k (float64ToBytes (f_add f_zero d))) else None)"
proof -
  have shards: "shards s i = (if i = shardIndex key then shard_increment key n d newStoreShard else newStoreShard)" for i
    by (simp add: s store_increment_def at_shard_def emptyStore_def Let_def)
  let ?W = "DSet (nodeKey key n) (float64ToBytes (f_add f_zero d))"
  have item: "item_writes vc t (nodeKey key n) (snapshotItem (shards s (shardIndex key)) (nodeKey key n)) = [?W]" for t
    by (simp add: shards snapshotItem_def item_writes_def item_count_def shard_increment_def newStoreShard_def fget_def reserved_names)
  have dirty: "k \<in> dirty (shards s i) \<longleftrightarrow> k = nodeKey key n \<and> i = shardIndex key" for i k
    by (simp add: shards shard_increment_def newStoreShard_def)
  have W: "w = ?W" if "w \<in> set (snd (flush vc now order s))" for w
    using that ord dirty item by (auto simp: flush_writes enumerates_def)
  have "nodeKey key n \<in> set (order (shardIndex key))" using ord dirty shardIndex_less [of key] by (simp add: enumerates_def)
  moreover have "?W \<in> set (item_writes vc (now (nodeKey key n)) (nodeKey key n) (snapshotItem (shards s (shardIndex key)) (nodeKey key n)))"
    by (simp only: item list.set_intros)
  ultimately have "?W \<in> set (snd (flush vc now order s))" using shardIndex_less [of key] unfolding flush_writes by blast
  with W have "set (snd (flush vc now order s)) = {?W}" by blast
  with last_write_unique [of "snd (flush vc now order s)" k ?W] show ?thesis by simp
qed

text \<open>C31: A counter whose key has a colon comes back under another key: after counting \<open>v\<close> on the key \<open>a:b\<close> and a restart, the counter \<open>a:b\<close> reads
  zero and the counter \<open>a\<close>, which nobody has incremented, reads \<open>v\<close>.\<close>

theorem colon_counter_misread:
  assumes db: "kv_db db_apply db_items valid" and empty: "\<forall>t. db_items t d = []" and colons: "colon \<notin> set a" "colon \<notin> set b" "colon \<notin> set n"
    and key: "key = a @ colon # b" "valid (nodeKey key n)" and v: "exact_int v"
    and s: "s = fst (store_increment key n (f_of_int v) emptyStore)" and ord: "enumerates order s"
  shows "store_getAggregateCount s key = f_of_int v \<and>
    (\<exists>s1 ws s'. store_close vc now order s = Inr (s1, ws) \<and>
       newStore vc now' (Inr (db_items t (db_apply t1 ws d))) = Inr (Inr s') \<and>
       store_getAggregateCount s' key = f_of_int 0 \<and> store_getAggregateCount s' a = f_of_int v)"
proof -
  let ?k = "nodeKey key n"
  have zero: "f_add f_zero (f_of_int v) = f_of_int v" using v by (simp add: f_zero_of_int exact)
  have "stopped s = False" by (simp add: s store_increment_def at_shard_def emptyStore_def Let_def)
  define s1 ws where "s1 = fst (flush vc now order (s\<lparr>stopped := True\<rparr>))" and "ws = snd (flush vc now order (s\<lparr>stopped := True\<rparr>))"
  have close: "store_close vc now order s = Inr (s1, ws)" using \<open>stopped s = False\<close> by (simp add: store_close_def s1_def ws_def)
  have "ws = snd (flush vc now order s)" by (simp add: ws_def flush_def)
  then have last: "last_write k ws = (if k = ?k then Some (DSet k (float64ToBytes (f_of_int v))) else None)" for k
    using flush_increment [OF s ord] zero by simp
  have "map_of (db_items t (db_apply t1 ws d)) k = [?k \<mapsto> float64ToBytes (f_of_int v)] k" for k
    using last [of k] kv_db.get_set [OF db key(2), of ws] kv_db.get_other [OF db, of k ws] empty by (auto split: if_splits)
  then have items: "db_items t (db_apply t1 ws d) = [(?k, float64ToBytes (f_of_int v))]"
    by (intro singleton_items ext) (simp_all add: kv_db.distinct_items [OF db])
  have k: "?k = ''c'' @ colon # a @ colon # b @ colon # n" by (simp add: nodeKey_def key(1) colon_def)
  have parts: "Split_colon ?k = [''c'', a, b, n]"
    unfolding k using colons by (simp add: Split_colon_append Split_colon_free) (simp add: colon_def)
  have home: "shardIndex ?k = shardIndex a"
    unfolding k using getShardKey_prefixed [of "''c''" a] colons(1) by (simp add: shardIndex_def getShardKey_plain colon_def)
  let ?s' = "at_shard a (shard_load_count [] ?k (f_of_int v)) (emptyStore :: 'b store)"
  have "load vc now' (db_items t (db_apply t1 ws d)) emptyStore = Inr ?s'"
    using home by (simp add: items load_item_def Let_def reserved_names at_shard_def)
  then have "newStore vc now' (Inr (db_items t (db_apply t1 ws d))) = Inr (Inr ?s')" by (simp add: newStore_def)
  moreover have "store_getAggregateCount ?s' a = f_of_int v" "store_getAggregateCount ?s' key = f_of_int 0"
    using parts zero key(1)
    by (simp_all add: store_getAggregateCount_def getShard_at_shard shard_load_count_def fbump_def emptyStore_shard newStoreShard_def fget_def f_zero_of_int)
  moreover have "store_getAggregateCount s key = f_of_int v"
    using zero by (simp add: s store_increment_def store_getAggregateCount_def getShard_at_shard shard_increment_def emptyStore_shard newStoreShard_def fget_def Let_def)
  ultimately show ?thesis using close by blast
qed

theorem colon_counter_misread_witness:
  "\<exists>s1 ws s' order. store_close demo_vc (\<lambda>_. 0) order (fst (store_increment ''user:1'' ''n1'' (f_of_int 5) emptyStore)) = Inr (s1, ws) \<and>
     newStore demo_vc (\<lambda>_. 9) (Inr (mem_items 9 (mem_apply 0 ws []))) = Inr (Inr s') \<and>
     store_getAggregateCount s' ''user:1'' = f_of_int 0 \<and> store_getAggregateCount s' ''user'' = f_of_int 5"
proof -
  let ?s = "fst (store_increment ''user:1'' ''n1'' (f_of_int 5) (emptyStore :: nat store))"
  have "\<exists>order. enumerates order ?s"
    unfolding store_increment_def fst_conv Let_def by (rule at_shard_dirty) (simp add: shard_increment_def)
  then obtain order where ord: "enumerates order ?s" by blast
  have side: "\<forall>t. mem_items t [] = []" "colon \<notin> set ''user''" "colon \<notin> set ''1''" "colon \<notin> set ''n1''" "''user:1'' = ''user'' @ colon # ''1''"
    "nodeKey ''user:1'' ''n1'' \<noteq> []" "exact_int 5"
    by (simp_all add: mem_items_def colon_def nodeKey_def exact_int_def)
  show ?thesis
    using colon_counter_misread [OF mem.kv_db_axioms side refl ord, of demo_vc "\<lambda>_. 0" "\<lambda>_. 9" 9 0] by blast
qed

end
