(* ===== verification/Messages.thy ===== *)
theory Messages
  imports Codec_Laws Store
begin

text \<open>
  The gossip message of \<^verbatim>\<open>src/types.go\<close> and its generated codec in \<^verbatim>\<open>src/types_gen.go\<close>: the round trip of \<^verbatim>\<open>MarshalMsg\<close> with both
  decoders, the size bound, and \<^verbatim>\<open>Encode\<close> and \<^verbatim>\<open>Decode\<close>, which go through the reflection based encoder
  \<^verbatim>\<open>vmihailenco/msgpack\<close>; that encoder is a parameter.
\<close>

unbundle bit_operations_syntax

section \<open>Definitions\<close>

record 'o Message =
  m_Type :: MsgType
  m_Key :: string
  m_Value :: "bytes option"
  m_ValueObj :: "'o any"
  m_Delta :: float64
  m_TTL :: int64
  m_Timestamp :: int64
  m_NodeID :: string

definition zero_Message :: "'o Message" where
  "zero_Message = \<lparr>m_Type = 0, m_Key = '''', m_Value = None, m_ValueObj = ANil, m_Delta = f_zero, m_TTL = 0, m_Timestamp = 0, m_NodeID = ''''\<rparr>"

fun Message_fields :: "msgp \<Rightarrow> 's decoder \<Rightarrow> nat \<Rightarrow> 'o Message \<Rightarrow> 's \<Rightarrow> goerr + 'o Message \<times> 's" where
  "Message_fields L D 0 z s = Inr (z, s)"
| "Message_fields L D (Suc n) z s =
     andthen (dReadMapKey D s) (\<lambda>e. WrapError L e []) (\<lambda>(field, s).
       if string_of_bytes field = ''t'' then
         andthen (dReadByte D s) (\<lambda>e. WrapError L e [''Type''])
           (\<lambda>(v, s). Message_fields L D n (z\<lparr>m_Type := v\<rparr>) s)
       else if string_of_bytes field = ''k'' then
         andthen (dReadString D s) (\<lambda>e. WrapError L e [''Key''])
           (\<lambda>(v, s). Message_fields L D n (z\<lparr>m_Key := v\<rparr>) s)
       else if string_of_bytes field = ''v'' then
         andthen (dReadBytes D s (m_Value z)) (\<lambda>e. WrapError L e [''Value''])
           (\<lambda>(v, s). Message_fields L D n (z\<lparr>m_Value := v\<rparr>) s)
       else if string_of_bytes field = ''d'' then
         andthen (dReadFloat64 D s) (\<lambda>e. WrapError L e [''Delta''])
           (\<lambda>(v, s). Message_fields L D n (z\<lparr>m_Delta := v\<rparr>) s)
       else if string_of_bytes field = ''ttl'' then
         andthen (dReadInt64 D s) (\<lambda>e. WrapError L e [''TTL''])
           (\<lambda>(v, s). Message_fields L D n (z\<lparr>m_TTL := v\<rparr>) s)
       else if string_of_bytes field = ''ts'' then
         andthen (dReadInt64 D s) (\<lambda>e. WrapError L e [''Timestamp''])
           (\<lambda>(v, s). Message_fields L D n (z\<lparr>m_Timestamp := v\<rparr>) s)
       else if string_of_bytes field = ''n'' then
         andthen (dReadString D s) (\<lambda>e. WrapError L e [''NodeID''])
           (\<lambda>(v, s). Message_fields L D n (z\<lparr>m_NodeID := v\<rparr>) s)
       else andthen (dSkip D s) (\<lambda>e. WrapError L e []) (\<lambda>s. Message_fields L D n z s))"

definition Message_DecodeMsg :: "msgp \<Rightarrow> 's decoder \<Rightarrow> 'o Message \<Rightarrow> 's \<Rightarrow> goerr + 'o Message \<times> 's" where
  "Message_DecodeMsg L D z s =
     andthen (dReadMapHeader D s) (\<lambda>e. WrapError L e []) (\<lambda>(n, s). Message_fields L D (unat n) z s)"

definition Message_UnmarshalMsg :: "msgp \<Rightarrow> 'o Message \<Rightarrow> bytes \<Rightarrow> goerr + 'o Message \<times> bytes" where
  "Message_UnmarshalMsg L = Message_DecodeMsg L (Bytes L)"

definition Message_Msgsize :: "msgp \<Rightarrow> 'o Message \<Rightarrow> nat" where
  "Message_Msgsize L z = 1 + 2 + ByteSize L + 2 + StringPrefixSize L + length (m_Key z) + 2 + BytesPrefixSize L + length (slice (m_Value z))
     + 2 + Float64Size L + 4 + Int64Size L + 3 + Int64Size L + 2 + StringPrefixSize L + length (m_NodeID z)"

definition Message_len :: "'o Message \<Rightarrow> uint32" where
  "Message_len z = 7 - of_bool (m_Value z = None) - of_bool (f_eq (m_Delta z) f_zero) - of_bool (m_TTL z = 0)"

definition Message_MarshalMsg :: "msgp \<Rightarrow> 'o Message \<Rightarrow> bytes \<Rightarrow> bytes" where
  "Message_MarshalMsg L z b =
     (let b = Require L b (Message_Msgsize L z) @ [0x80 OR ucast (Message_len z)]
      in if Message_len z = 0 then b
         else let b = AppendByte L (b @ [0xA1, 0x74]) (m_Type z);
                  b = AppendString L (b @ [0xA1, 0x6B]) (m_Key z);
                  b = (if m_Value z = None then b else AppendBytes L (b @ [0xA1, 0x76]) (slice (m_Value z)));
                  b = (if f_eq (m_Delta z) f_zero then b else AppendFloat64 L (b @ [0xA1, 0x64]) (m_Delta z));
                  b = (if m_TTL z = 0 then b else AppendInt64 L (b @ [0xA3, 0x74, 0x74, 0x6C]) (m_TTL z));
                  b = AppendInt64 L (b @ [0xA2, 0x74, 0x73]) (m_Timestamp z)
              in AppendString L (b @ [0xA1, 0x6E]) (m_NodeID z))"

text \<open>\<^verbatim>\<open>Encode\<close> fills in the value of a message that only has an object, dropping an error, and returns the changed message
  with the outcome. \<open>marshal\<close> and \<open>marshalMessage\<close> are \<^verbatim>\<open>msgpack.Marshal\<close> at the two types.\<close>

definition Message_fill :: "('o any \<Rightarrow> goerr + bytes) \<Rightarrow> 'o Message \<Rightarrow> 'o Message" where
  "Message_fill marshal m =
     (if m_ValueObj m \<noteq> ANil \<and> m_Value m = None
      then m\<lparr>m_Value := (case marshal (m_ValueObj m) of Inl e \<Rightarrow> None | Inr b \<Rightarrow> Some b)\<rparr>
      else m)"

definition Message_Encode ::
  "('o any \<Rightarrow> goerr + bytes) \<Rightarrow> ('o Message \<Rightarrow> goerr + bytes) \<Rightarrow> 'o Message \<Rightarrow> 'o Message \<times> (goerr + bytes)" where
  "Message_Encode marshal marshalMessage m = (let m = Message_fill marshal m in (m, marshalMessage m))"

definition Decode :: "(bytes \<Rightarrow> goerr + 'o Message) \<Rightarrow> bytes \<Rightarrow> goerr + 'o Message" where
  "Decode unmarshalMessage data = (case unmarshalMessage data of Inl e \<Rightarrow> Inl e | Inr m \<Rightarrow> Inr m)"

section \<open>The generated codec\<close>

lemma field_name_ts [simp]: "string_of_bytes [0x74, 0x73] = ''ts''"
  by code_simp

definition message_small :: "'o Message \<Rightarrow> bool" where
  "message_small z \<longleftrightarrow> length (m_Key z) < 2 ^ 32 \<and> length (m_NodeID z) < 2 ^ 32 \<and> length (slice (m_Value z)) < 2 ^ 32"

context msgp_lib
begin

lemma Message_field:
  "n > 0 \<Longrightarrow> Message_fields L (Bytes L) n z (0xA1 # 0x74 # AppendByte L [] c @ r) = Message_fields L (Bytes L) (n - 1) (z\<lparr>m_Type := c\<rparr>) r"
  "n > 0 \<Longrightarrow> length v < 2 ^ 32 \<Longrightarrow>
   Message_fields L (Bytes L) n z (0xA1 # 0x6B # AppendString L [] v @ r) = Message_fields L (Bytes L) (n - 1) (z\<lparr>m_Key := v\<rparr>) r"
  "n > 0 \<Longrightarrow> length b < 2 ^ 32 \<Longrightarrow> b \<noteq> [] \<Longrightarrow>
   Message_fields L (Bytes L) n z (0xA1 # 0x76 # AppendBytes L [] b @ r) = Message_fields L (Bytes L) (n - 1) (z\<lparr>m_Value := Some b\<rparr>) r"
  "n > 0 \<Longrightarrow> Message_fields L (Bytes L) n z (0xA1 # 0x64 # AppendFloat64 L [] d @ r) = Message_fields L (Bytes L) (n - 1) (z\<lparr>m_Delta := d\<rparr>) r"
  "n > 0 \<Longrightarrow> Message_fields L (Bytes L) n z (0xA3 # 0x74 # 0x74 # 0x6C # AppendInt64 L [] i @ r) =
     Message_fields L (Bytes L) (n - 1) (z\<lparr>m_TTL := i\<rparr>) r"
  "n > 0 \<Longrightarrow> Message_fields L (Bytes L) n z (0xA2 # 0x74 # 0x73 # AppendInt64 L [] i @ r) =
     Message_fields L (Bytes L) (n - 1) (z\<lparr>m_Timestamp := i\<rparr>) r"
  "n > 0 \<Longrightarrow> length v < 2 ^ 32 \<Longrightarrow>
   Message_fields L (Bytes L) n z (0xA1 # 0x6E # AppendString L [] v @ r) = Message_fields L (Bytes L) (n - 1) (z\<lparr>m_NodeID := v\<rparr>) r"
  by (cases n; simp add: keys read read_string read_nonempty)+

lemma Message_len_pos: "Message_len z \<noteq> 0"
  by (simp add: Message_len_def of_bool_def)

lemma Message_Marshal_append:
  "Message_MarshalMsg L z b = b @ (0x80 OR ucast (Message_len z)) # [0xA1, 0x74] @ AppendByte L [] (m_Type z)
     @ [0xA1, 0x6B] @ AppendString L [] (m_Key z)
     @ (if m_Value z = None then [] else [0xA1, 0x76] @ AppendBytes L [] (slice (m_Value z)))
     @ (if f_eq (m_Delta z) f_zero then [] else [0xA1, 0x64] @ AppendFloat64 L [] (m_Delta z))
     @ (if m_TTL z = 0 then [] else [0xA3, 0x74, 0x74, 0x6C] @ AppendInt64 L [] (m_TTL z))
     @ [0xA2, 0x74, 0x73] @ AppendInt64 L [] (m_Timestamp z) @ [0xA1, 0x6E] @ AppendString L [] (m_NodeID z)"
  by (simp add: Message_MarshalMsg_def Message_len_pos Let_def Require)

lemma Message_roundtrip:
  assumes "message_small z" and "m_Value z \<noteq> Some []"
  shows "Message_UnmarshalMsg L zero_Message (Message_MarshalMsg L z [] @ r)
    = Inr (z\<lparr>m_ValueObj := ANil, m_Delta := if f_eq (m_Delta z) f_zero then f_zero else m_Delta z\<rparr>, r)"
proof -
  have v: "m_Value z = Some v \<Longrightarrow> length v < 2 ^ 32 \<and> v \<noteq> []" for v
    using assms by (auto simp: message_small_def)
  show ?thesis
    using assms(1) [unfolded message_small_def] v
    apply (cases "m_Value z"; cases "f_eq (m_Delta z) f_zero"; cases "m_TTL z = 0")
    by (simp_all add: Message_UnmarshalMsg_def Message_DecodeMsg_def Message_Marshal_append Message_len_def map_header
        Message_field zero_Message_def del: Message_fields.simps(2))
qed

lemma Message_size: "length (Message_MarshalMsg L z b) \<le> length b + Message_Msgsize L z"
proof -
  have "length (AppendByte L [] (m_Type z)) \<le> ByteSize L"
    "length (AppendString L [] (m_Key z)) \<le> StringPrefixSize L + length (m_Key z)"
    "length (AppendBytes L [] (slice (m_Value z))) \<le> BytesPrefixSize L + length (slice (m_Value z))"
    "length (AppendFloat64 L [] (m_Delta z)) \<le> Float64Size L" "length (AppendInt64 L [] (m_TTL z)) \<le> Int64Size L"
    "length (AppendInt64 L [] (m_Timestamp z)) \<le> Int64Size L"
    "length (AppendString L [] (m_NodeID z)) \<le> StringPrefixSize L + length (m_NodeID z)"
    by (rule size)+
  then show ?thesis by (simp add: Message_Marshal_append Message_Msgsize_def)
qed

end

section \<open>Properties\<close>

text \<open>C16: Gossip messages survive the wire: decoding an encoded message, whatever bytes follow it, gives back the message and the bytes that
  follow, with every omitted field at its zero value and without the object that is not part of the encoding; the encoding is no longer than
  \<^verbatim>\<open>Msgsize\<close> promises. Keys, node names and values are shorter than \<open>2 ^ 32\<close> bytes, and the value is not an empty slice.\<close>

theorem Message_wire:
  assumes "msgp_lib L" and "message_small z" and "m_Value z \<noteq> Some []"
  shows "Message_UnmarshalMsg L zero_Message (Message_MarshalMsg L z [] @ rest)
           = Inr (z\<lparr>m_ValueObj := ANil, m_Delta := if f_eq (m_Delta z) f_zero then f_zero else m_Delta z\<rparr>, rest)
         \<and> length (Message_MarshalMsg L z []) \<le> Message_Msgsize L z"
  using msgp_lib.Message_roundtrip [OF assms] msgp_lib.Message_size [OF assms(1), of z "[]"] by simp

definition demo_message :: "nat Message" where
  "demo_message = \<lparr>m_Type = MsgSet, m_Key = ''k'', m_Value = Some [0xA1, 0x61], m_ValueObj = ANil, m_Delta = f_zero, m_TTL = 0,
     m_Timestamp = 5, m_NodeID = ''n1''\<rparr>"

theorem Message_wire_witness:
  "Message_UnmarshalMsg wire zero_Message (Message_MarshalMsg wire demo_message [] @ [0xC0]) = Inr (demo_message, [0xC0])"
proof -
  have "message_small demo_message" and "m_Value demo_message \<noteq> Some []" and "m_Delta demo_message = f_zero"
    by (simp_all add: demo_message_def message_small_def)
  with Message_wire [OF wire.msgp_lib_axioms, of demo_message "[0xC0]"] show ?thesis
    by (simp add: demo_message_def)
qed

text \<open>A message that was encoded decodes to the message with its value filled in, when the encoder inverts; filling in twice changes nothing
  more.\<close>

lemma Encode_Decode:
  assumes "Message_Encode marshal marshalMessage m = (m', Inr data)" and "\<And>x b. marshalMessage x = Inr b \<Longrightarrow> unmarshalMessage b = Inr x"
  shows "Decode unmarshalMessage data = Inr m' \<and> m' = Message_fill marshal m"
  using assms by (auto simp: Message_Encode_def Decode_def Let_def)

lemma Message_fill_idem: "Message_fill marshal (Message_fill marshal m) = Message_fill marshal m"
  by (auto simp: Message_fill_def split: sum.split)

end
