(* ===== verification/Writers.thy ===== *)
theory Writers
  imports Messages
begin

text \<open>
  The streaming encoders \<^verbatim>\<open>EncodeMsg\<close> of the generated codecs, over a buffered writer of the MessagePack library. The writer is a
  parameter: a record of its functions, each of which returns an error or nil and changes the writer's state. The locale
  \<open>msgp_writer\<close> says what the encoders rely on: every function writes what the corresponding \<^verbatim>\<open>Append\<close> function appends, and when it
  fails it has written an initial part of that. The encoders then write what \<^verbatim>\<open>MarshalMsg\<close> appends.
\<close>

unbundle bit_operations_syntax

section \<open>Writers\<close>

type_synonym 'w wr = "'w \<Rightarrow> goerr option \<times> 'w"

record 'w writer =
  wAppend :: "bytes \<Rightarrow> 'w wr"
  wInt64 :: "int64 \<Rightarrow> 'w wr"
  wInt32 :: "int32 \<Rightarrow> 'w wr"
  wUint64 :: "uint64 \<Rightarrow> 'w wr"
  wByte :: "byte \<Rightarrow> 'w wr"
  wString :: "string \<Rightarrow> 'w wr"
  wBytes :: "bytes \<Rightarrow> 'w wr"
  wFloat64 :: "float64 \<Rightarrow> 'w wr"
  wArrayHeader :: "uint32 \<Rightarrow> 'w wr"
  wNil :: "'w wr"

text \<open>A call whose error, wrapped, is returned at once, and the return without an error.\<close>

definition wthen :: "'w wr \<Rightarrow> (goerr \<Rightarrow> goerr) \<Rightarrow> 'w wr \<Rightarrow> 'w wr" where
  "wthen a wrap k w = (case a w of (Some e, w') \<Rightarrow> (Some (wrap e), w') | (None, w') \<Rightarrow> k w')"

definition wdone :: "'w wr" where
  "wdone w = (None, w)"

section \<open>The encoders\<close>

definition Timestamp_EncodeMsg :: "msgp \<Rightarrow> 'w writer \<Rightarrow> Timestamp \<Rightarrow> 'w wr" where
  "Timestamp_EncodeMsg L W z =
     wthen (wAppend W [0x82, 0xA1, 0x70]) (\<lambda>e. e)
      (wthen (wInt64 W (Physical z)) (\<lambda>e. WrapError L e [''Physical''])
       (wthen (wAppend W [0xA1, 0x6C]) (\<lambda>e. e)
        (wthen (wInt32 W (Logical z)) (\<lambda>e. WrapError L e [''Logical''])
         wdone)))"

definition MsgType_EncodeMsg :: "msgp \<Rightarrow> 'w writer \<Rightarrow> MsgType \<Rightarrow> 'w wr" where
  "MsgType_EncodeMsg L W z = wthen (wByte W z) (\<lambda>e. WrapError L e []) wdone"

definition Message_EncodeMsg :: "msgp \<Rightarrow> 'w writer \<Rightarrow> 'o Message \<Rightarrow> 'w wr" where
  "Message_EncodeMsg L W z =
     wthen (wAppend W [0x80 OR ucast (Message_len z)]) (\<lambda>e. e)
      (if Message_len z = 0 then wdone
       else
         wthen (wAppend W [0xA1, 0x74]) (\<lambda>e. e)
          (wthen (wByte W (m_Type z)) (\<lambda>e. WrapError L e [''Type''])
           (wthen (wAppend W [0xA1, 0x6B]) (\<lambda>e. e)
            (wthen (wString W (m_Key z)) (\<lambda>e. WrapError L e [''Key''])
             (wthen
               (if m_Value z = None then wdone
                else wthen (wAppend W [0xA1, 0x76]) (\<lambda>e. e)
                      (wthen (wBytes W (slice (m_Value z))) (\<lambda>e. WrapError L e [''Value'']) wdone)) (\<lambda>e. e)
               (wthen
                 (if f_eq (m_Delta z) f_zero then wdone
                  else wthen (wAppend W [0xA1, 0x64]) (\<lambda>e. e)
                        (wthen (wFloat64 W (m_Delta z)) (\<lambda>e. WrapError L e [''Delta'']) wdone)) (\<lambda>e. e)
                 (wthen
                   (if m_TTL z = 0 then wdone
                    else wthen (wAppend W [0xA3, 0x74, 0x74, 0x6C]) (\<lambda>e. e)
                          (wthen (wInt64 W (m_TTL z)) (\<lambda>e. WrapError L e [''TTL'']) wdone)) (\<lambda>e. e)
                   (wthen (wAppend W [0xA2, 0x74, 0x73]) (\<lambda>e. e)
                    (wthen (wInt64 W (m_Timestamp z)) (\<lambda>e. WrapError L e [''Timestamp''])
                     (wthen (wAppend W [0xA1, 0x6E]) (\<lambda>e. e)
                      (wthen (wString W (m_NodeID z)) (\<lambda>e. WrapError L e [''NodeID''])
                       wdone)))))))))))"

text \<open>The body that \<^verbatim>\<open>Handshake.EncodeMsg\<close> and \<^verbatim>\<open>Batch.EncodeMsg\<close> both contain; \<open>ctx\<close> is the error context of the enclosing value.\<close>

definition Handshake_write :: "msgp \<Rightarrow> 'w writer \<Rightarrow> string list \<Rightarrow> Handshake \<Rightarrow> 'w wr" where
  "Handshake_write L W ctx z =
     wthen (wAppend W [0x80 OR ucast (Handshake_len z)]) (\<lambda>e. e)
      (if Handshake_len z = 0 then wdone
       else
         wthen (wAppend W [0xA2, 0x6C, 0x73]) (\<lambda>e. e)
          (wthen (wUint64 W (h_LastSeenSeq z)) (\<lambda>e. WrapError L e (ctx @ [''LastSeenSeq'']))
           (if h_AuthToken z = '''' then wdone
            else wthen (wAppend W [0xA2, 0x61, 0x74]) (\<lambda>e. e)
                  (wthen (wString W (h_AuthToken z)) (\<lambda>e. WrapError L e (ctx @ [''AuthToken''])) wdone))))"

definition Handshake_EncodeMsg :: "msgp \<Rightarrow> 'w writer \<Rightarrow> Handshake \<Rightarrow> 'w wr" where
  "Handshake_EncodeMsg L W z = Handshake_write L W [] z"

fun Batch_writeEntries :: "msgp \<Rightarrow> 'w writer \<Rightarrow> nat \<Rightarrow> bytes list \<Rightarrow> 'w wr" where
  "Batch_writeEntries L W i [] = wdone"
| "Batch_writeEntries L W i (v # vs) =
     wthen (wBytes W v) (\<lambda>e. WrapError L e [''Entries'', fmt_nat i]) (Batch_writeEntries L W (Suc i) vs)"

definition Batch_EncodeMsg :: "msgp \<Rightarrow> 'w writer \<Rightarrow> Batch \<Rightarrow> 'w wr" where
  "Batch_EncodeMsg L W z =
     wthen (wAppend W [0x80 OR ucast (Batch_len z)]) (\<lambda>e. e)
      (if Batch_len z = 0 then wdone
       else
         wthen (wAppend W [0xA1, 0x66]) (\<lambda>e. e)
          (wthen (wString W (b_FromNode z)) (\<lambda>e. WrapError L e [''FromNode''])
           (wthen (wAppend W [0xA1, 0x65]) (\<lambda>e. e)
            (wthen (wArrayHeader W (of_nat (length (b_Entries z)))) (\<lambda>e. WrapError L e [''Entries''])
             (wthen (Batch_writeEntries L W 0 (b_Entries z)) (\<lambda>e. e)
              (case b_Handshake z of
                 None \<Rightarrow> wdone
               | Some h \<Rightarrow> wthen (wAppend W [0xA1, 0x68]) (\<lambda>e. e) (Handshake_write L W [''Handshake''] h)))))))"

section \<open>What is written\<close>

text \<open>A call writes some bytes; when it fails, an initial part of them.\<close>

definition writes :: "('w \<Rightarrow> bytes) \<Rightarrow> 'w wr \<Rightarrow> bytes \<Rightarrow> bool" where
  "writes out m bs \<longleftrightarrow> (\<forall>w. \<exists>n. out (snd (m w)) = out w @ take n bs \<and> (fst (m w) = None \<longrightarrow> length bs \<le> n))"

definition unfailing :: "'w writer \<Rightarrow> bool" where
  "unfailing W \<longleftrightarrow> (\<forall>w. (\<forall>b. fst (wAppend W b w) = None) \<and> (\<forall>i. fst (wInt64 W i w) = None) \<and> (\<forall>i. fst (wInt32 W i w) = None) \<and>
     (\<forall>i. fst (wUint64 W i w) = None) \<and> (\<forall>c. fst (wByte W c w) = None) \<and> (\<forall>s. fst (wString W s w) = None) \<and>
     (\<forall>b. fst (wBytes W b w) = None) \<and> (\<forall>d. fst (wFloat64 W d w) = None) \<and> (\<forall>n. fst (wArrayHeader W n w) = None))"

lemma writes_done [simp]: "writes out wdone []"
  by (simp add: writes_def wdone_def)

lemma writes_then [intro]:
  assumes "writes out a bs" and "writes out k cs"
  shows "writes out (wthen a wrap k) (bs @ cs)"
  unfolding writes_def
proof
  fix w
  obtain r w' where a: "a w = (r, w')" by (cases "a w")
  obtain n where n: "out w' = out w @ take n bs" "r = None \<longrightarrow> length bs \<le> n"
    using assms(1) a unfolding writes_def by (metis fst_conv snd_conv)
  show "\<exists>n. out (snd (wthen a wrap k w)) = out w @ take n (bs @ cs) \<and> (fst (wthen a wrap k w) = None \<longrightarrow> length (bs @ cs) \<le> n)"
  proof (cases r)
    case None
    then obtain m where "out (snd (k w')) = out w' @ take m cs" "fst (k w') = None \<longrightarrow> length cs \<le> m"
      using assms(2) unfolding writes_def by blast
    with None a n show ?thesis by (intro exI [of _ "length bs + m"]) (simp add: wthen_def)
  next
    case (Some e)
    with a n show ?thesis by (intro exI [of _ "min n (length bs)"]) (simp add: wthen_def min_def)
  qed
qed

lemma writes_if: "(c \<Longrightarrow> writes out a bs) \<Longrightarrow> (\<not> c \<Longrightarrow> writes out b cs) \<Longrightarrow> writes out (if c then a else b) (if c then bs else cs)"
  by simp

locale msgp_writer = msgp_lib L for L :: msgp +
  fixes W :: "'w writer" and out :: "'w \<Rightarrow> bytes"
  assumes Append: "writes out (wAppend W b) b"
    and Int64: "writes out (wInt64 W i) (AppendInt64 L [] i)"
    and Int32: "writes out (wInt32 W j) (AppendInt32 L [] j)"
    and Uint64: "writes out (wUint64 W u) (AppendUint64 L [] u)"
    and Byte: "writes out (wByte W c) (AppendByte L [] c)"
    and String: "writes out (wString W s) (AppendString L [] s)"
    and Bytes': "writes out (wBytes W b) (AppendBytes L [] b)"
    and Float64: "writes out (wFloat64 W f) (AppendFloat64 L [] f)"
    and ArrayHeader: "writes out (wArrayHeader W n) (AppendArrayHeader L [] n)"
begin

lemmas calls = Append Int64 Int32 Uint64 Byte String Bytes' Float64 ArrayHeader

lemma writes_last: "writes out a bs \<Longrightarrow> writes out (wthen a wrap wdone) bs"
  using writes_then [OF _ writes_done] by force

lemma Timestamp_writes: "writes out (Timestamp_EncodeMsg L W z) (Timestamp_MarshalMsg L z [])"
  unfolding Timestamp_EncodeMsg_def Timestamp_Marshal_append append_Nil by (intro writes_then writes_last calls)

lemma MsgType_writes: "writes out (MsgType_EncodeMsg L W z) (MsgType_MarshalMsg L z [])"
  unfolding MsgType_EncodeMsg_def by (simp add: MsgType_MarshalMsg_def Require writes_last calls)

lemma Message_writes: "writes out (Message_EncodeMsg L W z) (Message_MarshalMsg L z [])"
proof -
  have "writes out (Message_EncodeMsg L W z) ([0x80 OR ucast (Message_len z)] @ [0xA1, 0x74] @ AppendByte L [] (m_Type z)
     @ [0xA1, 0x6B] @ AppendString L [] (m_Key z)
     @ (if m_Value z = None then [] else [0xA1, 0x76] @ AppendBytes L [] (slice (m_Value z)))
     @ (if f_eq (m_Delta z) f_zero then [] else [0xA1, 0x64] @ AppendFloat64 L [] (m_Delta z))
     @ (if m_TTL z = 0 then [] else [0xA3, 0x74, 0x74, 0x6C] @ AppendInt64 L [] (m_TTL z))
     @ [0xA2, 0x74, 0x73] @ AppendInt64 L [] (m_Timestamp z) @ [0xA1, 0x6E] @ AppendString L [] (m_NodeID z))"
    unfolding Message_EncodeMsg_def if_not_P [OF Message_len_pos] by (intro writes_then writes_if writes_last writes_done calls)
  then show ?thesis by (simp add: Message_Marshal_append)
qed

lemma Handshake_writes: "writes out (Handshake_write L W ctx z) (Handshake_body L z [])"
proof -
  have "writes out (Handshake_write L W ctx z) ([0x80 OR ucast (Handshake_len z)] @ [0xA2, 0x6C, 0x73] @ AppendUint64 L [] (h_LastSeenSeq z)
     @ (if h_AuthToken z = [] then [] else [0xA2, 0x61, 0x74] @ AppendString L [] (h_AuthToken z)))"
    unfolding Handshake_write_def if_not_P [OF Handshake_len_pos] by (intro writes_then writes_if writes_last writes_done calls)
  then show ?thesis by (simp add: Handshake_body_append)
qed

lemma entries_writes: "writes out (Batch_writeEntries L W i vs) (concat (map (AppendBytes L []) vs))"
  by (induction vs arbitrary: i) (simp_all add: writes_then calls)

lemma Batch_writes: "writes out (Batch_EncodeMsg L W z) (Batch_MarshalMsg L z [])"
proof -
  have h: "writes out (case b_Handshake z of None \<Rightarrow> wdone | Some h \<Rightarrow> wthen (wAppend W [0xA1, 0x68]) (\<lambda>e. e) (Handshake_write L W [''Handshake''] h))
    (case b_Handshake z of None \<Rightarrow> [] | Some h \<Rightarrow> [0xA1, 0x68] @ Handshake_body L h [])"
    by (cases "b_Handshake z") (use writes_then [OF Append [of "[0xA1, 0x68]"] Handshake_writes] in auto)
  have "writes out (Batch_EncodeMsg L W z) ([0x80 OR ucast (Batch_len z)] @ [0xA1, 0x66] @ AppendString L [] (b_FromNode z)
     @ [0xA1, 0x65] @ AppendArrayHeader L [] (of_nat (length (b_Entries z)))
     @ concat (map (AppendBytes L []) (b_Entries z))
     @ (case b_Handshake z of None \<Rightarrow> [] | Some h \<Rightarrow> [0xA1, 0x68] @ Handshake_body L h []))"
    unfolding Batch_EncodeMsg_def if_not_P [OF Batch_len_pos] by (intro writes_then calls entries_writes h)
  then show ?thesis by (simp add: Batch_Marshal_append)
qed

end

text \<open>Encoders only fail when the writer does.\<close>

definition succeeds :: "'w wr \<Rightarrow> bool" where
  "succeeds m \<longleftrightarrow> (\<forall>w. fst (m w) = None)"

lemma succeeds_done: "succeeds wdone"
  by (simp add: succeeds_def wdone_def)

lemma succeeds_then: "succeeds a \<Longrightarrow> succeeds k \<Longrightarrow> succeeds (wthen a wrap k)"
  by (auto simp: succeeds_def wthen_def split: prod.split option.split) (metis fst_conv option.distinct(1))

lemma succeeds_if: "(c \<Longrightarrow> succeeds a) \<Longrightarrow> (\<not> c \<Longrightarrow> succeeds b) \<Longrightarrow> succeeds (if c then a else b)"
  by simp

lemma unfailing_calls:
  assumes "unfailing W"
  shows "succeeds (wAppend W b)" "succeeds (wInt64 W i)" "succeeds (wInt32 W j)" "succeeds (wUint64 W u)" "succeeds (wByte W c)"
    "succeeds (wString W s)" "succeeds (wBytes W b)" "succeeds (wFloat64 W f)" "succeeds (wArrayHeader W n)"
  using assms by (simp_all add: unfailing_def succeeds_def)

lemmas succeeds_rules = succeeds_done succeeds_then succeeds_if

lemma encoders_succeed:
  assumes "unfailing W"
  shows "succeeds (Timestamp_EncodeMsg L W ts)" "succeeds (MsgType_EncodeMsg L W t)" "succeeds (Message_EncodeMsg L W m)"
    "succeeds (Handshake_EncodeMsg L W h)" "succeeds (Batch_EncodeMsg L W b)"
proof -
  note u = succeeds_rules unfailing_calls [OF assms]
  show "succeeds (Timestamp_EncodeMsg L W ts)" "succeeds (MsgType_EncodeMsg L W t)" "succeeds (Message_EncodeMsg L W m)"
    unfolding Timestamp_EncodeMsg_def MsgType_EncodeMsg_def Message_EncodeMsg_def by (intro u)+
  have h: "succeeds (Handshake_write L W ctx h)" for ctx h unfolding Handshake_write_def by (intro u)
  then show "succeeds (Handshake_EncodeMsg L W h)" by (simp add: Handshake_EncodeMsg_def)
  have "succeeds (Batch_writeEntries L W i vs)" for i vs by (induction vs arbitrary: i) (simp_all add: u)
  with h show "succeeds (Batch_EncodeMsg L W b)"
    unfolding Batch_EncodeMsg_def by (cases "b_Handshake b") (simp_all add: u)
qed

section \<open>A writer\<close>

text \<open>A writer with room for a number of bytes, after which it fails.\<close>

type_synonym room = "bytes \<times> nat"

definition room_put :: "bytes \<Rightarrow> room wr" where
  "room_put bs w =
     (if length bs \<le> snd w then (None, (fst w @ bs, snd w - length bs)) else (Some (ErrLib ''short write''), (fst w @ take (snd w) bs, 0)))"

definition room_writer :: "room writer" where
  "room_writer = \<lparr>wAppend = room_put, wInt64 = (\<lambda>i. room_put (AppendInt64 wire [] i)), wInt32 = (\<lambda>i. room_put (AppendInt32 wire [] i)),
     wUint64 = (\<lambda>i. room_put (AppendUint64 wire [] i)), wByte = (\<lambda>i. room_put (AppendByte wire [] i)),
     wString = (\<lambda>i. room_put (AppendString wire [] i)), wBytes = (\<lambda>i. room_put (AppendBytes wire [] i)),
     wFloat64 = (\<lambda>i. room_put (AppendFloat64 wire [] i)), wArrayHeader = (\<lambda>i. room_put (AppendArrayHeader wire [] i)),
     wNil = room_put (AppendNil wire [])\<rparr>"

lemma room_put_writes: "writes fst (room_put bs) bs"
  by (auto simp: writes_def room_put_def intro: exI [of _ "length bs"])

interpretation room: msgp_writer wire room_writer fst
  by unfold_locales (simp_all add: room_writer_def room_put_writes)

section \<open>Properties\<close>

text \<open>C15: The streaming encoders and the appending ones agree: for every message, handshake, batch and timestamp, \<^verbatim>\<open>EncodeMsg\<close> without an error has
  written exactly the bytes \<^verbatim>\<open>MarshalMsg\<close> appends, with an error an initial part of them, and it returns no error unless the writer does.\<close>

theorem EncodeMsg_MarshalMsg:
  assumes "msgp_writer L W out"
  shows "writes out (Batch_EncodeMsg L W b) (Batch_MarshalMsg L b []) \<and> writes out (Handshake_EncodeMsg L W h) (Handshake_MarshalMsg L h []) \<and>
    writes out (Message_EncodeMsg L W m) (Message_MarshalMsg L m []) \<and> writes out (Timestamp_EncodeMsg L W ts) (Timestamp_MarshalMsg L ts []) \<and>
    writes out (MsgType_EncodeMsg L W t) (MsgType_MarshalMsg L t []) \<and>
    (unfailing W \<longrightarrow> fst (Batch_EncodeMsg L W b w) = None \<and> fst (Handshake_EncodeMsg L W h w) = None \<and> fst (Message_EncodeMsg L W m w) = None \<and>
       fst (Timestamp_EncodeMsg L W ts w) = None \<and> fst (MsgType_EncodeMsg L W t w) = None)"
proof -
  have "writes out (Handshake_EncodeMsg L W h) (Handshake_MarshalMsg L h [])"
    using msgp_writer.Handshake_writes [OF assms] msgp_lib.Require [OF msgp_writer.axioms(1) [OF assms]]
    by (simp add: Handshake_EncodeMsg_def Handshake_MarshalMsg_def)
  then show ?thesis
    using msgp_writer.Batch_writes [OF assms] msgp_writer.Message_writes [OF assms, of m] msgp_writer.Timestamp_writes [OF assms]
      msgp_writer.MsgType_writes [OF assms] encoders_succeed(1,2,4,5) [of W] encoders_succeed(3) [of W L m] by (simp add: succeeds_def)
qed

theorem EncodeMsg_MarshalMsg_witness:
  "Timestamp_EncodeMsg wire room_writer (Timestamp 5 1) ([], 100) = (None, (Timestamp_MarshalMsg wire (Timestamp 5 1) [], 81))"
proof -
  let ?r = "Timestamp_EncodeMsg wire room_writer (Timestamp 5 1) ([], 100)"
  have "writes fst (Timestamp_EncodeMsg wire room_writer (Timestamp 5 1)) (Timestamp_MarshalMsg wire (Timestamp 5 1) [])"
    using EncodeMsg_MarshalMsg [OF room.msgp_writer_axioms] by blast
  then obtain n where n: "fst (snd ?r) = take n (Timestamp_MarshalMsg wire (Timestamp 5 1) [])"
    "fst ?r = None \<longrightarrow> length (Timestamp_MarshalMsg wire (Timestamp 5 1) []) \<le> n" unfolding writes_def by (metis append_Nil fst_conv)
  have "fst ?r = None" "snd (snd ?r) = 81"
    by (simp_all add: Timestamp_EncodeMsg_def wthen_def wdone_def room_writer_def room_put_def wire_def)
  with n show ?thesis by (metis prod.collapse take_all)
qed

end
