(* ===== verification/Logging.thy ===== *)
theory Logging
  imports Go_Lib
begin

text \<open>
  The bridge from the log of the membership library to the node's logger, \<^verbatim>\<open>mlLoggerBridge.Write\<close> in \<^verbatim>\<open>src/capacitor.go\<close>: the level is taken
  from a marker in the line and the line is trimmed. \<^verbatim>\<open>strings.Contains\<close> and \<^verbatim>\<open>strings.TrimSpace\<close> work on the bytes of a string; the white
  space of Unicode is the list of its encodings.
\<close>

definition Contains :: "string \<Rightarrow> string \<Rightarrow> bool" where
  "Contains s sub = list_ex (\<lambda>i. HasPrefix (drop i s) sub) [0..<Suc (length s)]"

definition spaces :: "string list" where
  "spaces =
     [ [CHR 0x09], [CHR 0x0A], [CHR 0x0B], [CHR 0x0C], [CHR 0x0D], [CHR 0x20], [CHR 0xC2, CHR 0x85], [CHR 0xC2, CHR 0xA0],
      [CHR 0xE1, CHR 0x9A, CHR 0x80], [CHR 0xE2, CHR 0x80, CHR 0xA8], [CHR 0xE2, CHR 0x80, CHR 0xA9], [CHR 0xE2, CHR 0x80, CHR 0xAF],
      [CHR 0xE2, CHR 0x81, CHR 0x9F], [CHR 0xE3, CHR 0x80, CHR 0x80]] @
     map (\<lambda>b. [CHR 0xE2, CHR 0x80, char_of (b :: nat)]) [0x80..<0x8B]"

text \<open>Dropping a set of non-empty strings from the front as long as there is one.\<close>

function trim_front :: "string list \<Rightarrow> string \<Rightarrow> string" where
  "trim_front ps s = (case find (\<lambda>p. p \<noteq> [] \<and> HasPrefix s p) ps of None \<Rightarrow> s | Some p \<Rightarrow> trim_front ps (drop (length p) s))"
  by pat_completeness auto
termination
proof (relation "measure (\<lambda>(ps, s). length s)")
  fix ps :: "string list" and s p
  assume "find (\<lambda>p. p \<noteq> [] \<and> HasPrefix s p) ps = Some p"
  then have "p \<noteq> []" "HasPrefix s p" by (auto simp: find_Some_iff)
  then show "((ps, drop (length p) s), ps, s) \<in> measure (\<lambda>(ps, s). length s)" by (cases s) (auto simp: HasPrefix_def)
qed simp

declare trim_front.simps [simp del]

definition TrimSpace :: "string \<Rightarrow> string" where
  "TrimSpace s = rev (trim_front (map rev spaces) (rev (trim_front spaces s)))"

datatype level = Debug | Error | Warn | Info

text \<open>What is logged, and what \<^verbatim>\<open>Write\<close> returns.\<close>

definition mlLoggerBridge_Write :: "string \<Rightarrow> (level \<times> string) \<times> nat" where
  "mlLoggerBridge_Write msg =
     ((if Contains msg ''[DEBUG]'' then (Debug, TrimSpace msg)
       else if Contains msg ''[ERR]'' then (Error, TrimSpace msg)
       else if Contains msg ''[WARN]'' then (Warn, TrimSpace msg)
       else (Info, TrimSpace msg)),
      length msg)"

section \<open>Trimming\<close>

lemma Contains_iff: "Contains s sub \<longleftrightarrow> (\<exists>a b. s = a @ sub @ b)"
proof
  assume "Contains s sub"
  then obtain i where "take (length sub) (drop i s) = sub" by (auto simp: Contains_def HasPrefix_def list_ex_iff)
  then have "s = take i s @ sub @ drop (length sub) (drop i s)" by (metis append_take_drop_id)
  then show "\<exists>a b. s = a @ sub @ b" by blast
next
  assume "\<exists>a b. s = a @ sub @ b"
  then obtain a b where "s = a @ sub @ b" by blast
  then show "Contains s sub" by (auto simp: Contains_def HasPrefix_def list_ex_iff intro: bexI [of _ "length a"])
qed

lemma trim_front_suffix: "\<exists>a. s = a @ trim_front ps s"
proof (induction ps s rule: trim_front.induct)
  case (1 ps s)
  show ?case
  proof (cases "find (\<lambda>p. p \<noteq> [] \<and> HasPrefix s p) ps")
    case None
    then show ?thesis by (subst trim_front.simps) simp
  next
    case (Some p)
    from 1 [OF this] obtain a where "drop (length p) s = a @ trim_front ps (drop (length p) s)" by blast
    then have "s = (take (length p) s @ a) @ trim_front ps s"
      using Some by (subst trim_front.simps) (metis append.assoc append_take_drop_id option.simps(5))
    then show ?thesis by blast
  qed
qed

lemma trim_front_clean: "p \<in> set ps \<Longrightarrow> p \<noteq> [] \<Longrightarrow> \<not> HasPrefix (trim_front ps s) p"
proof (induction ps s rule: trim_front.induct)
  case (1 ps s)
  show ?case
  proof (cases "find (\<lambda>p. p \<noteq> [] \<and> HasPrefix s p) ps")
    case None
    then have "\<forall>q \<in> set ps. q \<noteq> [] \<longrightarrow> \<not> HasPrefix s q" by (auto simp: find_None_iff)
    with None 1(2,3) show ?thesis by (subst trim_front.simps) simp
  next
    case (Some q)
    with 1 show ?thesis by (subst trim_front.simps) simp
  qed
qed

text \<open>The line that is logged is a part of the line written, and ends with no white space.\<close>

lemma TrimSpace_part: "Contains s (TrimSpace s)"
proof -
  obtain a where a: "s = a @ trim_front spaces s" using trim_front_suffix by blast
  obtain b where "rev (trim_front spaces s) = b @ rev (TrimSpace s)"
    using trim_front_suffix [of "rev (trim_front spaces s)" "map rev spaces"] by (auto simp: TrimSpace_def)
  then have "trim_front spaces s = TrimSpace s @ rev b" by (metis rev_append rev_rev_ident)
  with a show ?thesis unfolding Contains_iff by metis
qed

lemma TrimSpace_end:
  assumes "sp \<in> set spaces"
  shows "TrimSpace s \<noteq> a @ sp"
proof
  assume e: "TrimSpace s = a @ sp"
  have "sp \<noteq> []" using assms by (auto simp: spaces_def)
  moreover have "HasPrefix (rev (TrimSpace s)) (rev sp)" unfolding e by (simp add: HasPrefix_def)
  ultimately show False using trim_front_clean [of "rev sp" "map rev spaces" "rev (trim_front spaces s)"] assms by (simp add: TrimSpace_def)
qed

end
