(* ===== verification/Spec2Isabelle.thy ===== *)
theory Spec2Isabelle
  imports Cluster Wakeup Persist_Laws Writers Logging
begin

text \<open>
  Capacitor (\<^verbatim>\<open>src/\<close>) is a cache that is replicated between the nodes of a cluster. A node keeps registers, counters, metrics and
  sliding windows in memory, saves them in an embedded database, and sends every change to the other nodes. A public operation of
  \<^verbatim>\<open>src/capacitor.go\<close> takes a timestamp from the hybrid logical clock (\<^verbatim>\<open>src/hlc.go\<close>), changes the store (\<^verbatim>\<open>src/store.go\<close>) and appends an entry to
  the delta log (\<^verbatim>\<open>src/log.go\<close>). For every peer a replicator reads encoded entries from the log and hands them in batches to the stream
  client (\<^verbatim>\<open>src/transport.go\<close>). The stream server of the peer decodes a batch, checks the token, and passes each entry to
  \<^verbatim>\<open>applyRemoteEntry\<close>, which advances the clock and changes the store there. The wire format is MessagePack, with generated code in the files
  \<^verbatim>\<open>src/*_gen.go\<close>. Latencies are collected in \<^verbatim>\<open>src/metrics.go\<close>.

  This theory imports the whole development and adds no definitions. The theories are:

  \<^item> \<^verbatim>\<open>Prelude\<close>, \<^verbatim>\<open>Go_Lib\<close>, \<^verbatim>\<open>Float64\<close>: Go's fixed-width integers as machine words, byte slices, errors and panics as values; the functions of
    \<^verbatim>\<open>strings\<close>, \<^verbatim>\<open>strconv\<close>, \<^verbatim>\<open>fmt\<close> and \<^verbatim>\<open>encoding/binary\<close> the source calls; \<^verbatim>\<open>float64\<close> as its bit pattern, with addition rounded to nearest.
  \<^item> \<^verbatim>\<open>HLC\<close>: \<^verbatim>\<open>src/hlc.go\<close>. The clock never moves backwards, stays within the maximal offset of the wall clock, rejects
    exactly the timestamps that are too far ahead, and in every history of a cluster respects the order of cause and effect.
  \<^item> \<^verbatim>\<open>Store\<close>: the operations of \<^verbatim>\<open>src/store.go\<close> in memory, each a change of the one shard it locks.
    \<^verbatim>\<open>Registers\<close>, \<^verbatim>\<open>Counters\<close> and \<^verbatim>\<open>Windows\<close> hold the lemmas about the three kinds of data: the greatest timestamp wins, the cached aggregate
    is the sum of the partial counts, a window holds and counts the events that are recent enough. They also prove the situations
    in which replicas disagree: equal timestamps, a write that is older than a removed tombstone, negative increments.
  \<^item> \<^verbatim>\<open>Persist\<close>, \<^verbatim>\<open>Persist_Laws\<close>: \<^verbatim>\<open>load\<close>, \<^verbatim>\<open>flush\<close>, \<^verbatim>\<open>newStore\<close> and \<^verbatim>\<open>close\<close> of \<^verbatim>\<open>src/store.go\<close>. The invariant of \<^verbatim>\<open>persist_reach\<close> relates the database to the store
    after any run of operations, ticks of the flush loop and ticks of the janitor; from it follow what a restart or a crash gives back, that peer
    sequence numbers are lost, and that counters whose key has a colon are read back under another key.
  \<^item> \<^verbatim>\<open>Delta_Log\<close>: \<^verbatim>\<open>src/log.go\<close>, with the ring of descriptors and the circular buffer byte by byte. It is refined to the list of the encoded
    entries; without the bound on entry sizes an entry is overwritten while it is retained, or a read panics.
  \<^item> \<^verbatim>\<open>Msgp\<close>, \<^verbatim>\<open>Codecs\<close>, \<^verbatim>\<open>Codec_Laws\<close>, \<^verbatim>\<open>Messages\<close>, \<^verbatim>\<open>Writers\<close>: the generated codecs of \<^verbatim>\<open>src/hlc_gen.go\<close>, \<^verbatim>\<open>src/log_gen.go\<close>, \<^verbatim>\<open>src/transport_gen.go\<close> and \<^verbatim>\<open>src/types_gen.go\<close>
    with the types they encode, and \<^verbatim>\<open>src/types.go\<close>. Both decoders invert the encoder and leave the bytes that follow, an encoding fits
    its announced size, and the streaming encoders write what the appending encoders append.
  \<^item> \<^verbatim>\<open>Metrics\<close>: \<^verbatim>\<open>src/metrics.go\<close>. Concurrent calls of \<^verbatim>\<open>Record\<close> are interleaved atomic actions; count, sum and maximum are those of all calls, and
    every interleaving ends.
  \<^item> \<^verbatim>\<open>Client\<close>, \<^verbatim>\<open>Server\<close>: the two halves of \<^verbatim>\<open>src/transport.go\<close>. The first batch on a connection carries the handshake; a server with a token applies nothing before a
    handshake with that token; the loop that serves a connection returns whatever arrives; what a client wrote is what the server applies.
  \<^item> \<^verbatim>\<open>Node\<close>, \<^verbatim>\<open>Node_Laws\<close>: \<^verbatim>\<open>src/capacitor.go\<close>, with \<^verbatim>\<open>New\<close>, every exported method, \<^verbatim>\<open>applyRemoteEntry\<close>, the membership events and the replicator.
    The timestamps in the store of a running node are at most its clock, so a node reads its own writes; after a restart this may not hold, and then a write
    is acknowledged and lost.
  \<^item> \<^verbatim>\<open>Replication\<close>, \<^verbatim>\<open>Wakeup\<close>: the replicator with the log, the client and the server. Entries arrive in the order of the log without
    gaps, whatever dialling and writing do, while the peer does not fall further behind than the log retains; successful rounds deliver everything; each joined peer is served by one replicator.
    \<^verbatim>\<open>Wakeup\<close> interleaves the loop with the threads that append, shut down or receive a handshake: no append is missed, a shutdown and
    a handshake can be.
  \<^item> \<^verbatim>\<open>Convergence\<close>, \<^verbatim>\<open>Cluster\<close>: what is common to replicated data, and the composition. Nodes that received the same entries hold the same store, and in every
    history of a cluster a node that received everything reads the sum of all increments made anywhere.
  \<^item> \<^verbatim>\<open>Logging\<close>: the bridge to the logger of the membership library.

  \<^bold>\<open>State and operations.\<close> A struct is a record with the source's field names. A method is a function from the state to the new state
  and its results, with the name of the method and the receiver in front where names would clash (\<^verbatim>\<open>store_set\<close>, \<^verbatim>\<open>Capacitor_Set\<close>,
  \<^verbatim>\<open>Batch_MarshalMsg\<close>). What runs under one lock is one step. The mutex of the log in \<^verbatim>\<open>Wakeup\<close> and the atomic actions in \<^verbatim>\<open>Metrics\<close> are finer, since
  there the interleaving matters. Loops are structural recursion over the data they scan, except \<^verbatim>\<open>serve\<close>, a partial function that
  is undefined when the loop does not end. Errors and panics are values, and an operation with a panic in its source returns it.
  Readings of the clock are arguments or come from a stream about which nothing is assumed. The order in which Go iterates over a map is
  an argument too.

  \<^bold>\<open>Interfaces.\<close> \<^verbatim>\<open>replicated\<close> and \<^verbatim>\<open>replicated_pair\<close> (\<^verbatim>\<open>Convergence\<close>) are the contract of data that may be applied in any order and
  repeatedly; registers, partial counts, windows, peer sequence numbers and their combinations interpret them on the shards of the store, and the
  convergence of a node is the fact of the last combination. \<^verbatim>\<open>msgp_lib\<close>, \<^verbatim>\<open>msgp_reader\<close> and \<^verbatim>\<open>msgp_writer\<close> state what the codecs rely on of the MessagePack library, and
  \<^verbatim>\<open>kv_db\<close> what persistence relies on of the database. These two libraries are not under \<^verbatim>\<open>src/\<close>, so the theorems hold for every instance of their laws, and an
  instance of each is given: \<^verbatim>\<open>wire\<close>, \<^verbatim>\<open>wire_rd\<close> and \<^verbatim>\<open>room\<close> are the MessagePack format with numbers in their widest form, read from a buffer and written
  to one of limited room; \<^verbatim>\<open>mem\<close> is a database whose entries expire.

  \<^bold>\<open>Bounds.\<close> Counters are kept in \<^verbatim>\<open>float64\<close> by the source; statements about sums require the magnitudes to stay within \<open>2 ^ 53\<close>, where
  addition is exact (\<^verbatim>\<open>cluster_ok\<close> for the histories of a cluster). Strings and slices in messages are shorter than \<open>2 ^ 32\<close>, the
  largest length MessagePack can express. The refinement of the log requires that the buffer can hold one entry more than there are
  descriptors, and sizes and sequence numbers that stay within Go's integers. The logical part of a clock must not be at the largest
  32-bit value when it is incremented. A connection delivers at most 100 MB, as \<^verbatim>\<open>handleConn\<close> limits it. There is no fuel anywhere.

  \<^bold>\<open>Not modelled.\<close> Sockets, TLS and the gossip protocol of the membership library are only called: dialling, writing, accepting and membership events
  enter as outcomes. BadgerDB and the reflection based encoder \<^verbatim>\<open>vmihailenco/msgpack\<close> are parameters. Tickers are left out: a tick of the flush loop, of a janitor or
  of the memory monitor is an operation that may happen at any time. The callbacks \<^verbatim>\<open>NotifyMsg\<close>, \<^verbatim>\<open>GetBroadcasts\<close>,
  \<^verbatim>\<open>LocalState\<close>, \<^verbatim>\<open>MergeRemoteState\<close> and \<^verbatim>\<open>NotifyUpdate\<close> have empty bodies. The pool of batch buffers is modelled as far as the size of what
  it keeps. Log lines have no effect on the state and are omitted, apart from the bridge.
\<close>

end
